(* ===== verification/Prelude.thy ===== *)
theory Prelude
  imports Main "HOL-Library.Word" "HOL-Library.Monad_Syntax"
begin

text \<open>
  Shared vocabulary of the development.  C objects of known size are lists of their bytes;
  an access outside an object is undefined behaviour of the C program and is the value
  \<open>None\<close> of the option monad, so a function of the model that returns \<open>Some\<close> has been shown
  to stay inside every object it touches.  The collections \<open>mem_simps\<close> (byte objects) and
  \<open>cstr_simps\<close> (NUL-terminated strings) are what the component theories hand to the simplifier.
\<close>

named_theorems mem_simps \<open>loads and stores in byte objects\<close>
named_theorems cstr_simps \<open>NUL-terminated strings\<close>

section \<open>Types and constants of rtdef.h\<close>

type_synonym u8 = "8 word"
type_synonym u16 = "16 word"
type_synonym u32 = "32 word"

text \<open>Status codes \<open>rt_err_t\<close> (a C \<open>int\<close> of 32 bits, never near its limits here).\<close>

type_synonym rt_err = int

abbreviation (input) RT_EOK :: rt_err where "RT_EOK \<equiv> 0"
abbreviation (input) RT_ERROR :: rt_err where "RT_ERROR \<equiv> 1"
abbreviation (input) RT_ETIMEOUT :: rt_err where "RT_ETIMEOUT \<equiv> 2"
abbreviation (input) RT_EFULL :: rt_err where "RT_EFULL \<equiv> 3"
abbreviation (input) RT_EEMPTY :: rt_err where "RT_EEMPTY \<equiv> 4"
abbreviation (input) RT_EBUSY :: rt_err where "RT_EBUSY \<equiv> 7"
abbreviation (input) RT_EIO :: rt_err where "RT_EIO \<equiv> 8"
abbreviation (input) RT_EINVAL :: rt_err where "RT_EINVAL \<equiv> 10"

abbreviation (input) NUL :: char where "NUL \<equiv> CHR 0x00"
abbreviation (input) LF :: char where "LF \<equiv> CHR 0x0A"
abbreviation (input) CR :: char where "CR \<equiv> CHR 0x0D"

lemma unat_u8: "unat (b :: u8) < 256"
  by (rule order.strict_trans2 [OF unsigned_less]) simp

section \<open>Byte objects\<close>

text \<open>\<open>mem_store off xs m\<close> is \<open>memcpy(m + off, xs, length xs)\<close>; \<open>mem_load off n m\<close> reads
  \<open>n\<close> elements from \<open>m + off\<close>.\<close>

definition mem_store :: "nat \<Rightarrow> 'a list \<Rightarrow> 'a list \<Rightarrow> 'a list option" where
  "mem_store off xs m =
     (if off + length xs \<le> length m
      then Some (take off m @ xs @ drop (off + length xs) m) else None)"

definition mem_load :: "nat \<Rightarrow> nat \<Rightarrow> 'a list \<Rightarrow> 'a list option" where
  "mem_load off n m = (if off + n \<le> length m then Some (take n (drop off m)) else None)"

lemma mem_store_Some [mem_simps]:
  "mem_store off xs m = Some m' \<longleftrightarrow>
     off + length xs \<le> length m \<and> m' = take off m @ xs @ drop (off + length xs) m"
  by (auto simp: mem_store_def)

lemma mem_store_None [mem_simps]:
  "mem_store off xs m = None \<longleftrightarrow> length m < off + length xs"
  by (auto simp: mem_store_def)

lemma mem_load_Some [mem_simps]:
  "mem_load off n m = Some ys \<longleftrightarrow> off + n \<le> length m \<and> ys = take n (drop off m)"
  by (auto simp: mem_load_def)

lemma mem_store_length: "mem_store off xs m = Some m' \<Longrightarrow> length m' = length m"
  by (auto simp: mem_simps)

text \<open>A store is read back, and leaves the bytes outside its range alone.\<close>

lemma mem_load_store_same:
  "mem_store off xs m = Some m' \<Longrightarrow> mem_load off (length xs) m' = Some xs"
  by (auto simp: mem_simps)

lemma nth_mem_store:
  assumes "mem_store off xs m = Some m'" and "i < length m"
  shows "m' ! i = (if off \<le> i \<and> i < off + length xs then xs ! (i - off) else m ! i)"
  using assms by (auto simp: mem_simps nth_append min_def)

lemma mem_load_store_before:
  assumes "mem_store off xs m = Some m'" and "o2 + n \<le> off"
  shows "mem_load o2 n m' = mem_load o2 n m"
proof -
  have "take n (drop o2 (take off m @ ys)) = take n (drop o2 m)" if "off \<le> length m" for ys
    using assms(2) that by (auto simp: drop_take min_def)
  then show ?thesis
    using assms by (auto simp: mem_store_def mem_load_def split: if_splits)
qed

lemma drop_mem_store_before:
  assumes "mem_store off xs m = Some m'" and "off + length xs \<le> k"
  shows "drop k m' = drop k m"
  using assms by (auto simp: mem_simps)

lemma take_mem_store_after:
  assumes "mem_store off xs m = Some m'" and "k \<le> off"
  shows "take k m' = take k m"
  using assms by (auto simp: mem_simps min_def)

section \<open>NUL-terminated strings\<close>

text \<open>\<open>c_string off m\<close> is the string a \<open>char *\<close> at \<open>m + off\<close> denotes: the bytes before the
  first NUL.  With no NUL before the end of the object, \<open>strlen\<close> runs out of it.\<close>

definition c_string :: "nat \<Rightarrow> char list \<Rightarrow> char list option" where
  "c_string off m =
     (if NUL \<in> set (drop off m) then Some (takeWhile (\<lambda>c. c \<noteq> NUL) (drop off m)) else None)"

definition c_strlen :: "nat \<Rightarrow> char list \<Rightarrow> nat option" where
  "c_strlen off m = map_option length (c_string off m)"

lemma takeWhile_until: "x \<notin> set xs \<Longrightarrow> takeWhile (\<lambda>c. c \<noteq> x) (xs @ x # ys) = xs"
  by (induction xs) auto

lemma takeWhile_neq_notin: "x \<notin> set xs \<Longrightarrow> takeWhile (\<lambda>c. c \<noteq> x) xs = xs"
  by (induction xs) auto

lemma notin_takeWhile: "x \<notin> set (takeWhile (\<lambda>c. c \<noteq> x) xs)"
  by (blast dest: set_takeWhileD)

lemma c_stringI: "drop off m = s @ NUL # r \<Longrightarrow> NUL \<notin> set s \<Longrightarrow> c_string off m = Some s"
  by (simp add: c_string_def takeWhile_until)

lemma split_at_NUL: "NUL \<in> set xs \<Longrightarrow> \<exists>r. xs = takeWhile (\<lambda>c. c \<noteq> NUL) xs @ NUL # r"
  by (induction xs) auto

lemma c_string_Some [cstr_simps]:
  "c_string off m = Some s \<longleftrightarrow> NUL \<notin> set s \<and> (\<exists>r. drop off m = s @ NUL # r)"
proof
  assume "c_string off m = Some s"
  then have "NUL \<in> set (drop off m)" and s: "s = takeWhile (\<lambda>c. c \<noteq> NUL) (drop off m)"
    by (auto simp: c_string_def split: if_splits)
  from split_at_NUL [OF this(1)] show "NUL \<notin> set s \<and> (\<exists>r. drop off m = s @ NUL # r)"
    unfolding s by (intro conjI notin_takeWhile)
qed (auto intro: c_stringI)

lemma c_string_len:
  assumes "c_string off m = Some s"
  shows "off + length s < length m"
proof -
  obtain r where "drop off m = s @ NUL # r"
    using assms by (auto simp: cstr_simps)
  from arg_cong [OF this, of length] show ?thesis by auto
qed

lemma c_string_no_NUL: "c_string off m = Some s \<Longrightarrow> NUL \<notin> set s"
  by (auto simp: cstr_simps)

section \<open>Searching a range\<close>

lemma find_upt: "m \<le> i \<Longrightarrow> i < n \<Longrightarrow> find (\<lambda>j. j = i) [m..<n] = Some i"
  unfolding find_Some_iff by (rule exI [of _ "i - m"]) auto

lemma find_in_range:
  assumes "find P [m..<n] = Some i"
  shows "m \<le> i" and "i < n"
  using assms by (auto simp: find_Some_iff)

end
