(* ===== verification/CLib.thy ===== *)
theory CLib
  imports Prelude
begin

text \<open>
  The functions of the C library the application calls on text: \<open>strtol\<close> and \<open>atoi\<close> with the
  32-bit \<open>long\<close> of the target, and bounded loops over an index range.
\<close>

section \<open>Index loops\<close>

text \<open>\<open>for_each xs body s\<close> is \<open>for (i in xs) s = body(i, s)\<close>; a faulting body ends it.\<close>

fun for_each :: "'i list \<Rightarrow> ('i \<Rightarrow> 's \<Rightarrow> 's option) \<Rightarrow> 's \<Rightarrow> 's option" where
  "for_each [] body s = Some s"
| "for_each (i # is) body s = do { s' \<leftarrow> body i s; for_each is body s' }"

lemma for_each_append:
  "for_each (xs @ ys) body s = do { s' \<leftarrow> for_each xs body s; for_each ys body s' }"
proof (induction xs arbitrary: s)
  case (Cons x xs)
  then show ?case by (cases "body x s") simp_all
qed simp

text \<open>Filling an array element by element, starting at \<open>base\<close>.\<close>

definition array_set :: "nat \<Rightarrow> 'a \<Rightarrow> 'a list \<Rightarrow> 'a list option" where
  "array_set i x xs = (if i < length xs then Some (xs[i := x]) else None)"

lemma for_each_fill:
  assumes "base + n \<le> length xs"
  shows "for_each [0..<n] (\<lambda>i. array_set (base + i) (f i)) xs =
    Some (take base xs @ map f [0..<n] @ drop (base + n) xs)"
  using assms
proof (induction n)
  case (Suc n)
  have "(take base xs @ map f [0..<n] @ drop (base + n) xs)[base + n := f n] =
      take base xs @ map f [0..<n] @ f n # drop (base + Suc n) xs"
    using Suc.prems
    by (simp add: list_update_append Cons_nth_drop_Suc [symmetric])
  with Suc show ?case
    by (simp add: for_each_append array_set_def)
qed simp

section \<open>Digits\<close>

definition char_code :: "char \<Rightarrow> nat" where
  "char_code c = of_char c"

definition is_space :: "char \<Rightarrow> bool" where
  "is_space c \<longleftrightarrow> c = CHR '' '' \<or> (9 \<le> char_code c \<and> char_code c \<le> 13)"

definition digit_val :: "nat \<Rightarrow> char \<Rightarrow> nat option" where
  "digit_val base c =
     (let n = char_code c;
          v = (if 48 \<le> n \<and> n \<le> 57 then n - 48
               else if 65 \<le> n \<and> n \<le> 90 then n - 55
               else if 97 \<le> n \<and> n \<le> 122 then n - 87
               else base)
      in if v < base then Some v else None)"

lemma digit_val_bound: "digit_val base c = Some v \<Longrightarrow> v < base"
  by (auto simp: digit_val_def Let_def split: if_splits)

section \<open>strtol and atoi\<close>

text \<open>\<open>scan_digits\<close> reads digits up to the first other byte; \<open>None\<close> is a scan that runs off the
  end of the object.\<close>

fun scan_digits :: "nat \<Rightarrow> nat \<Rightarrow> char list \<Rightarrow> nat option" where
  "scan_digits base acc [] = None"
| "scan_digits base acc (c # cs) =
     (case digit_val base c of
        None \<Rightarrow> Some acc
      | Some d \<Rightarrow> scan_digits base (acc * base + d) cs)"

abbreviation (input) LONG_MAX :: int where "LONG_MAX \<equiv> 2147483647"
abbreviation (input) LONG_MIN :: int where "LONG_MIN \<equiv> -2147483648"

definition skip_prefix :: "nat \<Rightarrow> char list \<Rightarrow> char list" where
  "skip_prefix base s =
     (case s of
        a # b # r \<Rightarrow> if base = 16 \<and> a = CHR ''0'' \<and> (b = CHR ''x'' \<or> b = CHR ''X'') then r else s
      | _ \<Rightarrow> s)"

definition strtol :: "nat \<Rightarrow> char list \<Rightarrow> int option" where
  "strtol base s =
     (let s1 = dropWhile is_space s;
          neg = (case s1 of c # _ \<Rightarrow> c = CHR ''-'' | [] \<Rightarrow> False);
          s2 = (case s1 of c # r \<Rightarrow> if c = CHR ''-'' \<or> c = CHR ''+'' then r else s1 | [] \<Rightarrow> s1)
      in do { n \<leftarrow> scan_digits base 0 (skip_prefix base s2);
              Some (if neg then max LONG_MIN (- int n) else min LONG_MAX (int n)) })"

text \<open>\<open>atoi\<close> on a NUL-terminated string; the terminator always stops the scan.\<close>

definition atoi :: "string \<Rightarrow> int" where
  "atoi s = (case strtol 10 (s @ [NUL]) of None \<Rightarrow> 0 | Some v \<Rightarrow> v)"

lemma digit_val_NUL [simp]: "1 \<le> base \<Longrightarrow> base \<le> 36 \<Longrightarrow> digit_val base NUL = None"
  by (simp add: digit_val_def char_code_def)

lemma scan_digits_stop:
  "\<forall>c \<in> set ds. digit_val base c \<noteq> None \<Longrightarrow> digit_val base z = None \<Longrightarrow>
   scan_digits base acc (ds @ z # r) =
     Some (foldl (\<lambda>a c. a * base + (case digit_val base c of None \<Rightarrow> 0 | Some d \<Rightarrow> d)) acc ds)"
  by (induction ds arbitrary: acc) auto

lemma is_space_not_digit: "digit_val 16 c \<noteq> None \<Longrightarrow> \<not> is_space c"
  by (auto simp: digit_val_def is_space_def char_code_def Let_def split: if_splits)

lemma sign_not_digit: "digit_val 16 c \<noteq> None \<Longrightarrow> c \<noteq> CHR ''-'' \<and> c \<noteq> CHR ''+''"
  by (auto simp: digit_val_def char_code_def Let_def)

lemma x_not_digit: "digit_val 16 c \<noteq> None \<Longrightarrow> c \<noteq> CHR ''x'' \<and> c \<noteq> CHR ''X''"
  by (auto simp: digit_val_def char_code_def Let_def)

text \<open>Two hexadecimal digits and a byte that is none.\<close>

lemma strtol_two_digits:
  assumes "digit_val 16 a = Some x" and "digit_val 16 b = Some y" and "digit_val 16 z = None"
  shows "strtol 16 (a # b # z # r) = Some (int (x * 16 + y))"
proof -
  have "x < 16" "y < 16"
    using assms digit_val_bound by auto
  moreover have "skip_prefix 16 (a # b # z # r) = a # b # z # r"
    using assms x_not_digit [of b] by (simp add: skip_prefix_def)
  moreover have "\<not> is_space a" "a \<noteq> CHR ''-''" "a \<noteq> CHR ''+''"
    using assms is_space_not_digit [of a] sign_not_digit [of a] by simp_all
  ultimately show ?thesis
    using assms by (simp add: strtol_def)
qed

section \<open>Printing numbers\<close>

text \<open>The formats \<open>%d\<close> and \<open>%02d\<close>.\<close>

definition digit_char :: "nat \<Rightarrow> char" where
  "digit_char d = char_of (48 + d)"

fun dec_nat :: "nat \<Rightarrow> string" where
  "dec_nat n = (if n < 10 then [digit_char n] else dec_nat (n div 10) @ [digit_char (n mod 10)])"

declare dec_nat.simps [simp del]

definition dec_int :: "int \<Rightarrow> string" where
  "dec_int i = (if i < 0 then CHR ''-'' # dec_nat (nat (- i)) else dec_nat (nat i))"

definition dec_2 :: "nat \<Rightarrow> string" where
  "dec_2 n = (if n < 10 then CHR ''0'' # dec_nat n else dec_nat n)"

lemma dec_nat_nonempty: "dec_nat n \<noteq> []"
  by (subst dec_nat.simps) simp

lemma dec_int_nonempty: "dec_int i \<noteq> []"
  by (simp add: dec_int_def dec_nat_nonempty)

lemma dec_2_length: "n < 100 \<Longrightarrow> length (dec_2 n) = 2"
  by (auto simp: dec_2_def dec_nat.simps)

text \<open>What is printed is read back.\<close>

lemma digit_val_char: "d < 10 \<Longrightarrow> digit_val 10 (digit_char d) = Some d"
  by (simp add: digit_val_def digit_char_def char_code_def)

lemma scan_dec_nat:
  "scan_digits 10 0 (dec_nat n @ r) = scan_digits 10 n r"
proof (induction n arbitrary: r rule: dec_nat.induct)
  case (1 n)
  show ?case
  proof (cases "n < 10")
    case True
    then show ?thesis by (simp add: dec_nat.simps [of n] digit_val_char)
  next
    case False
    then show ?thesis using 1 by (simp add: dec_nat.simps [of n] digit_val_char)
  qed
qed

lemma dec_nat_head: "\<exists>d r. dec_nat n = digit_char d # r \<and> d < 10"
proof (induction n rule: dec_nat.induct)
  case (1 n)
  then show ?case by (cases "n < 10") (auto simp: dec_nat.simps [of n])
qed

lemma char_code_digit: "d < 10 \<Longrightarrow> char_code (digit_char d) = 48 + d"
  by (simp add: digit_char_def char_code_def)

lemma digit_char_plain:
  assumes "d < 10"
  shows "\<not> is_space (digit_char d)" and "digit_char d \<noteq> CHR ''-''" and "digit_char d \<noteq> CHR ''+''"
proof -
  have c: "48 \<le> char_code (digit_char d)" using char_code_digit [OF assms] by simp
  have n: "char_code (CHR '' '') = 32" "char_code (CHR ''-'') = 45" "char_code (CHR ''+'') = 43"
    by (simp_all add: char_code_def)
  show "digit_char d \<noteq> CHR ''-''" and "digit_char d \<noteq> CHR ''+''" using c n by auto
  show "\<not> is_space (digit_char d)" using c n by (auto simp: is_space_def)
qed

lemma skip_prefix_10: "skip_prefix 10 s = s"
  by (simp add: skip_prefix_def split: list.splits)

lemma atoi_dec:
  assumes "n < 2147483648"
  shows "atoi (dec_nat n) = int n"
proof -
  obtain d r where d: "dec_nat n = digit_char d # r" "d < 10" using dec_nat_head by blast
  have "scan_digits 10 0 (dec_nat n @ [NUL]) = Some n"
    unfolding scan_dec_nat by simp
  then have "strtol 10 (dec_nat n @ [NUL]) = Some (int n)"
    using d(1) digit_char_plain [OF d(2)] assms by (simp add: strtol_def skip_prefix_10 min_def del: scan_digits.simps)
  then show ?thesis by (simp add: atoi_def)
qed

end
