(* ===== verification/FileConfig.thy ===== *)
theory FileConfig
  imports Prelude
begin

text \<open>
  \<open>applications/file_config.c\<close>: the configuration file on the SD card.  \<open>struct config_info\<close>
  is five arrays of \<open>STR_SIZE\<close> bytes laid out without padding; the reader addresses it as
  one byte object (\<open>(char *)config + line_index * STR_SIZE\<close>), so the model keeps it as one
  list of \<open>5 * STR_SIZE\<close> bytes with the fields at their offsets.
\<close>

section \<open>The card\<close>

text \<open>
  What the POSIX calls of the code see of the card: whether a file system is mounted, the
  files by absolute path, and the free bytes.  \<open>open\<close> fails (a negative descriptor) on an
  unmounted card and, without \<open>O_CREAT\<close>, on a missing file; \<open>O_TRUNC\<close> gives the old bytes
  back; \<open>write\<close> appends as many bytes as there is room for, and the code ignores its result.
\<close>

record sdcard =
  mounted :: bool
  files :: "string \<Rightarrow> string option"
  room :: nat

definition sd_open_read :: "sdcard \<Rightarrow> string \<Rightarrow> string option" where
  "sd_open_read fs p = (if mounted fs then files fs p else None)"

definition sd_open_trunc :: "sdcard \<Rightarrow> string \<Rightarrow> sdcard option" where
  "sd_open_trunc fs p =
     (if mounted fs
      then Some (fs\<lparr>files := (files fs)(p \<mapsto> []),
                    room := room fs + (case files fs p of None \<Rightarrow> 0 | Some old \<Rightarrow> length old)\<rparr>)
      else None)"

definition sd_write :: "string \<Rightarrow> string \<Rightarrow> sdcard \<Rightarrow> sdcard" where
  "sd_write p bs fs =
     (let n = min (length bs) (room fs);
          old = (case files fs p of None \<Rightarrow> [] | Some c \<Rightarrow> c)
      in fs\<lparr>files := (files fs)(p \<mapsto> old @ take n bs), room := room fs - n\<rparr>)"

section \<open>The configuration structure\<close>

abbreviation (input) STR_SIZE :: nat where "STR_SIZE \<equiv> 100"
abbreviation (input) CONFIG_SIZE :: nat where "CONFIG_SIZE \<equiv> 500"

definition ROOT_DIR :: string where "ROOT_DIR = ''/sdcard/''"

type_synonym config_info = "char list"

text \<open>The fields, in declaration order, by their index in the structure.\<close>

abbreviation (input) wifi_name_ix :: nat where "wifi_name_ix \<equiv> 0"
abbreviation (input) wifi_password_ix :: nat where "wifi_password_ix \<equiv> 1"
abbreviation (input) mqtt_username_ix :: nat where "mqtt_username_ix \<equiv> 2"
abbreviation (input) mqtt_passwd_ix :: nat where "mqtt_passwd_ix \<equiv> 3"
abbreviation (input) mac_address_ix :: nat where "mac_address_ix \<equiv> 4"

definition config_field :: "nat \<Rightarrow> config_info \<Rightarrow> string option" where
  "config_field k c = c_string (k * STR_SIZE) c"

text \<open>A configuration the program may rely on: every field ends inside its own array and holds
  no line feed, the separator of the file.\<close>

definition config_ok :: "config_info \<Rightarrow> bool" where
  "config_ok c \<longleftrightarrow> length c = CONFIG_SIZE \<and>
     list_all (\<lambda>k. case config_field k c of None \<Rightarrow> False
                   | Some s \<Rightarrow> length s < STR_SIZE \<and> LF \<notin> set s) [0, 1, 2, 3, 4]"

section \<open>Reading\<close>

text \<open>
  The loop of \<open>init_from_file\<close>: one byte per \<open>read\<close>, collected in the stack buffer \<open>temp\<close>;
  at a line feed the collected bytes and a NUL go to the field of the current line.
\<close>

fun read_loop :: "string \<Rightarrow> char list \<Rightarrow> nat \<Rightarrow> nat \<Rightarrow> config_info \<Rightarrow> config_info option" where
  "read_loop [] temp index line_index config = Some config"
| "read_loop (ch # rest) temp index line_index config =
     (if ch \<noteq> LF
      then do { temp' \<leftarrow> mem_store index [ch] temp;
                read_loop rest temp' (index + 1) line_index config }
      else do { c1 \<leftarrow> mem_store (line_index * STR_SIZE) (take index temp) config;
                c2 \<leftarrow> mem_store (line_index * STR_SIZE + index) [NUL] c1;
                read_loop rest temp 0 (line_index + 1) c2 })"

text \<open>\<open>rt_sprintf(temp, "%s%s", ROOT_DIR, path)\<close> needs its result and a NUL to fit \<open>temp\<close>,
  whose bytes beyond them are whatever the stack held (\<open>junk\<close>).\<close>

definition init_from_file ::
  "char list \<Rightarrow> string \<Rightarrow> config_info \<Rightarrow> sdcard \<Rightarrow> (rt_err \<times> config_info) option" where
  "init_from_file junk path config fs =
     do { temp \<leftarrow> mem_store 0 (ROOT_DIR @ path @ [NUL]) (take STR_SIZE (junk @ replicate STR_SIZE NUL));
          case sd_open_read fs (ROOT_DIR @ path) of
            None \<Rightarrow> Some (RT_ERROR, config)
          | Some content \<Rightarrow>
              do { config' \<leftarrow> read_loop content temp 0 0 config;
                   Some (RT_EOK, config') } }"

section \<open>Writing\<close>

fun write_fields :: "string \<Rightarrow> config_info \<Rightarrow> nat list \<Rightarrow> sdcard \<Rightarrow> sdcard option" where
  "write_fields p info [] fs = Some fs"
| "write_fields p info (k # ks) fs =
     do { s \<leftarrow> config_field k info;
          write_fields p info ks (sd_write p [LF] (sd_write p s fs)) }"

definition write_to_file :: "string \<Rightarrow> config_info \<Rightarrow> sdcard \<Rightarrow> (rt_err \<times> sdcard) option" where
  "write_to_file path info fs =
     do { temp \<leftarrow> mem_store 0 (ROOT_DIR @ path @ [NUL]) (replicate 50 NUL);
          case sd_open_trunc fs (ROOT_DIR @ path) of
            None \<Rightarrow> Some (RT_ERROR, fs)
          | Some fs1 \<Rightarrow>
              do { fs2 \<leftarrow> write_fields (ROOT_DIR @ path) info
                            [wifi_name_ix, wifi_password_ix, mqtt_username_ix, mqtt_passwd_ix,
                             mac_address_ix] fs1;
                   Some (RT_EOK, fs2) } }"

section \<open>Lines\<close>

text \<open>The complete lines of a text (each ended by a line feed) and the unfinished last one.\<close>

fun lines_of :: "string \<Rightarrow> string list \<times> string" where
  "lines_of [] = ([], [])"
| "lines_of (c # cs) =
     (case lines_of cs of (ls, r) \<Rightarrow>
        if c = LF then ([] # ls, r)
        else (case ls of [] \<Rightarrow> ([], c # r) | l # ls' \<Rightarrow> ((c # l) # ls', r)))"

definition unlines_lf :: "string list \<Rightarrow> string" where
  "unlines_lf ss = concat (map (\<lambda>s. s @ [LF]) ss)"

lemma unlines_lf_simps [simp]:
  "unlines_lf [] = []"
  "unlines_lf (s # ss) = s @ LF # unlines_lf ss"
  by (simp_all add: unlines_lf_def)

lemma lines_of_line: "LF \<notin> set l \<Longrightarrow> lines_of (l @ LF # cs) = (l # fst (lines_of cs), snd (lines_of cs))"
  by (induction l) (auto split: prod.splits)

lemma lines_of_partial: "LF \<notin> set r \<Longrightarrow> lines_of r = ([], r)"
  by (induction r) auto

lemma lines_of_unlines:
  "\<forall>s \<in> set ss. LF \<notin> set s \<Longrightarrow> LF \<notin> set r \<Longrightarrow> lines_of (unlines_lf ss @ r) = (ss, r)"
  by (induction ss) (simp_all add: lines_of_line lines_of_partial)

lemma lines_of_inv: "lines_of cs = (ls, r) \<Longrightarrow> cs = unlines_lf ls @ r \<and> LF \<notin> set r \<and> (\<forall>l \<in> set ls. LF \<notin> set l)"
  by (induction cs arbitrary: ls r) (auto split: prod.splits if_splits list.splits)

section \<open>The reader, line by line\<close>

definition store_line :: "nat \<Rightarrow> string \<Rightarrow> config_info \<Rightarrow> config_info option" where
  "store_line k l c =
     do { c1 \<leftarrow> mem_store (k * STR_SIZE) l c; mem_store (k * STR_SIZE + length l) [NUL] c1 }"

lemma store_at_Some:
  "do { c1 \<leftarrow> mem_store off l c; mem_store (off + length l) [NUL] c1 } = Some c' \<longleftrightarrow>
     off + length l < length c \<and> c' = take off c @ l @ NUL # drop (off + length l + 1) c"
  by (auto simp: mem_store_def bind_eq_Some_conv min_def)

lemma store_line_Some:
  "store_line k l c = Some c' \<longleftrightarrow>
     k * STR_SIZE + length l < length c \<and>
     c' = take (k * STR_SIZE) c @ l @ NUL # drop (k * STR_SIZE + length l + 1) c"
  unfolding store_line_def by (rule store_at_Some)

lemma drop_splice:
  "off + length l < length c \<Longrightarrow> off + length l + 1 \<le> n \<Longrightarrow>
   drop n (take off c @ l @ x # drop (off + length l + 1) c) = drop n c"
  by (simp add: drop_Cons')

lemma store_line_drop:
  "store_line k l c = Some c' \<Longrightarrow> k * STR_SIZE + length l + 1 \<le> n \<Longrightarrow> drop n c' = drop n c"
  by (simp only: store_line_Some drop_splice)

lemma store_line_None: "store_line k l c = None \<longleftrightarrow> length c \<le> k * STR_SIZE + length l"
  by (cases "store_line k l c") (simp_all add: store_line_Some store_line_def mem_store_def split: if_splits)

lemma read_loop_char:
  "ch \<noteq> LF \<Longrightarrow> index < length temp \<Longrightarrow>
   read_loop (ch # rest) temp index k c = read_loop rest (temp[index := ch]) (index + 1) k c"
  by (simp add: mem_store_def upd_conv_take_nth_drop)

lemma read_loop_full:
  "ch \<noteq> LF \<Longrightarrow> length temp \<le> index \<Longrightarrow> read_loop (ch # rest) temp index k c = None"
  by (simp add: mem_store_def)

lemma read_loop_chars:
  assumes "LF \<notin> set l" and "index + length l \<le> length temp"
  shows "read_loop (l @ rest) temp index k c =
    read_loop rest (take index temp @ l @ drop (index + length l) temp) (index + length l) k c"
  using assms
proof (induction l arbitrary: temp index)
  case (Cons a l)
  then have "read_loop ((a # l) @ rest) temp index k c =
      read_loop (l @ rest) (temp[index := a]) (index + 1) k c"
    using read_loop_char [of a index temp "l @ rest" k c] by auto
  also have "\<dots> = read_loop rest (take (index + 1) (temp[index := a]) @ l @ drop (index + 1 + length l) temp)
      (index + 1 + length l) k c"
    using Cons.IH [of "index + 1" "temp[index := a]"] Cons.prems by simp
  also have "take (index + 1) (temp[index := a]) = take index temp @ [a]"
    using Cons.prems by (simp add: take_Suc_conv_app_nth)
  finally show ?case by simp
qed simp

lemma read_loop_overlong:
  assumes "LF \<notin> set l" and "index \<le> length temp" and "length temp < index + length l"
  shows "read_loop (l @ rest) temp index k c = None"
  using assms
proof (induction l arbitrary: temp index)
  case (Cons a l)
  show ?case
  proof (cases "index = length temp")
    case True
    then show ?thesis
      using Cons.prems read_loop_full [of a temp index "l @ rest" k c] by auto
  next
    case False
    then show ?thesis
      using Cons.prems Cons.IH [of "index + 1" "temp[index := a]"]
        read_loop_char [of a index temp "l @ rest" k c] by auto
  qed
qed simp

lemma read_loop_line:
  assumes "LF \<notin> set l" and "length l \<le> length temp"
  shows "read_loop (l @ LF # rest) temp 0 k c =
    do { c' \<leftarrow> store_line k l c; read_loop rest (l @ drop (length l) temp) 0 (k + 1) c' }"
  using read_loop_chars [of l 0 temp "LF # rest" k c] assms
  by (simp add: store_line_def bind_assoc)

text \<open>The lines of a file that the reader stores without leaving an object.\<close>

fun lines_fit :: "nat \<Rightarrow> string list \<Rightarrow> bool" where
  "lines_fit k [] \<longleftrightarrow> True"
| "lines_fit k (l # ls) \<longleftrightarrow>
     length l \<le> STR_SIZE \<and> k * STR_SIZE + length l < CONFIG_SIZE \<and> lines_fit (k + 1) ls"

lemma lines_fit_iff:
  "lines_fit k ls \<longleftrightarrow> (\<forall>l \<in> set ls. length l \<le> STR_SIZE) \<and>
     (ls = [] \<or> k + length ls < 5 \<or> k + length ls = 5 \<and> length (last ls) < STR_SIZE)"
proof (induction ls arbitrary: k)
  case (Cons l ls)
  show ?case using Cons.IH [of "k + 1"] by (cases ls) auto
qed simp

lemma read_loop_unlines:
  assumes "\<forall>l \<in> set ls. LF \<notin> set l" and "LF \<notin> set r"
    and "length temp = STR_SIZE" and "length c = CONFIG_SIZE"
  shows "read_loop (unlines_lf ls @ r) temp 0 k c \<noteq> None \<longleftrightarrow> lines_fit k ls \<and> length r \<le> STR_SIZE"
  using assms
proof (induction ls arbitrary: temp k c)
  case Nil
  then show ?case
    using read_loop_chars [of r 0 temp "[]" k c] read_loop_overlong [of r 0 temp "[]" k c]
    by (cases "length r \<le> STR_SIZE") simp_all
next
  case (Cons l ls)
  show ?case
  proof (cases "length l \<le> STR_SIZE")
    case True
    show ?thesis
    proof (cases "store_line k l c")
      case None
      then have "read_loop (unlines_lf (l # ls) @ r) temp 0 k c = None"
        using True Cons.prems by (simp add: read_loop_line)
      moreover have "\<not> lines_fit k (l # ls)"
        using None Cons.prems by (simp add: store_line_None)
      ultimately show ?thesis by blast
    next
      case (Some c')
      then have "length c' = CONFIG_SIZE" and "k * STR_SIZE + length l < CONFIG_SIZE"
        using Cons.prems by (auto simp: store_line_Some)
      then show ?thesis
        using True Some Cons by (simp add: read_loop_line)
    qed
  next
    case False
    then show ?thesis
      using Cons.prems read_loop_overlong [of l 0 temp "LF # unlines_lf ls @ r" k c] by auto
  qed
qed

section \<open>What the reader stores\<close>

lemma c_string_take: "c_string off (take n m) = Some s \<Longrightarrow> c_string off m = Some s"
proof -
  assume a: "c_string off (take n m) = Some s"
  then obtain r where r: "drop off (take n m) = s @ NUL # r" and s: "NUL \<notin> set s"
    by (auto simp: cstr_simps)
  have "off < length (take n m)"
    using c_string_len [OF a] by simp
  then have "drop off m = drop off (take n m) @ drop n m"
    by (metis append_take_drop_id drop_append drop_drop length_take less_imp_le_nat diff_is_0_eq drop_0)
  then show ?thesis
    using r s by (auto intro: c_stringI)
qed

lemma store_line_field:
  assumes "store_line k l c = Some c'" and "NUL \<notin> set l" and "length l < STR_SIZE"
  shows "config_field k (take ((k + 1) * STR_SIZE) c') = Some l"
  using assms unfolding config_field_def
  by (intro c_stringI [where r = "take (STR_SIZE - length l - 1) (drop (k * STR_SIZE + length l + 1) c)"])
    (auto simp: store_line_Some take_Cons' min_def)

lemma read_loop_fields:
  assumes "\<forall>l \<in> set ls. LF \<notin> set l \<and> NUL \<notin> set l \<and> length l < STR_SIZE" and "k + length ls \<le> 5"
    and "LF \<notin> set r" and "length r \<le> STR_SIZE"
    and "length temp = STR_SIZE" and "length c = CONFIG_SIZE"
  shows "\<exists>c'. read_loop (unlines_lf ls @ r) temp 0 k c = Some c' \<and> length c' = CONFIG_SIZE \<and>
    (\<forall>j < length ls. config_field (k + j) c' = Some (ls ! j)) \<and>
    take (k * STR_SIZE) c' = take (k * STR_SIZE) c \<and>
    drop ((k + length ls) * STR_SIZE) c' = drop ((k + length ls) * STR_SIZE) c"
  using assms
proof (induction ls arbitrary: temp k c)
  case Nil
  then show ?case
    using read_loop_chars [of r 0 temp "[]" k c] by auto
next
  case (Cons l ls)
  then obtain c1 where c1: "store_line k l c = Some c1"
    by (cases "store_line k l c") (auto simp: store_line_None)
  have len1: "length c1 = CONFIG_SIZE"
    using c1 Cons.prems by (auto simp: store_line_Some)
  obtain c' where c': "read_loop (unlines_lf ls @ r) (l @ drop (length l) temp) 0 (k + 1) c1 = Some c'"
      and len: "length c' = CONFIG_SIZE"
      and flds: "\<forall>j < length ls. config_field (k + 1 + j) c' = Some (ls ! j)"
      and tk: "take ((k + 1) * STR_SIZE) c' = take ((k + 1) * STR_SIZE) c1"
      and dr: "drop ((k + 1 + length ls) * STR_SIZE) c' = drop ((k + 1 + length ls) * STR_SIZE) c1"
    using Cons.IH [of "k + 1" "l @ drop (length l) temp" c1] Cons.prems len1 by auto
  have f0: "config_field k c' = Some l"
    using store_line_field [OF c1] Cons.prems tk c_string_take
    unfolding config_field_def by (metis list.set_intros(1))
  have "config_field (k + j) c' = Some ((l # ls) ! j)" if "j < length (l # ls)" for j
    using that f0 flds by (cases j) auto
  moreover have "take (k * STR_SIZE) c' = take (k * STR_SIZE) c"
  proof -
    have "take (k * STR_SIZE) c' = take (k * STR_SIZE) (take ((k + 1) * STR_SIZE) c')"
      by simp
    also have "\<dots> = take (k * STR_SIZE) c1"
      unfolding tk by simp
    finally show ?thesis
      using c1 by (auto simp: store_line_Some)
  qed
  moreover have "drop ((k + length (l # ls)) * STR_SIZE) c1 = drop ((k + length (l # ls)) * STR_SIZE) c"
    using Cons.prems by (intro store_line_drop [OF c1]) auto
  ultimately show ?case
    using c' len dr Cons.prems c1 by (auto simp: read_loop_line)
qed

section \<open>What the writer leaves on the card\<close>

definition config_fields :: "config_info \<Rightarrow> string list option" where
  "config_fields c = those (map (\<lambda>k. config_field k c) [0, 1, 2, 3, 4])"

lemma config_fields_Some:
  "config_fields c = Some ss \<longleftrightarrow> length ss = 5 \<and> (\<forall>k < 5. config_field k c = Some (ss ! k))"
proof -
  have five: "(\<forall>k < 5. P k) \<longleftrightarrow> P 0 \<and> P 1 \<and> P 2 \<and> P 3 \<and> P (4::nat)" for P
    by (auto simp: All_less_Suc eval_nat_numeral)
  show ?thesis
    unfolding config_fields_def five
    by (auto simp: length_Suc_conv eval_nat_numeral split: option.splits)
qed

lemma config_fields_total:
  assumes "\<forall>k < 5. \<exists>s. config_field k c = Some s"
  shows "\<exists>ss. config_fields c = Some ss"
proof -
  obtain f where "\<forall>k < 5. config_field k c = Some (f k)" using assms by metis
  then have "config_fields c = Some (map f [0..<5])" by (simp add: config_fields_Some)
  then show ?thesis by blast
qed

lemma config_ok_fields:
  assumes "config_ok c"
  obtains ss where "config_fields c = Some ss" and "length ss = 5"
    and "\<forall>s \<in> set ss. LF \<notin> set s \<and> NUL \<notin> set s \<and> length s < STR_SIZE"
proof -
  obtain a b d e f where "config_field 0 c = Some a" "config_field 1 c = Some b" "config_field 2 c = Some d"
      "config_field 3 c = Some e" "config_field 4 c = Some f"
      "\<forall>s \<in> set [a, b, d, e, f]. LF \<notin> set s \<and> length s < STR_SIZE"
    using assms by (auto simp: config_ok_def split: option.splits)
  then show ?thesis
    by (intro that [of "[a, b, d, e, f]"])
      (auto simp: config_fields_def config_field_def dest: c_string_no_NUL)
qed

lemma sd_write_Nil [simp]: "files fs p = Some old \<Longrightarrow> sd_write p [] fs = fs"
  by (simp add: sd_write_def fun_upd_idem)

lemma take_min_length: "take (min (length bs) n) bs = take n bs"
  by (simp add: min_def)

lemma sd_write_files:
  "files fs p = Some old \<Longrightarrow> files (sd_write p bs fs) p = Some (old @ take (room fs) bs)"
  by (simp add: sd_write_def Let_def take_min_length)

lemma sd_write_append:
  assumes "files fs p = Some old"
  shows "sd_write p bs (sd_write p as fs) = sd_write p (as @ bs) fs"
proof -
  have "take (min (length as) (room fs)) as @ take (min (length bs) (room fs - min (length as) (room fs))) bs =
      take (min (length (as @ bs)) (room fs)) (as @ bs)"
    by (auto simp: min_def)
  then show ?thesis
    using assms by (auto simp: sd_write_def Let_def)
qed

lemma write_fields_eq:
  assumes "files fs p = Some old" and "length ss = length ks"
    and "\<forall>i < length ks. config_field (ks ! i) info = Some (ss ! i)"
  shows "write_fields p info ks fs = Some (sd_write p (unlines_lf ss) fs)"
  using assms
proof (induction ks arbitrary: ss fs old)
  case (Cons k ks)
  then obtain s ss' where ss: "ss = s # ss'" and len: "length ss' = length ks"
    by (cases ss) auto
  have k: "config_field k info = Some s" and
      ks: "\<forall>i < length ks. config_field (ks ! i) info = Some (ss' ! i)"
    using Cons.prems(3) unfolding ss by (auto simp: nth_Cons' All_less_Suc2)
  have *: "sd_write p [LF] (sd_write p s fs) = sd_write p (s @ [LF]) fs"
    by (rule sd_write_append [OF Cons.prems(1)])
  have "write_fields p info ks (sd_write p (s @ [LF]) fs) =
      Some (sd_write p (unlines_lf ss') (sd_write p (s @ [LF]) fs))"
    using Cons.IH [OF sd_write_files [OF Cons.prems(1)] len ks] .
  then show ?case
    using k * sd_write_append [OF Cons.prems(1), of "unlines_lf ss'" "s @ [LF]"] ss by simp
qed simp

text \<open>The bytes free for the file once the old one is truncated.\<close>

definition room_for :: "sdcard \<Rightarrow> string \<Rightarrow> nat" where
  "room_for fs p = room fs + (case files fs p of None \<Rightarrow> 0 | Some old \<Rightarrow> length old)"

lemma path_fits:
  "length path \<le> 41 \<Longrightarrow> \<exists>t. mem_store 0 (ROOT_DIR @ path @ [NUL]) (replicate 50 NUL) = Some t"
  by (simp add: mem_store_def ROOT_DIR_def)

lemma write_to_file_mounted:
  assumes "mounted fs" and "length path \<le> 41" and "config_fields info = Some ss"
  shows "\<exists>fs'. write_to_file path info fs = Some (RT_EOK, fs') \<and> mounted fs' \<and>
    files fs' = (files fs)(ROOT_DIR @ path \<mapsto> take (room_for fs (ROOT_DIR @ path)) (unlines_lf ss))"
proof -
  define fs1 where "fs1 = fs\<lparr>files := (files fs)(ROOT_DIR @ path \<mapsto> []), room := room_for fs (ROOT_DIR @ path)\<rparr>"
  have fs1: "sd_open_trunc fs (ROOT_DIR @ path) = Some fs1" and m: "mounted fs1"
      and f: "files fs1 = (files fs)(ROOT_DIR @ path \<mapsto> [])" and r: "room fs1 = room_for fs (ROOT_DIR @ path)"
    using assms(1) by (simp_all add: sd_open_trunc_def room_for_def fs1_def)
  have "write_fields (ROOT_DIR @ path) info [0, 1, 2, 3, 4] fs1 =
      Some (sd_write (ROOT_DIR @ path) (unlines_lf ss) fs1)"
  proof (rule write_fields_eq)
    show "files fs1 (ROOT_DIR @ path) = Some []" by (simp add: f)
    show "length ss = length [0, 1, 2, 3, 4 :: nat]"
      using assms(3) by (simp add: config_fields_Some)
    show "\<forall>i < length [0, 1, 2, 3, 4 :: nat]. config_field ([0, 1, 2, 3, 4] ! i) info = Some (ss ! i)"
      using assms(3) by (auto simp: config_fields_Some less_Suc_eq eval_nat_numeral)
  qed
  then have "write_to_file path info fs = Some (RT_EOK, sd_write (ROOT_DIR @ path) (unlines_lf ss) fs1)"
    using path_fits [OF assms(2)] fs1 by (auto simp: write_to_file_def)
  then show ?thesis
    using m f r by (simp add: sd_write_def Let_def take_min_length)
qed

section \<open>A structure built from its fields\<close>

definition config_of :: "string list \<Rightarrow> config_info" where
  "config_of ss = concat (map (\<lambda>s. s @ replicate (STR_SIZE - length s) NUL) ss)"

lemma config_of_length:
  "\<forall>s \<in> set ss. length s < STR_SIZE \<Longrightarrow> length (config_of ss) = length ss * STR_SIZE"
  by (induction ss) (auto simp: config_of_def)

lemma config_of_field:
  assumes "\<forall>s \<in> set ss. length s < STR_SIZE \<and> NUL \<notin> set s" and "k < length ss"
  shows "config_field k (config_of ss) = Some (ss ! k)"
  using assms
proof (induction ss arbitrary: k)
  case (Cons s ss)
  show ?case
  proof (cases k)
    case 0
    have "replicate (STR_SIZE - length s) NUL = NUL # replicate (STR_SIZE - length s - 1) NUL"
      using Cons.prems by (metis Suc_diff_Suc diff_Suc_eq_diff_pred diff_commute list.set_intros(1) minus_nat.diff_0 replicate_Suc)
    then show ?thesis
      unfolding config_field_def 0 using Cons.prems
      by (intro c_stringI [where r = "replicate (STR_SIZE - length s - 1) NUL @ config_of ss"])
        (auto simp: config_of_def)
  next
    case (Suc k')
    have "drop (k * STR_SIZE) (config_of (s # ss)) = drop (k' * STR_SIZE) (config_of ss)"
      using Cons.prems Suc by (simp add: config_of_def)
    then have "config_field k (config_of (s # ss)) = config_field k' (config_of ss)"
      by (simp add: config_field_def c_string_def)
    then show ?thesis
      using Cons Suc by simp
  qed
qed simp

lemma config_of_ok:
  assumes "\<forall>s \<in> set ss. length s < STR_SIZE \<and> NUL \<notin> set s \<and> LF \<notin> set s" and "length ss = 5"
  shows "config_ok (config_of ss)" and "config_fields (config_of ss) = Some ss"
  using assms by (auto simp: config_ok_def config_of_length config_of_field config_fields_Some)

section \<open>The configuration store as an interface\<close>

text \<open>
  What the clients of the file (the console, the WOL thread, the display, the boot sequence)
  rely on: after a successful save, a load into any structure gives the saved fields.
\<close>

locale config_store =
  fixes save :: "config_info \<Rightarrow> sdcard \<Rightarrow> (rt_err \<times> sdcard) option"
    and restore :: "config_info \<Rightarrow> sdcard \<Rightarrow> (rt_err \<times> config_info) option"
    and can_save :: "config_info \<Rightarrow> sdcard \<Rightarrow> bool"
  assumes save_restore: "can_save info fs \<Longrightarrow>
      \<exists>fs'. save info fs = Some (RT_EOK, fs') \<and>
        (\<forall>c. length c = CONFIG_SIZE \<longrightarrow>
           (\<exists>c'. restore c fs' = Some (RT_EOK, c') \<and> length c' = CONFIG_SIZE \<and>
                 config_fields c' = config_fields info))"
begin

lemma saved_field:
  assumes "can_save info fs" and "save info fs = Some (r, fs')"
    and "length c = CONFIG_SIZE" and "config_fields info = Some ss" and "k < 5"
  shows "r = RT_EOK \<and> (\<exists>c'. restore c fs' = Some (RT_EOK, c') \<and> length c' = CONFIG_SIZE \<and>
    config_field k c' = Some (ss ! k))"
proof -
  obtain c' where "r = RT_EOK" "restore c fs' = Some (RT_EOK, c')" "length c' = CONFIG_SIZE"
      "config_fields c' = Some ss"
    using save_restore [OF assms(1)] assms(2,3,4) by fastforce
  then show ?thesis
    using assms(5) by (auto simp: config_fields_Some)
qed

end

definition config_fits :: "string \<Rightarrow> config_info \<Rightarrow> sdcard \<Rightarrow> bool" where
  "config_fits path info fs \<longleftrightarrow> config_ok info \<and> mounted fs \<and> length path \<le> 41 \<and>
     (case config_fields info of None \<Rightarrow> False
      | Some ss \<Rightarrow> length (unlines_lf ss) \<le> room_for fs (ROOT_DIR @ path))"

lemma reader_buffer:
  assumes "length path \<le> 91"
  shows "\<exists>t. mem_store 0 (ROOT_DIR @ path @ [NUL]) (take STR_SIZE (junk @ replicate STR_SIZE NUL)) = Some t \<and>
    length t = STR_SIZE"
  using assms by (auto simp: mem_store_def ROOT_DIR_def min_def)

lemma init_from_file_lines:
  assumes "mounted fs" and "length path \<le> 91" and "length c = CONFIG_SIZE"
    and "files fs (ROOT_DIR @ path) = Some (unlines_lf ls @ r)" and "length ls \<le> 5"
    and "\<forall>l \<in> set ls. LF \<notin> set l \<and> NUL \<notin> set l \<and> length l < STR_SIZE"
    and "LF \<notin> set r" and "length r \<le> STR_SIZE"
  shows "\<exists>c'. init_from_file junk path c fs = Some (RT_EOK, c') \<and> length c' = CONFIG_SIZE \<and>
    (\<forall>k < length ls. config_field k c' = Some (ls ! k)) \<and>
    drop (length ls * STR_SIZE) c' = drop (length ls * STR_SIZE) c"
proof -
  obtain t where "mem_store 0 (ROOT_DIR @ path @ [NUL]) (take STR_SIZE (junk @ replicate STR_SIZE NUL)) = Some t"
      and t: "length t = STR_SIZE"
    using reader_buffer [OF assms(2)] by blast
  moreover have "\<exists>c'. read_loop (unlines_lf ls @ r) t 0 0 c = Some c' \<and> length c' = CONFIG_SIZE \<and>
      (\<forall>k < length ls. config_field (0 + k) c' = Some (ls ! k)) \<and>
      take (0 * STR_SIZE) c' = take (0 * STR_SIZE) c \<and>
      drop ((0 + length ls) * STR_SIZE) c' = drop ((0 + length ls) * STR_SIZE) c"
    using assms t by (intro read_loop_fields) auto
  ultimately show ?thesis
    using assms(1,4) by (auto simp: init_from_file_def sd_open_read_def)
qed

lemma write_then_read:
  assumes "config_fits path info fs"
  shows "\<exists>fs'. write_to_file path info fs = Some (RT_EOK, fs') \<and>
    (\<forall>c. length c = CONFIG_SIZE \<longrightarrow>
       (\<exists>c'. init_from_file junk path c fs' = Some (RT_EOK, c') \<and> length c' = CONFIG_SIZE \<and>
             config_fields c' = config_fields info))"
proof -
  obtain ss where ss: "config_fields info = Some ss" "length ss = 5"
      "\<forall>s \<in> set ss. LF \<notin> set s \<and> NUL \<notin> set s \<and> length s < STR_SIZE"
    using assms config_ok_fields by (auto simp: config_fits_def)
  obtain fs' where w: "write_to_file path info fs = Some (RT_EOK, fs')" and m: "mounted fs'"
      and f: "files fs' (ROOT_DIR @ path) = Some (unlines_lf ss @ [])"
    using write_to_file_mounted [of fs path info ss] assms ss by (auto simp: config_fits_def)
  have "\<exists>c'. init_from_file junk path c fs' = Some (RT_EOK, c') \<and> length c' = CONFIG_SIZE \<and>
      config_fields c' = config_fields info" if c: "length c = CONFIG_SIZE" for c
  proof -
    obtain c' where "init_from_file junk path c fs' = Some (RT_EOK, c')" "length c' = CONFIG_SIZE"
        "\<forall>k < 5. config_field k c' = Some (ss ! k)"
      using init_from_file_lines [OF m _ c f, of junk] assms ss by (auto simp: config_fits_def)
    moreover from this have "config_fields c' = Some ss"
      using ss(2) by (simp add: config_fields_Some)
    ultimately show ?thesis using ss(1) by auto
  qed
  then show ?thesis using w by blast
qed

interpretation config_file: config_store "write_to_file path" "init_from_file junk path" "config_fits path"
  for path junk
  by unfold_locales (rule write_then_read)

section \<open>Properties\<close>

text \<open>Property C9. Round trip of the configuration file: a structure whose fields each end inside
  their own array and hold no line feed, written to a mounted card with room for it, is read
  back field by field, whatever the structure read into held before.\<close>

theorem config_roundtrip:
  assumes "config_fits path info fs" and "length c = CONFIG_SIZE"
  shows "\<exists>fs' c'. write_to_file path info fs = Some (RT_EOK, fs') \<and>
    init_from_file junk path c fs' = Some (RT_EOK, c') \<and>
    (\<forall>k < 5. config_field k c' = config_field k info)"
proof -
  obtain fs' c' where "write_to_file path info fs = Some (RT_EOK, fs')"
      "init_from_file junk path c fs' = Some (RT_EOK, c')" "config_fields c' = config_fields info"
    using config_file.save_restore [OF assms(1)] assms(2) by blast
  moreover obtain ss where "config_fields info = Some ss"
    using assms(1) by (auto simp: config_fits_def split: option.splits)
  ultimately show ?thesis
    by (auto simp: config_fields_Some)
qed

definition example_fields :: "string list" where
  "example_fields = [''home'', ''secret'', ''user'', ''token'', ''88:ae:dd:15:60:95'']"

definition example_card :: sdcard where
  "example_card = \<lparr>mounted = True, files = Map.empty, room = 1000\<rparr>"

lemma example_fits: "config_fits ''config.txt'' (config_of example_fields) example_card"
proof -
  have "config_ok (config_of example_fields)" and "config_fields (config_of example_fields) = Some example_fields"
    by (rule config_of_ok; simp add: example_fields_def)+
  then show ?thesis
    by (simp add: config_fits_def room_for_def example_card_def example_fields_def)
qed

theorem config_roundtrip_witness:
  "\<exists>fs' c'. write_to_file ''config.txt'' (config_of example_fields) example_card = Some (RT_EOK, fs') \<and>
    init_from_file [] ''config.txt'' (replicate CONFIG_SIZE NUL) fs' = Some (RT_EOK, c') \<and>
    config_field 4 c' = Some ''88:ae:dd:15:60:95''"
proof -
  have "config_field 4 (config_of example_fields) = Some ''88:ae:dd:15:60:95''"
    by (subst config_of_field) (auto simp: example_fields_def)
  moreover have "(4::nat) < 5" by simp
  ultimately show ?thesis
    using config_roundtrip [OF example_fits, of "replicate CONFIG_SIZE NUL" "[]"] by fastforce
qed

text \<open>Property C10. Which files the reader can be given: \<open>init_from_file\<close> stays inside its stack
  buffer and the caller's structure exactly when every complete line and the unfinished last
  one have at most \<open>STR_SIZE\<close> bytes and there are at most five complete lines, the fifth of
  them shorter than \<open>STR_SIZE\<close>.  Any other file makes it write out of bounds: the code has
  no check of its own.\<close>

theorem init_from_file_memory_safe_iff:
  assumes "mounted fs" and "length path \<le> 91" and "length c = CONFIG_SIZE"
    and "files fs (ROOT_DIR @ path) = Some content" and "lines_of content = (ls, r)"
  shows "(\<exists>result. init_from_file junk path c fs = Some result) \<longleftrightarrow>
    (\<forall>l \<in> set ls. length l \<le> STR_SIZE) \<and> length r \<le> STR_SIZE \<and>
    (length ls < 5 \<or> length ls = 5 \<and> length (last ls) < STR_SIZE)"
proof -
  obtain t where t: "mem_store 0 (ROOT_DIR @ path @ [NUL]) (take STR_SIZE (junk @ replicate STR_SIZE NUL)) = Some t"
      "length t = STR_SIZE"
    using reader_buffer [OF assms(2)] by blast
  have c: "content = unlines_lf ls @ r" "LF \<notin> set r" "\<forall>l \<in> set ls. LF \<notin> set l"
    using lines_of_inv [OF assms(5)] by auto
  have "(\<exists>result. init_from_file junk path c fs = Some result) \<longleftrightarrow> read_loop content t 0 0 c \<noteq> None"
    using t assms(1,4)
    by (cases "read_loop content t 0 0 c") (simp_all add: init_from_file_def sd_open_read_def)
  also have "\<dots> \<longleftrightarrow> lines_fit 0 ls \<and> length r \<le> STR_SIZE"
    unfolding c(1) using c t assms(3) by (intro read_loop_unlines) auto
  finally show ?thesis
    by (auto simp: lines_fit_iff)
qed

theorem init_from_file_memory_safe_iff_witness:
  "\<forall>result. init_from_file [] ''config.txt'' (replicate CONFIG_SIZE NUL)
     (example_card\<lparr>files := [''/sdcard/config.txt'' \<mapsto> replicate 101 (CHR ''a'')]\<rparr>) \<noteq> Some result"
proof -
  have l: "lines_of (replicate 101 (CHR ''a'')) = ([], replicate 101 (CHR ''a''))"
    by (rule lines_of_partial) simp
  show ?thesis
    using init_from_file_memory_safe_iff [OF _ _ _ _ l, where path = "''config.txt''" and
        c = "replicate CONFIG_SIZE NUL" and junk = "[]" and
        fs = "example_card\<lparr>files := [''/sdcard/config.txt'' \<mapsto> replicate 101 (CHR ''a'')]\<rparr>"]
    by (simp add: example_card_def ROOT_DIR_def)
qed

text \<open>A file with fewer complete lines changes only as many fields: the others, and
  with them a last line without its line feed, are left as they were, and the reader still
  reports success.\<close>

theorem init_from_file_partial:
  assumes "mounted fs" and "length path \<le> 91" and "length c = CONFIG_SIZE"
    and "files fs (ROOT_DIR @ path) = Some (unlines_lf ls @ r)" and "length ls \<le> 5"
    and "\<forall>l \<in> set ls. LF \<notin> set l \<and> NUL \<notin> set l \<and> length l < STR_SIZE"
    and "LF \<notin> set r" and "length r \<le> STR_SIZE"
  shows "\<exists>c'. init_from_file junk path c fs = Some (RT_EOK, c') \<and>
    (\<forall>k < 5. config_field k c' = (if k < length ls then Some (ls ! k) else config_field k c))"
proof -
  obtain c' where c': "init_from_file junk path c fs = Some (RT_EOK, c')"
      and f: "\<forall>k < length ls. config_field k c' = Some (ls ! k)"
      and d: "drop (length ls * STR_SIZE) c' = drop (length ls * STR_SIZE) c"
    using init_from_file_lines [OF assms] by blast
  have "config_field k c' = config_field k c" if "length ls \<le> k" for k
  proof -
    have "k * STR_SIZE = (k - length ls) * STR_SIZE + length ls * STR_SIZE"
      using that by (simp add: algebra_simps)
    then have "drop (k * STR_SIZE) c' = drop (k * STR_SIZE) c"
      using d by (metis drop_drop)
    then show ?thesis by (simp add: config_field_def c_string_def)
  qed
  then show ?thesis using c' f by auto
qed

theorem init_from_file_partial_witness:
  "\<exists>c'. init_from_file [] ''config.txt'' (config_of example_fields)
       (example_card\<lparr>files := [''/sdcard/config.txt'' \<mapsto> unlines_lf [''lab''] @ ''pass'']\<rparr>) = Some (RT_EOK, c') \<and>
    config_field 0 c' = Some ''lab'' \<and> config_field 1 c' = Some ''secret''"
proof -
  have "config_field 1 (config_of example_fields) = Some ''secret''" "length (config_of example_fields) = CONFIG_SIZE"
    by (subst config_of_field config_of_length; auto simp: example_fields_def)+
  then show ?thesis
    using init_from_file_partial [where junk = "[]" and path = "''config.txt''" and c = "config_of example_fields"
        and ls = "[''lab'']" and r = "''pass''" and
        fs = "example_card\<lparr>files := [''/sdcard/config.txt'' \<mapsto> unlines_lf [''lab''] @ ''pass'']\<rparr>"]
    by (force simp: example_card_def ROOT_DIR_def)
qed

text \<open>On a mounted card the writer always reports success: what is in the file
  afterwards is the five lines cut at the free space, every other file is as before.  A full
  card is not reported, since no result of \<open>write\<close> is looked at.\<close>

theorem write_to_file_content:
  assumes "mounted fs" and "length path \<le> 41" and "config_fields info = Some ss"
  shows "\<exists>fs'. write_to_file path info fs = Some (RT_EOK, fs') \<and>
    files fs' = (files fs)(ROOT_DIR @ path \<mapsto> take (room_for fs (ROOT_DIR @ path)) (unlines_lf ss))"
  using write_to_file_mounted [OF assms] by blast

theorem write_to_file_content_witness:
  "\<exists>fs'. write_to_file ''config.txt'' (config_of example_fields) (example_card\<lparr>room := 7\<rparr>) = Some (RT_EOK, fs') \<and>
    files fs' ''/sdcard/config.txt'' = Some ''home\<newline>se''"
proof -
  have "config_fields (config_of example_fields) = Some example_fields"
    by (rule config_of_ok) (simp_all add: example_fields_def)
  then show ?thesis
    using write_to_file_content [of "example_card\<lparr>room := 7\<rparr>" "''config.txt''" "config_of example_fields" example_fields]
    by (force simp: example_card_def room_for_def ROOT_DIR_def example_fields_def)
qed

end
