(* ===== verification/Wol.thy ===== *)
theory Wol
  imports CLib FileConfig
begin

text \<open>
  \<open>applications/wol.c\<close>: the thread that sends the wake-on-LAN packet.  One iteration of its
  loop is \<open>wol_iteration\<close>; the card, the default network device and whether a socket can be
  made are its environment, the UDP datagrams handed to \<open>sendto\<close> its output.
\<close>

section \<open>Environment and output\<close>

record netdev =
  ip_addr :: u32
  netmask :: u32

record udp_packet =
  dst_addr :: u32
  dst_port :: nat
  payload :: "u8 list"

section \<open>The steps of the thread\<close>

text \<open>Dots become string ends in the 100 bytes of \<open>config.mac_address\<close>.\<close>

definition dots_to_NUL :: "config_info \<Rightarrow> config_info" where
  "dots_to_NUL config =
     take 400 config @ map (\<lambda>c. if c = CHR ''.'' then NUL else c) (drop 400 config)"

text \<open>\<open>mac[i] = (unsigned char)strtol(&config.mac_address[3 * i], RT_NULL, 16)\<close>\<close>

fun parse_octets :: "nat list \<Rightarrow> char list \<Rightarrow> u8 list option" where
  "parse_octets [] mac_address = Some []"
| "parse_octets (off # offs) mac_address =
     do { v \<leftarrow> strtol 16 (drop off mac_address);
          mac \<leftarrow> parse_octets offs mac_address;
          Some (word_of_int v # mac) }"

definition parse_mac :: "char list \<Rightarrow> u8 list option" where
  "parse_mac mac_address = parse_octets [0, 3, 6, 9, 12, 15] mac_address"

text \<open>The two fill loops over \<open>unsigned char data[102]\<close>.\<close>

definition build_packet :: "u8 list \<Rightarrow> u8 list \<Rightarrow> u8 list option" where
  "build_packet mac data =
     do { d1 \<leftarrow> for_each [0..<6] (\<lambda>i. array_set i 0xFF) data;
          for_each [0..<16] (\<lambda>i. for_each [0..<6] (\<lambda>j. array_set (6 + i * 6 + j) (mac ! j))) d1 }"

definition broadcast_addr :: "netdev \<Rightarrow> u32" where
  "broadcast_addr nd = (let ip = and (ip_addr nd) (netmask nd) in or (not (netmask nd)) ip)"

text \<open>
  One pass after \<open>rt_sem_take\<close> returned.  \<open>data\<close> and \<open>junk\<close> are the uninitialised stack
  buffers; \<open>nd = None\<close> is a null \<open>netdev_default\<close>, which the code dereferences.  The thread's
  \<open>config\<close> lives on from pass to pass.
\<close>

definition wol_iteration ::
  "char list \<Rightarrow> u8 list \<Rightarrow> bool \<Rightarrow> netdev option \<Rightarrow> sdcard \<Rightarrow> config_info \<Rightarrow>
     (config_info \<times> udp_packet list) option" where
  "wol_iteration junk data sock_ok nd fs config =
     do { config1 \<leftarrow> mem_store (mac_address_ix * STR_SIZE) (replicate STR_SIZE NUL) config;
          (ret, config2) \<leftarrow> init_from_file junk ''config.txt'' config1 fs;
          if ret \<noteq> RT_EOK then Some (config2, [])
          else do {
            shown \<leftarrow> config_field mac_address_ix config2;
            let config3 = dots_to_NUL config2;
            mac \<leftarrow> parse_mac (drop 400 config3);
            packet \<leftarrow> build_packet mac data;
            dev \<leftarrow> nd;
            Some (config3,
                  if sock_ok
                  then [\<lparr>dst_addr = broadcast_addr dev, dst_port = 9, payload = packet\<rparr>]
                  else []) } }"

section \<open>The magic packet\<close>

definition magic_packet :: "u8 list \<Rightarrow> u8 list" where
  "magic_packet mac = replicate 6 0xFF @ concat (replicate 16 mac)"

lemma array_set_prefix:
  "length xs = n \<Longrightarrow> array_set (n + i) x (xs @ ys) = map_option ((@) xs) (array_set i x ys)"
  by (auto simp: array_set_def list_update_append)

lemma fill_copies:
  assumes "length mac = 6" and "6 + m * 6 \<le> length d"
  shows "for_each [0..<m] (\<lambda>i. for_each [0..<6] (\<lambda>j. array_set (6 + i * 6 + j) (mac ! j))) d =
    Some (take 6 d @ concat (replicate m mac) @ drop (6 + m * 6) d)"
  using assms(2)
proof (induction m)
  case (Suc m)
  define d' where "d' = take 6 d @ concat (replicate m mac) @ drop (6 + m * 6) d"
  have cl: "length (concat (replicate m mac)) = m * 6"
    using assms(1) by (simp add: length_concat sum_list_replicate)
  have len: "length d' = length d"
    using Suc.prems cl by (simp add: d'_def)
  have "for_each [0..<6] (\<lambda>j. array_set (6 + m * 6 + j) (mac ! j)) d' =
      Some (take (6 + m * 6) d' @ map ((!) mac) [0..<6] @ drop (6 + m * 6 + 6) d')"
    using Suc.prems len by (intro for_each_fill) simp
  moreover have "map ((!) mac) [0..<6] = mac"
    using assms(1) map_nth [of mac] by simp
  moreover have "take (6 + m * 6) d' = take 6 d @ concat (replicate m mac)"
    using cl Suc.prems by (simp add: d'_def)
  moreover have "drop (6 + m * 6 + 6) d' = drop (6 + Suc m * 6) d"
    using cl Suc.prems by (simp add: d'_def add.commute)
  moreover have "concat (replicate m mac) @ mac = concat (replicate (Suc m) mac)"
    by (metis append.right_neutral concat.simps concat_append replicate_Suc replicate_append_same)
  ultimately have "for_each [0..<6] (\<lambda>j. array_set (6 + m * 6 + j) (mac ! j)) d' =
      Some (take 6 d @ concat (replicate (Suc m) mac) @ drop (6 + Suc m * 6) d)"
    by (metis append_assoc)
  moreover have "for_each [0..<m] (\<lambda>i. for_each [0..<6] (\<lambda>j. array_set (6 + i * 6 + j) (mac ! j))) d = Some d'"
    using Suc by (simp add: d'_def)
  ultimately show ?case
    by (simp add: for_each_append)
qed simp

lemma build_packet_eq:
  assumes "length mac = 6" and "length data = 102"
  shows "build_packet mac data = Some (magic_packet mac)"
proof -
  have "for_each [0..<6] (\<lambda>i. array_set i 0xFF) data = Some (replicate 6 0xFF @ drop 6 data)"
    using for_each_fill [of 0 6 data "\<lambda>_. 0xFF"] assms(2)
    by (simp add: map_replicate_const)
  moreover have "for_each [0..<16] (\<lambda>i. for_each [0..<6] (\<lambda>j. array_set (6 + i * 6 + j) (mac ! j)))
      (replicate 6 0xFF @ drop 6 data) = Some (magic_packet mac)"
    using fill_copies [OF assms(1), of 16 "replicate 6 0xFF @ drop 6 data"] assms(2)
    by (simp add: magic_packet_def)
  ultimately show ?thesis by (simp add: build_packet_def)
qed

section \<open>Addresses as text\<close>

definition is_hex :: "char \<Rightarrow> bool" where
  "is_hex c \<longleftrightarrow> digit_val 16 c \<noteq> None"

definition hex_val :: "char \<Rightarrow> nat" where
  "hex_val c = (case digit_val 16 c of None \<Rightarrow> 0 | Some d \<Rightarrow> d)"

text \<open>Six pairs of hexadecimal digits, each pair but the last followed by a byte that is none.\<close>

definition is_mac_text :: "string \<Rightarrow> bool" where
  "is_mac_text s \<longleftrightarrow> length s = 17 \<and>
     list_all (\<lambda>off. is_hex (s ! off) \<and> is_hex (s ! (off + 1))) [0, 3, 6, 9, 12, 15] \<and>
     list_all (\<lambda>off. \<not> is_hex (s ! off)) [2, 5, 8, 11, 14]"

definition mac_octet :: "string \<Rightarrow> nat \<Rightarrow> u8" where
  "mac_octet s off = word_of_nat (hex_val (s ! off) * 16 + hex_val (s ! (off + 1)))"

definition mac_of_text :: "string \<Rightarrow> u8 list" where
  "mac_of_text s = map (mac_octet s) [0, 3, 6, 9, 12, 15]"

lemma mac_of_text_length [simp]: "length (mac_of_text s) = 6"
  by (simp add: mac_of_text_def)

lemma is_hex_hex_val: "is_hex c \<Longrightarrow> digit_val 16 c = Some (hex_val c)"
  by (auto simp: is_hex_def hex_val_def)

lemma not_hex_NUL [simp]: "\<not> is_hex NUL"
  by (simp add: is_hex_def)

lemma dot_hex:
  "digit_val 16 (if c = CHR ''.'' then NUL else c) = digit_val 16 c"
  by (simp add: digit_val_def char_code_def)

lemma parse_octets_pairs:
  assumes "\<forall>off \<in> set offs. off + 2 < length m \<and> is_hex (m ! off) \<and> is_hex (m ! (off + 1)) \<and>
    \<not> is_hex (m ! (off + 2))"
  shows "parse_octets offs m = Some (map (mac_octet m) offs)"
  using assms
proof (induction offs)
  case (Cons off offs)
  then have h: "off + 2 < length m" "is_hex (m ! off)" "is_hex (m ! (off + 1))" "\<not> is_hex (m ! (off + 2))"
    by auto
  have "drop off m = m ! off # m ! (off + 1) # m ! (off + 2) # drop (off + 3) m"
    using h(1) Cons_nth_drop_Suc [of off m] Cons_nth_drop_Suc [of "off + 1" m] Cons_nth_drop_Suc [of "off + 2" m]
    by (simp add: numeral_eq_Suc)
  then have "strtol 16 (drop off m) = Some (int (hex_val (m ! off) * 16 + hex_val (m ! (off + 1))))"
    using strtol_two_digits [OF is_hex_hex_val [OF h(2)] is_hex_hex_val [OF h(3)]] h(4)
    by (simp add: is_hex_def)
  then show ?case
    using Cons by (simp add: mac_octet_def)
qed simp

lemma parse_mac_text:
  assumes "is_mac_text s" and "drop 400 c = s @ NUL # r"
  shows "parse_mac (drop 400 (dots_to_NUL c)) = Some (mac_of_text s)"
proof -
  have "400 < length c"
  proof (rule ccontr)
    assume "\<not> 400 < length c"
    then have "drop 400 c = []" by simp
    with assms(2) show False by simp
  qed
  then have d: "drop 400 (dots_to_NUL c) = map (\<lambda>c. if c = CHR ''.'' then NUL else c) (s @ NUL # r)"
    unfolding dots_to_NUL_def assms(2) [symmetric] by simp
  define m where "m = map (\<lambda>c. if c = CHR ''.'' then NUL else c) (s @ NUL # r)"
  have l: "length s = 17" using assms(1) by (simp add: is_mac_text_def)
  have lm: "length m = 18 + length r" using l by (simp add: m_def)
  have dv: "digit_val 16 (m ! i) = digit_val 16 ((s @ [NUL]) ! i)" if "i < 18" for i
    using that l by (auto simp: m_def nth_append dot_hex less_Suc_eq)
  have hv: "is_hex (m ! i) = is_hex ((s @ [NUL]) ! i)" "hex_val (m ! i) = hex_val ((s @ [NUL]) ! i)"
    if "i < 18" for i
    using dv [OF that] by (simp_all add: is_hex_def hex_val_def)
  have "parse_octets [0, 3, 6, 9, 12, 15] m = Some (map (mac_octet m) [0, 3, 6, 9, 12, 15])"
    using assms(1) l
    by (intro parse_octets_pairs) (simp add: hv lm is_mac_text_def nth_append numeral_2_eq_2)
  moreover have "map (mac_octet m) [0, 3, 6, 9, 12, 15] = mac_of_text s"
    using l by (simp add: mac_of_text_def mac_octet_def hv nth_append)
  ultimately show ?thesis
    unfolding parse_mac_def d m_def by simp
qed

text \<open>Every address can be written: the usual text with any separator that is no digit.\<close>

definition hex_char :: "nat \<Rightarrow> char" where
  "hex_char n = ''0123456789abcdef'' ! n"

fun mac_text :: "char \<Rightarrow> u8 list \<Rightarrow> string" where
  "mac_text sep [] = []"
| "mac_text sep [b] = [hex_char (unat b div 16), hex_char (unat b mod 16)]"
| "mac_text sep (b # bs) = hex_char (unat b div 16) # hex_char (unat b mod 16) # sep # mac_text sep bs"

lemma hex_char_val: "n < 16 \<Longrightarrow> digit_val 16 (hex_char n) = Some n"
  by (auto simp: hex_char_def digit_val_def char_code_def less_Suc_eq numeral_eq_Suc)

lemma hex_byte: "word_of_nat (hex_val (hex_char (unat (b :: u8) div 16)) * 16 + hex_val (hex_char (unat b mod 16))) = b"
proof -
  have "unat b < 256"
    by (rule unat_u8)
  then have "unat b div 16 < 16" "unat b mod 16 < 16"
    by auto
  then have "hex_val (hex_char (unat b div 16)) * 16 + hex_val (hex_char (unat b mod 16)) = unat b"
    by (simp add: hex_val_def hex_char_val)
  then show ?thesis by simp
qed

lemma hex_char_is_hex:
  "is_hex (hex_char (unat (b :: u8) div 16))" "is_hex (hex_char (unat b mod 16))"
proof -
  have "unat b < 256"
    by (rule unat_u8)
  then have "unat b div 16 < 16" "unat b mod 16 < 16"
    by auto
  then show "is_hex (hex_char (unat b div 16))" "is_hex (hex_char (unat b mod 16))"
    by (simp_all add: is_hex_def hex_char_val)
qed

lemma mac_text_ok:
  assumes "length bs = 6" and "\<not> is_hex sep"
  shows "is_mac_text (mac_text sep bs)" and "mac_of_text (mac_text sep bs) = bs"
proof -
  obtain a b c d e f where bs: "bs = [a, b, c, d, e, f]"
    using assms(1) by (auto simp: length_Suc_conv eval_nat_numeral)
  show "is_mac_text (mac_text sep bs)"
    unfolding bs using assms(2) by (simp add: is_mac_text_def hex_char_is_hex)
  show "mac_of_text (mac_text sep bs) = bs"
    unfolding bs by (simp add: mac_of_text_def mac_octet_def hex_byte [simplified])
qed

section \<open>One pass of the thread\<close>

lemma wol_pass:
  assumes "init_from_file junk ''config.txt'' c1 fs = Some (RT_EOK, c2)"
    and "mem_store (mac_address_ix * STR_SIZE) (replicate STR_SIZE NUL) config = Some c1"
    and "config_field mac_address_ix c2 = Some s" and "is_mac_text s" and "length data = 102"
  shows "wol_iteration junk data sock_ok (Some nd) fs config =
    Some (dots_to_NUL c2,
      if sock_ok then [\<lparr>dst_addr = broadcast_addr nd, dst_port = 9, payload = magic_packet (mac_of_text s)\<rparr>] else [])"
proof -
  obtain r where "drop 400 c2 = s @ NUL # r"
    using assms(3) by (auto simp: config_field_def cstr_simps)
  from parse_mac_text [OF assms(4) this] show ?thesis
    using assms by (simp add: wol_iteration_def Let_def build_packet_eq)
qed

lemma mac_cleared:
  "length config = CONFIG_SIZE \<Longrightarrow>
   \<exists>c1. mem_store (mac_address_ix * STR_SIZE) (replicate STR_SIZE NUL) config = Some c1 \<and> length c1 = CONFIG_SIZE"
  by (simp add: mem_store_def)

section \<open>Properties\<close>

text \<open>Property C2. What is sent is the configured address: after a configuration with a well-written
  MAC address has been saved, one pass of the thread sends exactly one UDP datagram to port 9
  of the subnet's broadcast address, and its payload is the magic packet of that address,
  whatever the thread's structure and stack held before.\<close>

theorem wol_sends_saved_mac:
  assumes "config_fits ''config.txt'' info fs0" and "write_to_file ''config.txt'' info fs0 = Some (res, fs)"
    and "config_field mac_address_ix info = Some s" and "is_mac_text s"
    and "length config = CONFIG_SIZE" and "length data = 102"
  shows "\<exists>config'. wol_iteration junk data True (Some nd) fs config =
    Some (config', [\<lparr>dst_addr = broadcast_addr nd, dst_port = 9, payload = magic_packet (mac_of_text s)\<rparr>])"
proof -
  obtain ss where ss: "config_fields info = Some ss"
    using assms(1) by (auto simp: config_fits_def split: option.splits)
  obtain c1 where c1: "mem_store (mac_address_ix * STR_SIZE) (replicate STR_SIZE NUL) config = Some c1"
      "length c1 = CONFIG_SIZE"
    using mac_cleared [OF assms(5)] by blast
  obtain c2 where "init_from_file junk ''config.txt'' c1 fs = Some (RT_EOK, c2)"
      and "config_field mac_address_ix c2 = Some (ss ! 4)"
    using config_file.saved_field [OF assms(1,2) c1(2) ss, of 4] by auto
  moreover have "ss ! 4 = s"
    using ss assms(3) by (auto simp: config_fields_Some)
  ultimately show ?thesis
    using wol_pass [OF _ c1(1)] assms(4,6) by fastforce
qed

theorem wol_sends_saved_mac_witness:
  "\<exists>res fs config'. write_to_file ''config.txt'' (config_of example_fields) example_card = Some (res, fs) \<and>
    wol_iteration [] (replicate 102 0) True (Some \<lparr>ip_addr = 0x1E01A8C0, netmask = 0x00FFFFFF\<rparr>) fs
      (replicate CONFIG_SIZE NUL) =
    Some (config', [\<lparr>dst_addr = 0xFF01A8C0, dst_port = 9,
      payload = magic_packet [0x88, 0xAE, 0xDD, 0x15, 0x60, 0x95]\<rparr>])"
proof -
  obtain fs where w: "write_to_file ''config.txt'' (config_of example_fields) example_card = Some (RT_EOK, fs)"
    using config_file.save_restore [OF example_fits] by blast
  have m: "config_field 4 (config_of example_fields) = Some ''88:ae:dd:15:60:95''"
    by (subst config_of_field) (auto simp: example_fields_def)
  have t: "is_mac_text ''88:ae:dd:15:60:95''"
    "mac_of_text ''88:ae:dd:15:60:95'' = [0x88, 0xAE, 0xDD, 0x15, 0x60, 0x95]"
    by (simp_all add: is_mac_text_def is_hex_def digit_val_def char_code_def mac_of_text_def mac_octet_def hex_val_def)
  have b: "broadcast_addr \<lparr>ip_addr = 0x1E01A8C0, netmask = 0x00FFFFFF\<rparr> = 0xFF01A8C0"
    by (simp add: broadcast_addr_def)
  show ?thesis
    using w wol_sends_saved_mac [OF example_fits w m t(1), of "replicate CONFIG_SIZE NUL" "replicate 102 0" "[]"
        "\<lparr>ip_addr = 0x1E01A8C0, netmask = 0x00FFFFFF\<rparr>"]
    unfolding t(2) b by fastforce
qed

text \<open>The text of an address is read back exactly: for any six octets written as two
  lower-case hexadecimal digits each, with any separator that is not itself a hexadecimal digit
  (a dot included, which the thread turns into a string end), the parser yields those octets,
  whatever bytes follow in the array.\<close>

theorem mac_text_roundtrip:
  assumes "length bs = 6" and "\<not> is_hex sep" and "drop 400 c = mac_text sep bs @ NUL # r"
  shows "parse_mac (drop 400 (dots_to_NUL c)) = Some bs"
  using parse_mac_text [OF mac_text_ok(1) [OF assms(1,2)] assms(3)] mac_text_ok(2) [OF assms(1,2)] by simp

theorem mac_text_roundtrip_witness:
  "parse_mac (drop 400 (dots_to_NUL (replicate 400 NUL @ ''0a.1b.2c.3d.4e.ff'' @ replicate 83 NUL))) =
    Some [0x0A, 0x1B, 0x2C, 0x3D, 0x4E, 0xFF]"
proof (rule mac_text_roundtrip)
  show "\<not> is_hex (CHR ''.'')"
    by (simp add: is_hex_def digit_val_def char_code_def)
  have "replicate 83 NUL = NUL # replicate 82 NUL"
    by (simp flip: replicate_Suc)
  then show "drop 400 (replicate 400 NUL @ ''0a.1b.2c.3d.4e.ff'' @ replicate 83 NUL) =
      mac_text (CHR ''.'') [0x0A, 0x1B, 0x2C, 0x3D, 0x4E, 0xFF] @ NUL # replicate 82 NUL"
    by (simp add: hex_char_def)
qed simp

text \<open>Layout of the datagram: the fill loops never leave the 102-byte array, and what
  they leave in it, whatever it held, is six \<open>0xFF\<close> bytes followed by sixteen copies of the
  address.\<close>

theorem build_packet_layout:
  assumes "length mac = 6" and "length data = 102"
  shows "\<exists>p. build_packet mac data = Some p \<and> length p = 102 \<and>
    (\<forall>i < 6. p ! i = 0xFF) \<and> (\<forall>i < 16. \<forall>j < 6. p ! (6 + i * 6 + j) = mac ! j)"
proof -
  have len: "length (concat (replicate n mac)) = n * 6" for n
    using assms(1) by (simp add: length_concat sum_list_replicate)
  have nth: "concat (replicate n mac) ! (i * 6 + j) = mac ! j" if "i < n" "j < 6" for n i j
    using that
  proof (induction n arbitrary: i)
    case (Suc n)
    then show ?case
      using assms(1) by (cases i) (auto simp: nth_append)
  qed simp
  have "magic_packet mac ! (6 + i * 6 + j) = mac ! j" if "i < 16" "j < 6" for i j
    using nth [OF that] by (simp add: magic_packet_def nth_append add.assoc)
  moreover have "magic_packet mac ! i = 0xFF" if "i < 6" for i
    using that by (simp add: magic_packet_def nth_append)
  moreover have "length (magic_packet mac) = 102"
    using len [of 16] by (simp add: magic_packet_def)
  ultimately show ?thesis
    using build_packet_eq [OF assms] by blast
qed

theorem build_packet_layout_witness:
  "\<exists>p. build_packet [1, 2, 3, 4, 5, 6] (replicate 102 0) = Some p \<and> length p = 102 \<and> p ! 101 = 6"
proof -
  obtain p where p: "build_packet [1, 2, 3, 4, 5, 6] (replicate 102 0) = Some p" "length p = 102"
      "\<forall>i < 16. \<forall>j < 6. p ! (6 + i * 6 + j) = [1, 2, 3, 4, 5, 6] ! j"
    using build_packet_layout [of "[1, 2, 3, 4, 5, 6]" "replicate 102 0"] by auto
  from p(3) [rule_format, of 15 5] have "p ! 101 = 6" by simp
  with p show ?thesis by blast
qed

text \<open>The destination is the broadcast address of the interface's subnet: bit by bit the
  interface address where the mask is set and one elsewhere, so two interfaces of one subnet
  send to the same address, and it lies in that subnet.\<close>

theorem broadcast_addr_correct:
  "(\<forall>i. bit (broadcast_addr nd) i = (if bit (netmask nd) i then bit (ip_addr nd) i else i < 32)) \<and>
   and (broadcast_addr nd) (netmask nd) = and (ip_addr nd) (netmask nd)"
proof -
  have b: "bit (broadcast_addr nd) i = (if bit (netmask nd) i then bit (ip_addr nd) i else i < 32)" for i
    by (auto simp: broadcast_addr_def Let_def bit_or_iff bit_and_iff bit_not_iff dest: bit_imp_le_length)
  have "and (broadcast_addr nd) (netmask nd) = and (ip_addr nd) (netmask nd)"
    by (rule bit_eqI) (auto simp: bit_and_iff b)
  with b show ?thesis by blast
qed

end
