(* ===== verification/RingBuffer.thy ===== *)
theory RingBuffer
  imports Prelude
begin

text \<open>
  \<open>rt-thread/components/drivers/src/ringbuffer.c\<close>: the mirrored ring buffer behind the console.
  The two indices are 15-bit and the mirrors 1-bit bit fields, so an assignment to an index is
  taken modulo \<open>2 ^ 15\<close>; the invariant shows that the code never needs it.  A buffer abstracts
  to the list of its unread elements, oldest first.
\<close>

section \<open>State\<close>

record 'a ringbuffer =
  buffer_ptr :: "'a list"
  read_mirror :: bool
  read_index :: nat
  write_mirror :: bool
  write_index :: nat
  buffer_size :: nat

datatype ringbuffer_state = RB_EMPTY | RB_FULL | RB_HALFFULL

definition u15 :: "nat \<Rightarrow> nat" where
  "u15 n = n mod 2 ^ 15"

section \<open>Operations\<close>

definition rb_status :: "'a ringbuffer \<Rightarrow> ringbuffer_state" where
  "rb_status rb =
     (if read_index rb = write_index rb
      then (if read_mirror rb = write_mirror rb then RB_EMPTY else RB_FULL)
      else RB_HALFFULL)"

text \<open>\<open>RT_ALIGN_DOWN(size, RT_ALIGN_SIZE)\<close> with \<open>RT_ALIGN_SIZE = 4\<close>; the assertion wants a
  positive \<open>rt_int16_t\<close>.\<close>

definition rb_init :: "'a list \<Rightarrow> nat \<Rightarrow> 'a ringbuffer option" where
  "rb_init pool sz =
     (if 0 < sz \<and> sz < 2 ^ 15
      then Some \<lparr>buffer_ptr = pool, read_mirror = False, read_index = 0,
                 write_mirror = False, write_index = 0, buffer_size = sz - sz mod 4\<rparr>
      else None)"

definition rb_data_len :: "'a ringbuffer \<Rightarrow> nat" where
  "rb_data_len rb =
     (case rb_status rb of
        RB_EMPTY \<Rightarrow> 0
      | RB_FULL \<Rightarrow> buffer_size rb
      | RB_HALFFULL \<Rightarrow>
          if write_index rb > read_index rb then write_index rb - read_index rb
          else buffer_size rb - (read_index rb - write_index rb))"

definition rb_space_len :: "'a ringbuffer \<Rightarrow> nat" where
  "rb_space_len rb = buffer_size rb - rb_data_len rb"

text \<open>The copy into the pool: in one piece when it ends before the end of the buffer, else split
  there.  Both block writers and their mirror flip share it.\<close>

definition rb_fill :: "'a list \<Rightarrow> 'a ringbuffer \<Rightarrow> 'a ringbuffer option" where
  "rb_fill xs rb =
     (let n = length xs; k = buffer_size rb - write_index rb
      in if k > n
         then do { b \<leftarrow> mem_store (write_index rb) xs (buffer_ptr rb);
                   Some (rb\<lparr>buffer_ptr := b, write_index := u15 (write_index rb + n)\<rparr>) }
         else do { b1 \<leftarrow> mem_store (write_index rb) (take k xs) (buffer_ptr rb);
                   b2 \<leftarrow> mem_store 0 (drop k xs) b1;
                   Some (rb\<lparr>buffer_ptr := b2, write_mirror := (\<not> write_mirror rb),
                            write_index := u15 (n - k)\<rparr>) })"

definition rb_put :: "'a ringbuffer \<Rightarrow> 'a list \<Rightarrow> ('a ringbuffer \<times> nat) option" where
  "rb_put rb ptr =
     (let sz = rb_space_len rb
      in if sz = 0 then Some (rb, 0)
         else let n = (if sz < length ptr then sz else length ptr)
              in do { rb' \<leftarrow> rb_fill (take n ptr) rb; Some (rb', n) })"

definition rb_put_force :: "'a ringbuffer \<Rightarrow> 'a list \<Rightarrow> ('a ringbuffer \<times> nat) option" where
  "rb_put_force rb ptr =
     (let space_length = rb_space_len rb;
          xs = (if length ptr > buffer_size rb then drop (length ptr - buffer_size rb) ptr else ptr);
          n = length xs
      in do { rb' \<leftarrow> rb_fill xs rb;
              Some (if buffer_size rb - write_index rb > n
                    then (if n > space_length then rb'\<lparr>read_index := write_index rb'\<rparr> else rb')
                    else (if n > space_length
                          then rb'\<lparr>read_mirror := (\<not> read_mirror rb'), read_index := write_index rb'\<rparr>
                          else rb'),
                    n) })"

definition rb_get :: "'a ringbuffer \<Rightarrow> nat \<Rightarrow> ('a ringbuffer \<times> 'a list) option" where
  "rb_get rb len =
     (let sz = rb_data_len rb
      in if sz = 0 then Some (rb, [])
         else let n = (if sz < len then sz else len);
                  k = buffer_size rb - read_index rb
              in if k > n
                 then do { xs \<leftarrow> mem_load (read_index rb) n (buffer_ptr rb);
                           Some (rb\<lparr>read_index := u15 (read_index rb + n)\<rparr>, xs) }
                 else do { xs \<leftarrow> mem_load (read_index rb) k (buffer_ptr rb);
                           ys \<leftarrow> mem_load 0 (n - k) (buffer_ptr rb);
                           Some (rb\<lparr>read_mirror := (\<not> read_mirror rb), read_index := u15 (n - k)\<rparr>,
                                 xs @ ys) })"

definition rb_putchar :: "'a ringbuffer \<Rightarrow> 'a \<Rightarrow> ('a ringbuffer \<times> nat) option" where
  "rb_putchar rb ch =
     (if rb_space_len rb = 0 then Some (rb, 0)
      else do { b \<leftarrow> mem_store (write_index rb) [ch] (buffer_ptr rb);
                Some (if write_index rb = buffer_size rb - 1
                      then rb\<lparr>buffer_ptr := b, write_mirror := (\<not> write_mirror rb), write_index := 0\<rparr>
                      else rb\<lparr>buffer_ptr := b, write_index := u15 (write_index rb + 1)\<rparr>, 1) })"

definition rb_putchar_force :: "'a ringbuffer \<Rightarrow> 'a \<Rightarrow> ('a ringbuffer \<times> nat) option" where
  "rb_putchar_force rb ch =
     (let old_state = rb_status rb
      in do { b \<leftarrow> mem_store (write_index rb) [ch] (buffer_ptr rb);
              Some (if write_index rb = buffer_size rb - 1
                    then (let rb' = rb\<lparr>buffer_ptr := b, write_mirror := (\<not> write_mirror rb), write_index := 0\<rparr>
                          in if old_state = RB_FULL
                             then rb'\<lparr>read_mirror := (\<not> read_mirror rb'), read_index := write_index rb'\<rparr>
                             else rb')
                    else (let rb' = rb\<lparr>buffer_ptr := b, write_index := u15 (write_index rb + 1)\<rparr>
                          in if old_state = RB_FULL then rb'\<lparr>read_index := write_index rb'\<rparr> else rb'), 1) })"

text \<open>\<open>rt_ringbuffer_getchar\<close> leaves \<open>*ch\<close> as it was on an empty buffer: \<open>None\<close> in the second
  component.\<close>

definition rb_getchar :: "'a ringbuffer \<Rightarrow> ('a ringbuffer \<times> 'a option) option" where
  "rb_getchar rb =
     (if rb_data_len rb = 0 then Some (rb, None)
      else do { xs \<leftarrow> mem_load (read_index rb) 1 (buffer_ptr rb);
                Some (if read_index rb = buffer_size rb - 1
                      then rb\<lparr>read_mirror := (\<not> read_mirror rb), read_index := 0\<rparr>
                      else rb\<lparr>read_index := u15 (read_index rb + 1)\<rparr>, Some (hd xs)) })"

definition rb_reset :: "'a ringbuffer \<Rightarrow> 'a ringbuffer" where
  "rb_reset rb = rb\<lparr>read_mirror := False, read_index := 0, write_mirror := False, write_index := 0\<rparr>"

text \<open>\<open>rt_ringbuffer_create\<close>: \<open>rb_ok\<close> and \<open>pool\<close> are the results of the two allocations, the
  second of the aligned size.\<close>

definition rb_create :: "nat \<Rightarrow> bool \<Rightarrow> 'a list option \<Rightarrow> 'a ringbuffer option option" where
  "rb_create sz rb_ok pool =
     (if 0 < sz
      then if \<not> rb_ok then Some None
           else (case pool of None \<Rightarrow> Some None
                 | Some p \<Rightarrow> map_option Some (rb_init p (sz - sz mod 4)))
      else None)"

section \<open>Invariant and abstraction\<close>

definition rb_inv :: "'a ringbuffer \<Rightarrow> bool" where
  "rb_inv rb \<longleftrightarrow> length (buffer_ptr rb) = buffer_size rb \<and> 0 < buffer_size rb \<and> buffer_size rb < 2 ^ 15 \<and>
     read_index rb < buffer_size rb \<and> write_index rb < buffer_size rb \<and>
     (if read_mirror rb = write_mirror rb then read_index rb \<le> write_index rb
      else write_index rb \<le> read_index rb)"

text \<open>The arithmetic of the two indices and their mirrors, on its own: the number of elements
  between them, and how it changes when one of them advances.\<close>

definition idx_ok :: "nat \<Rightarrow> bool \<Rightarrow> nat \<Rightarrow> nat \<Rightarrow> bool" where
  "idx_ok S same r w \<longleftrightarrow> r < S \<and> w < S \<and> (if same then r \<le> w else w \<le> r)"

definition idx_len :: "nat \<Rightarrow> bool \<Rightarrow> nat \<Rightarrow> nat \<Rightarrow> nat" where
  "idx_len S same r w = (if same then w - r else S - (r - w))"

lemma idx_len_le: "idx_ok S same r w \<Longrightarrow> idx_len S same r w \<le> S"
  by (auto simp: idx_ok_def idx_len_def)

lemma advance_write:
  assumes "idx_ok S same r w" and "idx_len S same r w + n \<le> S"
  shows "idx_ok S (same \<noteq> (S - w \<le> n)) r ((w + n) mod S)"
    and "idx_len S (same \<noteq> (S - w \<le> n)) r ((w + n) mod S) = idx_len S same r w + n"
proof -
  have "n \<le> S" using assms idx_len_le [OF assms(1)] by simp
  then have e: "(w + n) mod S = (if S - w \<le> n then w + n - S else w + n)"
    using assms(1) by (auto simp: idx_ok_def mod_if)
  show "idx_ok S (same \<noteq> (S - w \<le> n)) r ((w + n) mod S)"
    unfolding e using assms by (auto simp: idx_ok_def idx_len_def split: if_splits)
  show "idx_len S (same \<noteq> (S - w \<le> n)) r ((w + n) mod S) = idx_len S same r w + n"
    unfolding e using assms by (auto simp: idx_ok_def idx_len_def split: if_splits)
qed

lemma advance_read:
  assumes "idx_ok S same r w" and "n \<le> idx_len S same r w"
  shows "idx_ok S (same \<noteq> (S - r \<le> n)) ((r + n) mod S) w"
    and "idx_len S (same \<noteq> (S - r \<le> n)) ((r + n) mod S) w = idx_len S same r w - n"
proof -
  have "n \<le> S" using assms idx_len_le [OF assms(1)] by simp
  then have e: "(r + n) mod S = (if S - r \<le> n then r + n - S else r + n)"
    using assms(1) by (auto simp: idx_ok_def mod_if)
  show "idx_ok S (same \<noteq> (S - r \<le> n)) ((r + n) mod S) w"
    unfolding e using assms by (auto simp: idx_ok_def idx_len_def split: if_splits)
  show "idx_len S (same \<noteq> (S - r \<le> n)) ((r + n) mod S) w = idx_len S same r w - n"
    unfolding e using assms by (auto simp: idx_ok_def idx_len_def split: if_splits)
qed

lemma rb_inv_idx:
  "rb_inv rb \<longleftrightarrow> length (buffer_ptr rb) = buffer_size rb \<and> buffer_size rb < 2 ^ 15 \<and>
     idx_ok (buffer_size rb) (read_mirror rb = write_mirror rb) (read_index rb) (write_index rb)"
  by (auto simp: rb_inv_def idx_ok_def)

text \<open>\<open>ring_slice r n b\<close>: \<open>n\<close> elements of the pool \<open>b\<close> from index \<open>r\<close>, wrapping at its end.\<close>

definition ring_slice :: "nat \<Rightarrow> nat \<Rightarrow> 'a list \<Rightarrow> 'a list" where
  "ring_slice r n b = map (\<lambda>i. b ! ((r + i) mod length b)) [0..<n]"

definition rb_abs :: "'a ringbuffer \<Rightarrow> 'a list" where
  "rb_abs rb = ring_slice (read_index rb) (rb_data_len rb) (buffer_ptr rb)"

lemma length_rb_abs [simp]: "length (rb_abs rb) = rb_data_len rb"
  by (simp add: rb_abs_def ring_slice_def)

lemma rb_data_len_eq:
  "rb_inv rb \<Longrightarrow> rb_data_len rb =
     (if read_mirror rb = write_mirror rb then write_index rb - read_index rb
      else buffer_size rb - (read_index rb - write_index rb))"
  by (auto simp: rb_data_len_def rb_status_def rb_inv_def split: if_splits)

lemma rb_data_len_idx:
  "rb_inv rb \<Longrightarrow> rb_data_len rb =
     idx_len (buffer_size rb) (read_mirror rb = write_mirror rb) (read_index rb) (write_index rb)"
  by (simp add: rb_data_len_eq idx_len_def)

lemma rb_data_len_le: "rb_inv rb \<Longrightarrow> rb_data_len rb \<le> buffer_size rb"
  by (auto simp: rb_data_len_eq rb_inv_def)

text \<open>Where the next element goes: the index behind the last unread one.\<close>

lemma write_index_eq:
  assumes "rb_inv rb"
  shows "write_index rb = (read_index rb + rb_data_len rb) mod buffer_size rb"
proof (cases "read_mirror rb = write_mirror rb")
  case True
  then show ?thesis using assms by (simp add: rb_data_len_eq rb_inv_def)
next
  case False
  then have "read_index rb + rb_data_len rb = buffer_size rb + write_index rb"
    using assms by (simp add: rb_data_len_eq rb_inv_def)
  then show ?thesis using assms by (simp add: rb_inv_def)
qed

lemma rb_full_iff: "rb_inv rb \<Longrightarrow> rb_status rb = RB_FULL \<longleftrightarrow> rb_data_len rb = buffer_size rb"
  by (auto simp: rb_data_len_eq rb_status_def rb_inv_def split: if_splits)

lemma rb_empty_iff: "rb_inv rb \<Longrightarrow> rb_status rb = RB_EMPTY \<longleftrightarrow> rb_data_len rb = 0"
  by (auto simp: rb_data_len_eq rb_status_def rb_inv_def split: if_splits)

section \<open>Slices of the pool\<close>

lemma mod_wrap: "a < S \<Longrightarrow> i < S \<Longrightarrow> (a + i) mod S = (if a + i < S then a + i else a + i - S)" for a :: nat
  by (auto simp: mod_if)

lemma length_ring_slice [simp]: "length (ring_slice r n b) = n"
  by (simp add: ring_slice_def)

lemma nth_ring_slice [simp]: "i < n \<Longrightarrow> ring_slice r n b ! i = b ! ((r + i) mod length b)"
  by (simp add: ring_slice_def)

lemma mod_shift: "m \<le> i \<Longrightarrow> ((r + m) mod L + (i - m)) mod L = (r + i) mod L" for r :: nat
  by (simp only: mod_add_left_eq add.assoc le_add_diff_inverse)

lemma ring_slice_append:
  "ring_slice r (m + n) b = ring_slice r m b @ ring_slice ((r + m) mod length b) n b"
proof (rule nth_equalityI)
  fix i assume "i < length (ring_slice r (m + n) b)"
  then show "ring_slice r (m + n) b ! i =
      (ring_slice r m b @ ring_slice ((r + m) mod length b) n b) ! i"
    using mod_shift [of m i r "length b"]
    by (cases "i < m") (simp_all add: nth_append del: Nat.add_diff_assoc)
qed simp

lemma take_ring_slice: "n \<le> m \<Longrightarrow> take n (ring_slice r m b) = ring_slice r n b"
  by (simp add: ring_slice_def take_map)

lemma drop_ring_slice: "n \<le> m \<Longrightarrow> drop n (ring_slice r m b) = ring_slice ((r + n) mod length b) (m - n) b"
  using ring_slice_append [of r n "m - n" b] by simp

lemma ring_slice_straight: "r + n \<le> length b \<Longrightarrow> ring_slice r n b = take n (drop r b)"
  by (rule nth_equalityI) auto

lemma ring_slice_split:
  assumes "r < length b" and "length b - r \<le> n" and "n \<le> length b"
  shows "ring_slice r n b = drop r b @ take (n - (length b - r)) b"
proof -
  have "n = (length b - r) + (n - (length b - r))"
    using assms by simp
  then have "ring_slice r n b = ring_slice r (length b - r) b @ ring_slice 0 (n - (length b - r)) b"
    using ring_slice_append [of r "length b - r" "n - (length b - r)" b] assms by simp
  then show ?thesis
    using assms by (simp add: ring_slice_straight)
qed

section \<open>The writers\<close>

lemma rb_fill_pool:
  assumes "length b = S" and "w < S" and "length xs \<le> S"
  shows "\<exists>b'. length b' = S \<and>
      (if S - w > length xs then mem_store w xs b = Some b'
       else (\<exists>b1. mem_store w (take (S - w) xs) b = Some b1 \<and> mem_store 0 (drop (S - w) xs) b1 = Some b')) \<and>
      (\<forall>i < S. b' ! ((w + i) mod S) = (if i < length xs then xs ! i else b ! ((w + i) mod S)))"
proof (cases "S - w > length xs")
  case True
  then have "\<exists>b'. mem_store w xs b = Some b'"
    using assms by (simp add: mem_store_def)
  then obtain b' where b': "mem_store w xs b = Some b'" ..
  have "b' ! ((w + i) mod S) = (if i < length xs then xs ! i else b ! ((w + i) mod S))" if "i < S" for i
    using nth_mem_store [OF b', of "(w + i) mod S"] assms that True by (auto simp: mod_wrap)
  then show ?thesis
    using True b' assms mem_store_length [OF b'] by auto
next
  case False
  then have "\<exists>b1. mem_store w (take (S - w) xs) b = Some b1"
    using assms by (simp add: mem_store_def)
  then obtain b1 where b1: "mem_store w (take (S - w) xs) b = Some b1" ..
  have "\<exists>b'. mem_store 0 (drop (S - w) xs) b1 = Some b'"
    using assms mem_store_length [OF b1] by (simp add: mem_store_def)
  then obtain b' where b': "mem_store 0 (drop (S - w) xs) b1 = Some b'" ..
  have len: "length b1 = S" "length b' = S"
    using b1 b' assms mem_store_length by metis+
  have "b' ! ((w + i) mod S) = (if i < length xs then xs ! i else b ! ((w + i) mod S))" if "i < S" for i
    using nth_mem_store [OF b', of "(w + i) mod S"] nth_mem_store [OF b1, of "(w + i) mod S"]
      assms that False len by (auto simp: mod_wrap)
  then show ?thesis
    using False b1 b' len by auto
qed

lemma rb_fill_eq:
  assumes "rb_inv rb" and "length xs \<le> buffer_size rb"
  shows "\<exists>b'. rb_fill xs rb = Some (rb\<lparr>buffer_ptr := b',
        write_mirror := (write_mirror rb \<noteq> (buffer_size rb - write_index rb \<le> length xs)),
        write_index := (write_index rb + length xs) mod buffer_size rb\<rparr>) \<and> length b' = buffer_size rb \<and>
      (\<forall>i < buffer_size rb. b' ! ((write_index rb + i) mod buffer_size rb) =
        (if i < length xs then xs ! i else buffer_ptr rb ! ((write_index rb + i) mod buffer_size rb)))"
proof -
  let ?S = "buffer_size rb" and ?w = "write_index rb"
  have inv: "length (buffer_ptr rb) = ?S" "?w < ?S" "?S < 2 ^ 15"
    using assms(1) by (simp_all add: rb_inv_def)
  obtain b' where b': "length b' = ?S"
      "if ?S - ?w > length xs then mem_store ?w xs (buffer_ptr rb) = Some b'
       else (\<exists>b1. mem_store ?w (take (?S - ?w) xs) (buffer_ptr rb) = Some b1 \<and> mem_store 0 (drop (?S - ?w) xs) b1 = Some b')"
      "\<forall>i < ?S. b' ! ((?w + i) mod ?S) = (if i < length xs then xs ! i else buffer_ptr rb ! ((?w + i) mod ?S))"
    using rb_fill_pool [OF inv(1,2) assms(2)] by blast
  show ?thesis
  proof (cases "?S - ?w > length xs")
    case True
    then have "u15 (?w + length xs) = (?w + length xs) mod ?S"
      using inv assms(2) by (simp add: u15_def)
    then have "rb_fill xs rb = Some (rb\<lparr>buffer_ptr := b', write_mirror := write_mirror rb,
        write_index := (?w + length xs) mod ?S\<rparr>)"
      using True b'(2) by (simp add: rb_fill_def)
    then show ?thesis
      using True b'(1,3) by (intro exI [of _ b']) simp
  next
    case False
    then have "u15 (length xs - (?S - ?w)) = (?w + length xs) mod ?S"
      using inv assms(2) by (auto simp: u15_def mod_if)
    then have "rb_fill xs rb = Some (rb\<lparr>buffer_ptr := b', write_mirror := (\<not> write_mirror rb),
        write_index := (?w + length xs) mod ?S\<rparr>)"
      using False b'(2) by (auto simp: rb_fill_def Let_def)
    then show ?thesis
      using False b'(1,3) by (intro exI [of _ b']) simp
  qed
qed

text \<open>A block that fits behind the unread elements is appended to them.\<close>

lemma rb_fill_append:
  assumes inv: "rb_inv rb" and fit: "length xs \<le> rb_space_len rb"
  shows "\<exists>rb'. rb_fill xs rb = Some rb' \<and> rb_inv rb' \<and> rb_abs rb' = rb_abs rb @ xs \<and>
    buffer_size rb' = buffer_size rb \<and> read_index rb' = read_index rb \<and> read_mirror rb' = read_mirror rb"
proof -
  let ?S = "buffer_size rb" and ?w = "write_index rb" and ?r = "read_index rb" and ?m = "rb_data_len rb"
  have m: "?m \<le> ?S" and n: "?m + length xs \<le> ?S"
    using rb_data_len_le [OF inv] fit by (simp_all add: rb_space_len_def)
  have basic: "length (buffer_ptr rb) = ?S" "0 < ?S" "?w < ?S" "?r < ?S"
    using inv by (simp_all add: rb_inv_def)
  have w: "?w = (?r + ?m) mod ?S"
    by (rule write_index_eq [OF inv])
  obtain b' where b': "rb_fill xs rb = Some (rb\<lparr>buffer_ptr := b',
        write_mirror := (write_mirror rb \<noteq> (?S - ?w \<le> length xs)), write_index := (?w + length xs) mod ?S\<rparr>)"
      "length b' = ?S"
      "\<forall>i < ?S. b' ! ((?w + i) mod ?S) = (if i < length xs then xs ! i else buffer_ptr rb ! ((?w + i) mod ?S))"
    using rb_fill_eq [OF inv, of xs] n by auto
  define rb' where "rb' = rb\<lparr>buffer_ptr := b',
        write_mirror := (write_mirror rb \<noteq> (?S - ?w \<le> length xs)), write_index := (?w + length xs) mod ?S\<rparr>"
  let ?same = "read_mirror rb = write_mirror rb"
  have idx: "idx_ok ?S ?same ?r ?w" "idx_len ?S ?same ?r ?w + length xs \<le> ?S"
    using inv n by (simp_all add: rb_inv_idx rb_data_len_idx)
  have same: "(read_mirror rb' = write_mirror rb') = (?same \<noteq> (?S - ?w \<le> length xs))"
    by (auto simp: rb'_def)
  have inv': "rb_inv rb'"
    unfolding rb_inv_idx same using advance_write(1) [OF idx] inv b'(2)
    by (simp add: rb'_def rb_inv_idx)
  have len': "rb_data_len rb' = ?m + length xs"
    unfolding rb_data_len_idx [OF inv'] rb_data_len_idx [OF inv] same
    using advance_write(2) [OF idx] by (simp add: rb'_def)
  have old: "ring_slice ?r ?m b' = ring_slice ?r ?m (buffer_ptr rb)"
  proof (rule nth_equalityI)
    fix i assume "i < length (ring_slice ?r ?m b')"
    then have i: "i < ?m" by simp
    have "?r + ?m + (?S - ?m + i) = ?r + i + ?S"
      using m by simp
    then have "(?r + i) mod ?S = (?w + (?S - ?m + i)) mod ?S"
      unfolding w by (simp only: mod_add_left_eq mod_add_self2)
    moreover have "?S - ?m + i < ?S" "\<not> ?S - ?m + i < length xs"
      using i m n by auto
    ultimately have "b' ! ((?r + i) mod ?S) = buffer_ptr rb ! ((?r + i) mod ?S)"
      using b'(3) by simp
    then show "ring_slice ?r ?m b' ! i = ring_slice ?r ?m (buffer_ptr rb) ! i"
      using i b'(2) basic by simp
  qed simp
  have new: "ring_slice ?w (length xs) b' = xs"
    using b'(2,3) n by (intro nth_equalityI) auto
  have "rb_abs rb' = ring_slice ?r (?m + length xs) b'"
    unfolding rb_abs_def len' by (simp add: rb'_def)
  also have "\<dots> = rb_abs rb @ xs"
    using old new b'(2) w by (simp add: ring_slice_append rb_abs_def)
  finally show ?thesis
    using b'(1) inv' by (auto simp: rb'_def)
qed

text \<open>Overwriting: after a block that does not fit, a full turn from the new write index holds
  the last \<open>buffer_size\<close> of the old unread elements followed by the block.\<close>

lemma overwrite_slice:
  assumes inv: "rb_inv rb" and n: "length xs \<le> buffer_size rb" and over: "buffer_size rb \<le> rb_data_len rb + length xs"
    and len: "length b' = buffer_size rb"
    and b': "\<forall>i < buffer_size rb. b' ! ((write_index rb + i) mod buffer_size rb) =
        (if i < length xs then xs ! i else buffer_ptr rb ! ((write_index rb + i) mod buffer_size rb))"
  shows "ring_slice ((write_index rb + length xs) mod buffer_size rb) (buffer_size rb) b' =
    drop (rb_data_len rb + length xs - buffer_size rb) (rb_abs rb @ xs)"
proof (rule nth_equalityI)
  let ?S = "buffer_size rb" and ?w = "write_index rb" and ?r = "read_index rb" and ?m = "rb_data_len rb"
  let ?n = "length xs"
  have m: "?m \<le> ?S" using inv by (rule rb_data_len_le)
  have lb: "length (buffer_ptr rb) = ?S" using inv by (simp add: rb_inv_def)
  show "length (ring_slice ((?w + ?n) mod ?S) ?S b') = length (drop (?m + ?n - ?S) (rb_abs rb @ xs))"
    using over m n by simp
  fix i assume "i < length (ring_slice ((?w + ?n) mod ?S) ?S b')"
  then have i: "i < ?S" by simp
  have lhs: "ring_slice ((?w + ?n) mod ?S) ?S b' ! i = b' ! ((?w + (?n + i)) mod ?S)"
    using i len by (simp add: mod_add_left_eq add.assoc)
  define d where "d = ?m + ?n - ?S"
  have rhs: "drop d (rb_abs rb @ xs) ! i = (rb_abs rb @ xs) ! (d + i)"
    using m n by (intro nth_drop) (simp add: d_def)
  have "b' ! ((?w + (?n + i)) mod ?S) = (rb_abs rb @ xs) ! (d + i)"
  proof (cases "?n + i < ?S")
    case True
    then have di: "d + i < ?m" and e: "?r + ?m + (?n + i) = ?r + (d + i) + ?S"
      using over by (simp_all add: d_def)
    have "(?r + (d + i)) mod ?S = (?w + (?n + i)) mod ?S"
      unfolding write_index_eq [OF inv] using e by (simp only: mod_add_left_eq mod_add_self2)
    then show ?thesis
      using True di b' lb by (simp add: nth_append rb_abs_def)
  next
    case False
    then have j: "?n + i - ?S < ?n" "?n + i - ?S < ?S" and e: "?w + (?n + i) = ?w + (?n + i - ?S) + ?S"
        and di: "\<not> d + i < ?m" "d + i - ?m = ?n + i - ?S"
      using i n over by (auto simp: d_def)
    have "b' ! ((?w + (?n + i)) mod ?S) = xs ! (?n + i - ?S)"
      unfolding e using b' [rule_format, OF j(2)] j(1) by simp
    then show ?thesis
      using di by (simp add: nth_append)
  qed
  then show "ring_slice ((?w + ?n) mod ?S) ?S b' ! i = drop (?m + ?n - ?S) (rb_abs rb @ xs) ! i"
    using lhs rhs by (simp add: d_def)
qed

definition last_of :: "nat \<Rightarrow> 'a list \<Rightarrow> 'a list" where
  "last_of n xs = drop (length xs - n) xs"

text \<open>The forced block writer.  \<open>force_bug\<close> is the situation its mirror handling gets wrong: the
  unread elements do not wrap, and the block both overwrites some of them and passes the end of
  the pool.\<close>

definition force_bug :: "'a ringbuffer \<Rightarrow> 'a list \<Rightarrow> bool" where
  "force_bug rb xs \<longleftrightarrow> read_mirror rb = write_mirror rb \<and> rb_space_len rb < min (length xs) (buffer_size rb)"

lemma rb_put_force_eq:
  assumes inv: "rb_inv rb"
  shows "\<exists>rb'. rb_put_force rb xs = Some (rb', min (length xs) (buffer_size rb)) \<and> rb_inv rb' \<and>
    buffer_size rb' = buffer_size rb \<and>
    rb_abs rb' = (if force_bug rb xs then [] else last_of (buffer_size rb) (rb_abs rb @ xs))"
proof -
  let ?S = "buffer_size rb" and ?w = "write_index rb" and ?m = "rb_data_len rb"
  define ys where "ys = last_of ?S xs"
  have ys: "(if length xs > ?S then drop (length xs - ?S) xs else xs) = ys"
    by (simp add: ys_def last_of_def)
  have n: "length ys = min (length xs) ?S"
    by (auto simp: ys_def last_of_def)
  have last: "last_of ?S (rb_abs rb @ ys) = last_of ?S (rb_abs rb @ xs)"
    using rb_data_len_le [OF inv] by (cases "length xs \<le> ?S") (simp_all add: ys_def last_of_def)
  show ?thesis
  proof (cases "length ys \<le> rb_space_len rb")
    case True
    then obtain rb' where rb': "rb_fill ys rb = Some rb'" "rb_inv rb'" "rb_abs rb' = rb_abs rb @ ys"
        "buffer_size rb' = ?S"
      using rb_fill_append [OF inv] by blast
    have "last_of ?S (rb_abs rb @ ys) = rb_abs rb @ ys"
      using True rb_data_len_le [OF inv] by (simp add: last_of_def rb_space_len_def)
    moreover have "\<not> force_bug rb xs"
      using True n by (auto simp: force_bug_def)
    moreover have "rb_put_force rb xs = Some (rb', length ys)"
      using rb'(1) True by (simp add: rb_put_force_def Let_def ys)
    ultimately show ?thesis
      using rb' last n by simp
  next
    case False
    obtain b' where b': "rb_fill ys rb = Some (rb\<lparr>buffer_ptr := b',
        write_mirror := (write_mirror rb \<noteq> (?S - ?w \<le> length ys)), write_index := (?w + length ys) mod ?S\<rparr>)"
        "length b' = ?S"
        "\<forall>i < ?S. b' ! ((?w + i) mod ?S) = (if i < length ys then ys ! i else buffer_ptr rb ! ((?w + i) mod ?S))"
      using rb_fill_eq [OF inv, of ys] n by auto
    define wr where "wr = (?S - ?w \<le> length ys)"
    define rb' where "rb' = rb\<lparr>buffer_ptr := b', write_mirror := (write_mirror rb \<noteq> wr),
        write_index := (?w + length ys) mod ?S, read_mirror := (read_mirror rb \<noteq> wr),
        read_index := (?w + length ys) mod ?S\<rparr>"
    have run: "rb_put_force rb xs = Some (rb', length ys)"
      using b'(1) False by (auto simp: rb_put_force_def Let_def ys rb'_def wr_def not_le)
    have pos: "0 < ?S" "?S < 2 ^ 15" using inv by (simp_all add: rb_inv_def)
    have inv': "rb_inv rb'"
      using pos b'(2) by (auto simp: rb_inv_def rb'_def)
    have bug: "force_bug rb xs \<longleftrightarrow> read_mirror rb = write_mirror rb"
      using False n by (auto simp: force_bug_def)
    have "rb_abs rb' = (if force_bug rb xs then [] else last_of ?S (rb_abs rb @ ys))"
    proof (cases "force_bug rb xs")
      case True
      then have "rb_data_len rb' = 0"
        using rb_data_len_eq [OF inv'] bug by (simp add: rb'_def)
      then show ?thesis using True by (simp add: rb_abs_def ring_slice_def)
    next
      case nobug: False
      then have len': "rb_data_len rb' = ?S"
        using rb_data_len_eq [OF inv'] bug by (auto simp: rb'_def)
      have "rb_abs rb' = ring_slice ((?w + length ys) mod ?S) ?S b'"
        unfolding rb_abs_def len' by (simp add: rb'_def)
      also have "\<dots> = drop (?m + length ys - ?S) (rb_abs rb @ ys)"
        using n False rb_data_len_le [OF inv] b'(2,3)
        by (intro overwrite_slice [OF inv]) (auto simp: rb_space_len_def)
      finally show ?thesis using nobug by (simp add: last_of_def)
    qed
    then show ?thesis
      using run inv' n last by (auto simp: rb'_def)
  qed
qed

lemma rb_put_eq:
  assumes inv: "rb_inv rb"
  shows "\<exists>rb'. rb_put rb xs = Some (rb', min (length xs) (rb_space_len rb)) \<and> rb_inv rb' \<and>
    buffer_size rb' = buffer_size rb \<and> rb_abs rb' = rb_abs rb @ take (rb_space_len rb) xs"
proof (cases "rb_space_len rb = 0")
  case True
  then show ?thesis using inv by (simp add: rb_put_def)
next
  case False
  define n where "n = min (length xs) (rb_space_len rb)"
  have t: "take n xs = take (rb_space_len rb) xs" "(if rb_space_len rb < length xs then rb_space_len rb else length xs) = n"
    by (simp_all add: n_def min_def)
  obtain rb' where "rb_fill (take n xs) rb = Some rb'" "rb_inv rb'" "rb_abs rb' = rb_abs rb @ take n xs"
      "buffer_size rb' = buffer_size rb"
    using rb_fill_append [OF inv, of "take n xs"] by (auto simp: n_def)
  then show ?thesis
    using False unfolding rb_put_def Let_def t(2) t(1) [symmetric] by (simp add: n_def)
qed

text \<open>The character writers are the block writers for one element.\<close>

lemma rb_fill_one:
  assumes inv: "rb_inv rb"
  shows "do { b \<leftarrow> mem_store (write_index rb) [ch] (buffer_ptr rb);
      Some (if write_index rb = buffer_size rb - 1
            then rb\<lparr>buffer_ptr := b, write_mirror := (\<not> write_mirror rb), write_index := 0\<rparr>
            else rb\<lparr>buffer_ptr := b, write_index := u15 (write_index rb + 1)\<rparr>) } = rb_fill [ch] rb"
proof -
  have w: "write_index rb < buffer_size rb" "0 < buffer_size rb"
    using inv by (simp_all add: rb_inv_def)
  show ?thesis
  proof (cases "write_index rb = buffer_size rb - 1")
    case True
    then have "buffer_size rb - write_index rb = 1" using w by simp
    then show ?thesis
      using True by (auto simp: rb_fill_def u15_def mem_store_def Let_def)
  next
    case False
    then have "1 < buffer_size rb - write_index rb" using w by simp
    then show ?thesis
      using False by (simp add: rb_fill_def)
  qed
qed

lemma rb_putchar_eq: "rb_inv rb \<Longrightarrow> rb_putchar rb ch = rb_put rb [ch]"
  using rb_fill_one [of rb ch]
  by (auto simp: rb_putchar_def rb_put_def bind_eq_Some_conv Let_def split: Option.bind_splits)

lemma rb_fill_one_mirror:
  assumes "rb_inv rb" and "rb_fill [ch] rb = Some rb'"
  shows "read_mirror rb' = read_mirror rb"
  using assms by (auto simp: rb_fill_def bind_eq_Some_conv Let_def split: if_splits)

lemma rb_putchar_force_eq:
  assumes inv: "rb_inv rb"
  shows "rb_putchar_force rb ch = rb_put_force rb [ch]"
proof -
  have w: "write_index rb < buffer_size rb" "0 < buffer_size rb"
    using inv by (simp_all add: rb_inv_def)
  have full: "rb_status rb = RB_FULL \<longleftrightarrow> rb_space_len rb < 1"
    using rb_full_iff [OF inv] rb_data_len_le [OF inv] by (auto simp: rb_space_len_def)
  have one: "(if length [ch] > buffer_size rb then drop (length [ch] - buffer_size rb) [ch] else [ch]) = [ch]"
    using w by simp
  show ?thesis
  proof (cases "write_index rb = buffer_size rb - 1")
    case True
    then have "buffer_size rb - write_index rb = 1" using w by simp
    then show ?thesis
      using True full w by (auto simp: rb_putchar_force_def rb_put_force_def one rb_fill_def u15_def Let_def mem_store_def)
  next
    case False
    then have "1 < buffer_size rb - write_index rb" using w by simp
    then show ?thesis
      using False full w by (auto simp: rb_putchar_force_def rb_put_force_def one rb_fill_def Let_def mem_store_def)
  qed
qed

section \<open>The readers\<close>

lemma rb_get_eq:
  assumes inv: "rb_inv rb"
  shows "\<exists>rb'. rb_get rb n = Some (rb', take n (rb_abs rb)) \<and> rb_inv rb' \<and>
    buffer_size rb' = buffer_size rb \<and> rb_abs rb' = drop n (rb_abs rb)"
proof (cases "rb_data_len rb = 0")
  case True
  then have "rb_abs rb = []" by (simp flip: length_0_conv)
  then show ?thesis using True inv by (simp add: rb_get_def)
next
  case False
  let ?S = "buffer_size rb" and ?r = "read_index rb" and ?m = "rb_data_len rb" and ?b = "buffer_ptr rb"
  define l where "l = min n ?m"
  have basic: "length ?b = ?S" "?r < ?S" "?S < 2 ^ 15" "l \<le> ?m" "?m \<le> ?S"
    using inv rb_data_len_le [OF inv] by (simp_all add: rb_inv_def l_def)
  have l: "(if ?m < n then ?m else n) = l" by (simp add: l_def)
  have tk: "take n (rb_abs rb) = ring_slice ?r l ?b" and dr: "drop n (rb_abs rb) = drop l (rb_abs rb)"
    by (simp_all add: l_def rb_abs_def take_ring_slice min_def)
  define rb' where "rb' = rb\<lparr>read_mirror := (read_mirror rb \<noteq> (?S - ?r \<le> l)), read_index := (?r + l) mod ?S\<rparr>"
  have r': "(?r + l) mod ?S = (if ?S - ?r \<le> l then l - (?S - ?r) else ?r + l)"
    using basic by (auto simp: mod_if)
  have run: "rb_get rb n = Some (rb', take n (rb_abs rb))"
  proof (cases "?S - ?r > l")
    case True
    then show ?thesis
      using False basic r' unfolding tk
      by (simp add: rb_get_def Let_def l mem_load_def u15_def rb'_def ring_slice_straight)
  next
    case wrap: False
    then have "ring_slice ?r l ?b = drop ?r ?b @ take (l - (?S - ?r)) ?b"
      using basic by (simp add: ring_slice_split)
    then show ?thesis
      using False basic r' wrap unfolding tk
      by (auto simp: rb_get_def Let_def l mem_load_def u15_def rb'_def)
  qed
  let ?same = "read_mirror rb = write_mirror rb"
  have idx: "idx_ok ?S ?same ?r (write_index rb)" "l \<le> idx_len ?S ?same ?r (write_index rb)"
    using inv basic by (simp_all add: rb_inv_idx rb_data_len_idx)
  have same: "(read_mirror rb' = write_mirror rb') = (?same \<noteq> (?S - ?r \<le> l))"
    by (auto simp: rb'_def)
  have inv': "rb_inv rb'"
    unfolding rb_inv_idx same using advance_read(1) [OF idx] inv
    by (simp add: rb'_def rb_inv_idx)
  have len': "rb_data_len rb' = ?m - l"
    unfolding rb_data_len_idx [OF inv'] rb_data_len_idx [OF inv] same
    using advance_read(2) [OF idx] by (simp add: rb'_def)
  have "rb_abs rb' = ring_slice ((?r + l) mod ?S) (?m - l) ?b"
    unfolding rb_abs_def len' by (simp add: rb'_def)
  also have "\<dots> = drop n (rb_abs rb)"
    unfolding dr using basic by (simp add: rb_abs_def drop_ring_slice)
  finally show ?thesis
    using run inv' by (auto simp: rb'_def)
qed

lemma rb_getchar_eq:
  assumes inv: "rb_inv rb"
  shows "\<exists>rb'. rb_getchar rb = Some (rb', case rb_abs rb of [] \<Rightarrow> None | x # _ \<Rightarrow> Some x) \<and> rb_inv rb' \<and>
    buffer_size rb' = buffer_size rb \<and> rb_abs rb' = tl (rb_abs rb)"
proof (cases "rb_data_len rb = 0")
  case True
  then have "rb_abs rb = []" by (simp flip: length_0_conv)
  then show ?thesis using True inv by (simp add: rb_getchar_def)
next
  case False
  let ?S = "buffer_size rb" and ?r = "read_index rb"
  have basic: "length (buffer_ptr rb) = ?S" "?r < ?S" "?S < 2 ^ 15"
    using inv by (simp_all add: rb_inv_def)
  obtain rb' where rb': "rb_get rb 1 = Some (rb', take 1 (rb_abs rb))" "rb_inv rb'" "buffer_size rb' = ?S"
      "rb_abs rb' = drop 1 (rb_abs rb)"
    using rb_get_eq [OF inv, of 1] by blast
  have hd: "rb_abs rb = hd (rb_abs rb) # tl (rb_abs rb)"
    using False by (metis hd_Cons_tl length_0_conv length_rb_abs)
  have idx: "?r < length (buffer_ptr rb)"
    using basic by simp
  have x: "mem_load ?r 1 (buffer_ptr rb) = Some [hd (rb_abs rb)]"
  proof -
    have "rb_abs rb ! 0 = buffer_ptr rb ! ?r"
      using False basic by (simp add: rb_abs_def)
    then have "hd (rb_abs rb) = buffer_ptr rb ! ?r"
      using hd by (metis nth_Cons_0)
    then show ?thesis
      using idx by (simp add: mem_load_def take_Suc_conv_app_nth hd_drop_conv_nth take_Suc drop_eq_Nil)
  qed
  have get: "rb_getchar rb = Some (rb', Some (hd (rb_abs rb)))"
  proof (cases "?r = ?S - 1")
    case True
    then have k: "?S - ?r = 1" using basic by simp
    have "rb' = rb\<lparr>read_mirror := (\<not> read_mirror rb), read_index := 0\<rparr>"
      using rb'(1) False k x by (auto simp: rb_get_def u15_def mem_load_def Let_def split: if_splits)
    then show ?thesis
      using True False x by (simp add: rb_getchar_def)
  next
    case nw: False
    then have k: "1 < ?S - ?r" using basic by simp
    have "rb' = rb\<lparr>read_index := u15 (?r + 1)\<rparr>"
      using rb'(1) False k x by (auto simp: rb_get_def Let_def split: if_splits)
    then show ?thesis
      using nw False x by (simp add: rb_getchar_def)
  qed
  then show ?thesis
    using rb' hd by (cases "rb_abs rb") (simp_all add: drop_Suc)
qed

lemma rb_init_ok:
  assumes "4 \<le> sz" and "sz < 2 ^ 15" and "length pool = sz - sz mod 4"
  shows "\<exists>rb. rb_init pool sz = Some rb \<and> rb_inv rb \<and> rb_abs rb = [] \<and> buffer_size rb = sz - sz mod 4"
proof -
  have "0 < sz - sz mod 4"
    using assms(1) by (metis (no_types) mod_less_divisor not_less order.strict_trans2 zero_less_diff zero_less_numeral)
  then show ?thesis
    using assms by (auto simp: rb_init_def rb_inv_def rb_abs_def rb_data_len_def rb_status_def ring_slice_def)
qed

lemma rb_reset_ok: "rb_inv rb \<Longrightarrow> rb_inv (rb_reset rb) \<and> rb_abs (rb_reset rb) = []"
  by (simp add: rb_inv_def rb_reset_def rb_abs_def rb_data_len_def rb_status_def ring_slice_def)

section \<open>The bounded queue as an interface\<close>

text \<open>
  What the console driver relies on: a queue of fixed capacity whose writer never fails but
  drops the oldest element of a full queue, and whose reader takes the oldest element if there
  is one.
\<close>

locale lossy_fifo =
  fixes contents :: "'q \<Rightarrow> 'a list"
    and valid :: "'q \<Rightarrow> bool"
    and capacity :: "'q \<Rightarrow> nat"
    and push :: "'q \<Rightarrow> 'a \<Rightarrow> 'q option"
    and pop :: "'q \<Rightarrow> ('q \<times> 'a option) option"
  assumes bounded: "valid q \<Longrightarrow> length (contents q) \<le> capacity q"
    and push_ok: "valid q \<Longrightarrow> \<exists>q'. push q x = Some q' \<and> valid q' \<and> capacity q' = capacity q \<and>
      contents q' = last_of (capacity q) (contents q @ [x])"
    and pop_ok: "valid q \<Longrightarrow> \<exists>q'. pop q = Some (q', case contents q of [] \<Rightarrow> None | x # _ \<Rightarrow> Some x) \<and>
      valid q' \<and> capacity q' = capacity q \<and> contents q' = tl (contents q)"
begin

fun push_all :: "'a list \<Rightarrow> 'q \<Rightarrow> 'q option" where
  "push_all [] q = Some q"
| "push_all (x # xs) q = do { q' \<leftarrow> push q x; push_all xs q' }"

lemma last_of_last_of: "last_of n (last_of n xs @ ys) = last_of n (xs @ ys)"
  by (cases "length xs \<le> n") (simp_all add: last_of_def add.commute)

lemma push_all_ok:
  assumes "valid q"
  shows "\<exists>q'. push_all xs q = Some q' \<and> valid q' \<and> capacity q' = capacity q \<and>
    contents q' = last_of (capacity q) (contents q @ xs)"
  using assms
proof (induction xs arbitrary: q)
  case Nil
  then show ?case using bounded [of q] by (simp add: last_of_def)
next
  case (Cons x xs)
  obtain q1 where q1: "push q x = Some q1" "valid q1" "capacity q1 = capacity q"
      "contents q1 = last_of (capacity q) (contents q @ [x])"
    using push_ok [OF Cons.prems] by blast
  then show ?case
    using Cons.IH [OF q1(2)] last_of_last_of [of "capacity q" "contents q @ [x]" xs] by simp
qed

text \<open>Nothing is lost as long as the queue has room.\<close>

lemma push_all_fits:
  assumes "valid q" and "length (contents q) + length xs \<le> capacity q"
  shows "\<exists>q'. push_all xs q = Some q' \<and> valid q' \<and> capacity q' = capacity q \<and> contents q' = contents q @ xs"
  using push_all_ok [OF assms(1), of xs] assms(2) by (simp add: last_of_def)

end

definition fifo_push :: "'a ringbuffer \<Rightarrow> 'a \<Rightarrow> 'a ringbuffer option" where
  "fifo_push rb x = map_option fst (rb_put_force rb [x])"

lemma force_bug_one: "rb_inv rb \<Longrightarrow> \<not> force_bug rb [x]"
  by (auto simp: force_bug_def rb_space_len_def rb_data_len_idx idx_len_def rb_inv_def)

interpretation rb_fifo: lossy_fifo rb_abs rb_inv buffer_size fifo_push rb_getchar
proof unfold_locales
  show "length (rb_abs q) \<le> buffer_size q" if "rb_inv q" for q :: "'a ringbuffer"
    using that by (simp add: rb_data_len_le)
  show "\<exists>q'. fifo_push q x = Some q' \<and> rb_inv q' \<and> buffer_size q' = buffer_size q \<and>
      rb_abs q' = last_of (buffer_size q) (rb_abs q @ [x])" if "rb_inv q" for q :: "'a ringbuffer" and x
    using rb_put_force_eq [OF that, of "[x]"] force_bug_one [OF that, of x] by (auto simp: fifo_push_def)
  show "\<exists>q'. rb_getchar q = Some (q', case rb_abs q of [] \<Rightarrow> None | x # _ \<Rightarrow> Some x) \<and> rb_inv q' \<and>
      buffer_size q' = buffer_size q \<and> rb_abs q' = tl (rb_abs q)" if "rb_inv q" for q :: "'a ringbuffer"
    using rb_getchar_eq [OF that] by blast
qed

section \<open>Properties\<close>

text \<open>Property C31. The ring buffer is a bounded queue: on a well-formed buffer the block writer
  appends as much of the block as there is room for and reports how much, the block reader
  removes and returns the oldest elements, and both stay inside the pool and keep the buffer
  well-formed.\<close>

theorem ringbuffer_refines_queue:
  assumes "rb_inv rb"
  shows "(\<exists>rb'. rb_put rb xs = Some (rb', min (length xs) (rb_space_len rb)) \<and> rb_inv rb' \<and>
            rb_abs rb' = rb_abs rb @ take (rb_space_len rb) xs) \<and>
         (\<exists>rb'. rb_get rb n = Some (rb', take n (rb_abs rb)) \<and> rb_inv rb' \<and>
            rb_abs rb' = drop n (rb_abs rb))"
  using rb_put_eq [OF assms, of xs] rb_get_eq [OF assms, of n] by blast

definition example_ring :: "nat ringbuffer" where
  "example_ring = \<lparr>buffer_ptr = [10, 20, 30, 40], read_mirror = False, read_index = 1,
     write_mirror = False, write_index = 3, buffer_size = 4\<rparr>"

lemma example_ring_inv: "rb_inv example_ring"
  by (simp add: rb_inv_def example_ring_def)

lemma example_ring_abs: "rb_abs example_ring = [20, 30]" "rb_space_len example_ring = 2"
  by (simp_all add: example_ring_def rb_abs_def rb_data_len_def rb_status_def ring_slice_def rb_space_len_def
      upt_conv_Cons)

theorem ringbuffer_refines_queue_witness:
  "\<exists>rb'. rb_put example_ring [50, 60, 70] = Some (rb', 2) \<and> rb_abs rb' = [20, 30, 50, 60]"
  using ringbuffer_refines_queue [OF example_ring_inv, of "[50, 60, 70]" 0]
  by (auto simp: example_ring_abs)

text \<open>The forced block writer keeps the newest \<open>buffer_size\<close> elements, except in one
  situation: when the unread elements do not wrap and the block overwrites some of them (with
  the pool's end in between), both mirrors are flipped and the buffer, full of data, reads as
  empty.  For blocks of one element, the only ones the console writes, the situation cannot
  arise.\<close>

theorem rb_put_force_effect:
  assumes "rb_inv rb"
  shows "\<exists>rb'. rb_put_force rb xs = Some (rb', min (length xs) (buffer_size rb)) \<and> rb_inv rb' \<and>
    rb_abs rb' =
      (if read_mirror rb = write_mirror rb \<and> rb_space_len rb < min (length xs) (buffer_size rb) then []
       else last_of (buffer_size rb) (rb_abs rb @ xs))"
  using rb_put_force_eq [OF assms, of xs] by (auto simp: force_bug_def)

theorem rb_put_force_effect_witness:
  "\<exists>rb'. rb_put_force example_ring [50, 60, 70] = Some (rb', 3) \<and> rb_abs rb' = []"
proof -
  have "read_mirror example_ring = write_mirror example_ring" "buffer_size example_ring = 4"
    by (simp_all add: example_ring_def)
  then show ?thesis
    using rb_put_force_effect [OF example_ring_inv, of "[50, 60, 70]"]
    by (auto simp: example_ring_abs numeral_3_eq_3)
qed

text \<open>The character operations agree with the block operations: putting one character
  is putting a block of one, forced or not, and getting one takes the oldest element.\<close>

theorem ringbuffer_char_ops:
  assumes "rb_inv rb"
  shows "rb_putchar rb ch = rb_put rb [ch] \<and> rb_putchar_force rb ch = rb_put_force rb [ch] \<and>
    (\<exists>rb'. rb_getchar rb = Some (rb', case rb_abs rb of [] \<Rightarrow> None | x # _ \<Rightarrow> Some x) \<and> rb_inv rb' \<and>
       rb_abs rb' = tl (rb_abs rb))"
  using rb_putchar_eq [OF assms, of ch] rb_putchar_force_eq [OF assms, of ch] rb_getchar_eq [OF assms]
  by blast

theorem ringbuffer_char_ops_witness:
  "\<exists>rb'. rb_getchar example_ring = Some (rb', Some 20) \<and> rb_abs rb' = [30]"
  using ringbuffer_char_ops [OF example_ring_inv, of 0] by (auto simp: example_ring_abs)

end
