(* ===== verification/Kernel.thy ===== *)
theory Kernel
  imports Prelude "HOL-Library.Multiset"
begin

text \<open>
  Threads and the single-core scheduler: \<open>rt-thread/src/thread.c\<close>, \<open>rt-thread/src/scheduler.c\<close>
  and the thread-list routines of \<open>rt-thread/src/ipc.c\<close>, in the configuration of
  \<open>rtconfig.h\<close> (32 priorities, no SMP, no signals).  A thread is linked into at most one list
  through its \<open>tlist\<close> node; the model keeps all lists in one map from list heads to the
  threads linked there, so \<open>rt_list_remove(&thread->tlist)\<close> takes the thread out of whichever
  list holds it.  The scheduler's bitmap of non-empty ready lists is the word the code has.
  Interrupts are off inside every routine, so each is one atomic step; a call that blocks is
  split at \<open>rt_schedule\<close>.  A failed \<open>RT_ASSERT\<close> and a list head read as a thread are \<open>None\<close>.
\<close>

named_theorems kernel_simps \<open>effect of the list and scheduler primitives\<close>

unbundle bit_operations_syntax

section \<open>State\<close>

datatype thread_stat =
  RT_THREAD_INIT | RT_THREAD_READY | RT_THREAD_SUSPEND | RT_THREAD_RUNNING | RT_THREAD_CLOSE

type_synonym tid = nat

record thread =
  current_priority :: nat
  init_priority :: nat
  number_mask :: u32
  stat :: thread_stat
  stat_yield :: bool
  thread_error :: rt_err
  thread_timer :: "nat option"
  init_tick :: nat
  remaining_tick :: nat
  event_set :: u32
  event_info :: u8

text \<open>The list heads: a ready list per priority, the waiting list of each IPC object, the second
  waiting list of a mailbox or message queue, and the defunct threads.\<close>

datatype qid = Ready nat | Suspend nat | Sender nat | Defunct

record kernel =
  threads :: "tid \<Rightarrow> thread"
  linked :: "qid \<Rightarrow> tid list"
  ready_group :: u32
  current :: tid
  lock_nest :: nat

definition upd_thread :: "tid \<Rightarrow> (thread \<Rightarrow> thread) \<Rightarrow> kernel \<Rightarrow> kernel" where
  "upd_thread t f k = k\<lparr>threads := (threads k)(t := f (threads k t))\<rparr>"

abbreviation prio_of :: "kernel \<Rightarrow> tid \<Rightarrow> nat" where
  "prio_of k t \<equiv> current_priority (threads k t)"

abbreviation stat_of :: "kernel \<Rightarrow> tid \<Rightarrow> thread_stat" where
  "stat_of k t \<equiv> stat (threads k t)"

section \<open>Lists and the ready bitmap\<close>

definition list_remove :: "tid \<Rightarrow> kernel \<Rightarrow> kernel" where
  "list_remove t k = k\<lparr>linked := (\<lambda>q. removeAll t (linked k q))\<rparr>"

definition list_append :: "qid \<Rightarrow> tid \<Rightarrow> kernel \<Rightarrow> kernel" where
  "list_append q t k = k\<lparr>linked := (linked k)(q := linked k q @ [t])\<rparr>"

text \<open>\<open>__rt_ffs\<close>: the number of the lowest set bit, counted from one, and zero for zero.\<close>

definition rt_ffs :: "u32 \<Rightarrow> nat" where
  "rt_ffs value = (case filter (bit value) [0..<32] of [] \<Rightarrow> 0 | i # _ \<Rightarrow> i + 1)"

definition schedule_insert_thread :: "tid \<Rightarrow> kernel \<Rightarrow> kernel" where
  "schedule_insert_thread t k =
     (if t = current k then upd_thread t (stat_update (\<lambda>_. RT_THREAD_RUNNING)) k
      else let k1 = upd_thread t (stat_update (\<lambda>_. RT_THREAD_READY)) k;
               k2 = list_append (Ready (prio_of k1 t)) t k1
           in k2\<lparr>ready_group := ready_group k2 OR number_mask (threads k2 t)\<rparr>)"

definition schedule_remove_thread :: "tid \<Rightarrow> kernel \<Rightarrow> kernel" where
  "schedule_remove_thread t k =
     (let k1 = list_remove t k
      in if linked k1 (Ready (prio_of k1 t)) = []
         then k1\<lparr>ready_group := ready_group k1 AND NOT (number_mask (threads k1 t))\<rparr>
         else k1)"

section \<open>The scheduler\<close>

definition get_highest_priority_thread :: "kernel \<Rightarrow> (tid \<times> nat) option" where
  "get_highest_priority_thread k =
     (let p = rt_ffs (ready_group k) - 1
      in case linked k (Ready p) of [] \<Rightarrow> None | t # _ \<Rightarrow> Some (t, p))"

definition rt_schedule :: "kernel \<Rightarrow> kernel option" where
  "rt_schedule k =
     (if lock_nest k \<noteq> 0 \<or> ready_group k = 0 then Some k
      else do {
        (t, p) \<leftarrow> get_highest_priority_thread k;
        let from_thread = current k;
        let c = threads k from_thread;
        let (to_thread, need_insert_from_thread, k1) =
          (if stat c = RT_THREAD_RUNNING
           then if current_priority c < p then (from_thread, False, k)
                else if current_priority c = p \<and> \<not> stat_yield c then (from_thread, False, k)
                else (t, True, upd_thread from_thread (stat_yield_update (\<lambda>_. False)) k)
           else (t, False, k));
        Some (if to_thread \<noteq> from_thread
              then let k2 = k1\<lparr>current := to_thread\<rparr>;
                       k3 = (if need_insert_from_thread then schedule_insert_thread from_thread k2 else k2)
                   in upd_thread to_thread (stat_update (\<lambda>_. RT_THREAD_RUNNING))
                        (schedule_remove_thread to_thread k3)
              else upd_thread from_thread (stat_update (\<lambda>_. RT_THREAD_RUNNING))
                     (schedule_remove_thread from_thread k1)) })"

section \<open>Thread operations\<close>

definition rt_thread_suspend :: "tid \<Rightarrow> kernel \<Rightarrow> (rt_err \<times> kernel) option" where
  "rt_thread_suspend t k =
     (if stat_of k t \<noteq> RT_THREAD_READY \<and> stat_of k t \<noteq> RT_THREAD_RUNNING then Some (- RT_ERROR, k)
      else if stat_of k t = RT_THREAD_RUNNING \<and> t \<noteq> current k then None
      else Some (RT_EOK,
             upd_thread t (thread_timer_update (\<lambda>_. None))
               (upd_thread t (stat_update (\<lambda>_. RT_THREAD_SUSPEND)) (schedule_remove_thread t k))))"

definition rt_thread_resume :: "tid \<Rightarrow> kernel \<Rightarrow> rt_err \<times> kernel" where
  "rt_thread_resume t k =
     (if stat_of k t \<noteq> RT_THREAD_SUSPEND then (- RT_ERROR, k)
      else (RT_EOK, schedule_insert_thread t (upd_thread t (thread_timer_update (\<lambda>_. None)) (list_remove t k))))"

text \<open>The callback of a thread's timer.\<close>

definition rt_thread_timeout :: "tid \<Rightarrow> kernel \<Rightarrow> kernel option" where
  "rt_thread_timeout t k =
     (if stat_of k t = RT_THREAD_SUSPEND
      then rt_schedule (schedule_insert_thread t (list_remove t
             (upd_thread t (thread_error_update (\<lambda>_. - RT_ETIMEOUT)) k)))
      else None)"

text \<open>\<open>rt_timer_start\<close> asserts \<open>init_tick < RT_TICK_MAX / 2\<close>.\<close>

definition start_timer :: "tid \<Rightarrow> nat \<Rightarrow> kernel \<Rightarrow> kernel option" where
  "start_timer t tick k =
     (if tick < 2147483647 then Some (upd_thread t (thread_timer_update (\<lambda>_. Some tick)) k) else None)"

definition rt_thread_startup :: "tid \<Rightarrow> kernel \<Rightarrow> (rt_err \<times> kernel) option" where
  "rt_thread_startup t k =
     (if stat_of k t = RT_THREAD_INIT
      then let k1 = upd_thread t (\<lambda>th. th\<lparr>current_priority := init_priority th,
                                          number_mask := push_bit (init_priority th) 1,
                                          stat := RT_THREAD_SUSPEND, stat_yield := False\<rparr>) k
           in do { k2 \<leftarrow> rt_schedule (snd (rt_thread_resume t k1)); Some (RT_EOK, k2) }
      else None)"

text \<open>\<open>rt_thread_sleep\<close> up to its \<open>rt_schedule\<close>, and what it does when the thread runs again.\<close>

definition rt_thread_sleep :: "nat \<Rightarrow> kernel \<Rightarrow> kernel option" where
  "rt_thread_sleep tick k =
     do { (_, k1) \<leftarrow> rt_thread_suspend (current k) k;
          k2 \<leftarrow> start_timer (current k) tick k1;
          rt_schedule k2 }"

definition sleep_resumed :: "kernel \<Rightarrow> rt_err \<times> kernel" where
  "sleep_resumed k =
     (RT_EOK, if thread_error (threads k (current k)) = - RT_ETIMEOUT
              then upd_thread (current k) (thread_error_update (\<lambda>_. RT_EOK)) k else k)"

definition rt_thread_delay :: "nat \<Rightarrow> kernel \<Rightarrow> kernel option" where
  "rt_thread_delay tick k = rt_thread_sleep tick k"

text \<open>\<open>RT_TICK_PER_SECOND\<close> is 1000; a negative time is \<open>RT_WAITING_FOREVER\<close> as an unsigned tick.\<close>

definition rt_tick_from_millisecond :: "int \<Rightarrow> nat" where
  "rt_tick_from_millisecond ms =
     (if ms < 0 then 2 ^ 32 - 1
      else 1000 * (nat ms div 1000) + (1000 * (nat ms mod 1000) + 999) div 1000)"

definition rt_thread_mdelay :: "int \<Rightarrow> kernel \<Rightarrow> kernel option" where
  "rt_thread_mdelay ms k = rt_thread_sleep (rt_tick_from_millisecond ms) k"

lemma rt_tick_from_millisecond_eq: "0 \<le> ms \<Longrightarrow> rt_tick_from_millisecond ms = nat ms"
proof -
  have "(1000 * m + 999) div 1000 = m" for m :: nat
    using div_mult_self2 [of 1000 999 m] by (simp add: add.commute mult.commute)
  then show "0 \<le> ms \<Longrightarrow> rt_tick_from_millisecond ms = nat ms"
    by (simp add: rt_tick_from_millisecond_def)
qed

text \<open>\<open>rt_thread_delay_until\<close> at tick \<open>now\<close>, up to its \<open>rt_schedule\<close>; the first component is what it
  leaves in \<open>*tick\<close> meanwhile.\<close>

definition rt_thread_delay_until :: "u32 \<Rightarrow> u32 \<Rightarrow> u32 \<Rightarrow> kernel \<Rightarrow> (u32 \<times> kernel) option" where
  "rt_thread_delay_until tick inc_tick now k =
     (if now - tick < inc_tick
      then do { (_, k1) \<leftarrow> rt_thread_suspend (current k) k;
                k2 \<leftarrow> start_timer (current k) (unat (now - tick + inc_tick)) k1;
                k3 \<leftarrow> rt_schedule k2;
                Some (now - tick + inc_tick, k3) }
      else Some (now, k))"

definition rt_thread_yield :: "kernel \<Rightarrow> (rt_err \<times> kernel) option" where
  "rt_thread_yield k = do { k1 \<leftarrow> rt_schedule k; Some (RT_EOK, k1) }"

text \<open>\<open>RT_THREAD_CTRL_CHANGE_PRIORITY\<close> of \<open>rt_thread_control\<close>.\<close>

definition set_priority :: "nat \<Rightarrow> thread \<Rightarrow> thread" where
  "set_priority p th = th\<lparr>current_priority := p, number_mask := push_bit p 1\<rparr>"

definition rt_thread_change_priority :: "tid \<Rightarrow> nat \<Rightarrow> kernel \<Rightarrow> kernel" where
  "rt_thread_change_priority t p k =
     (if stat_of k t = RT_THREAD_READY
      then schedule_insert_thread t (upd_thread t (set_priority p) (schedule_remove_thread t k))
      else upd_thread t (set_priority p) k)"

text \<open>\<open>rt_timer_detach\<close> and \<open>thread->stat = RT_THREAD_CLOSE\<close>, which drops the yield flag too.\<close>

definition closed :: "thread \<Rightarrow> thread" where
  "closed th = th\<lparr>thread_timer := None, stat := RT_THREAD_CLOSE, stat_yield := False\<rparr>"

definition rt_thread_delete :: "tid \<Rightarrow> kernel \<Rightarrow> rt_err \<times> kernel" where
  "rt_thread_delete t k =
     (if stat_of k t = RT_THREAD_CLOSE then (RT_EOK, k)
      else let k1 = (if stat_of k t \<noteq> RT_THREAD_INIT then schedule_remove_thread t k else k);
               k2 = upd_thread t closed k1
           in (RT_EOK, k2\<lparr>linked := (linked k2)(Defunct := t # linked k2 Defunct)\<rparr>))"

text \<open>\<open>rt_thread_exit\<close> of a thread made by \<open>rt_thread_create\<close>, as all of the application's are.\<close>

definition rt_thread_exit :: "kernel \<Rightarrow> kernel option" where
  "rt_thread_exit k =
     (let t = current k;
          k1 = upd_thread t closed
                 (schedule_remove_thread t k)
      in rt_schedule (k1\<lparr>linked := (linked k1)(Defunct := t # linked k1 Defunct)\<rparr>))"

text \<open>\<open>rt_tick_increase\<close> (\<open>clock.c\<close>), the thread's part: the time slice.\<close>

definition tick_slice :: "kernel \<Rightarrow> kernel option" where
  "tick_slice k =
     (let t = current k;
          k1 = upd_thread t (\<lambda>th. th\<lparr>remaining_tick := (remaining_tick th + 2 ^ 32 - 1) mod 2 ^ 32\<rparr>) k
      in if remaining_tick (threads k1 t) = 0
         then rt_schedule (upd_thread t (\<lambda>th. th\<lparr>remaining_tick := init_tick th, stat_yield := True\<rparr>) k1)
         else Some k1)"

definition rt_enter_critical :: "kernel \<Rightarrow> kernel" where
  "rt_enter_critical k = k\<lparr>lock_nest := lock_nest k + 1\<rparr>"

definition rt_exit_critical :: "kernel \<Rightarrow> kernel option" where
  "rt_exit_critical k =
     (if lock_nest k \<le> 1 then rt_schedule (k\<lparr>lock_nest := 0\<rparr>)
      else Some (k\<lparr>lock_nest := lock_nest k - 1\<rparr>))"

section \<open>Waiting lists of IPC objects\<close>

abbreviation (input) RT_IPC_FLAG_FIFO :: nat where "RT_IPC_FLAG_FIFO \<equiv> 0"
abbreviation (input) RT_IPC_FLAG_PRIO :: nat where "RT_IPC_FLAG_PRIO \<equiv> 1"

text \<open>The search loop for the position in a priority-ordered list.\<close>

fun insert_prio :: "(tid \<Rightarrow> nat) \<Rightarrow> tid \<Rightarrow> tid list \<Rightarrow> tid list" where
  "insert_prio pr t [] = [t]"
| "insert_prio pr t (s # ss) = (if pr t < pr s then t # s # ss else s # insert_prio pr t ss)"

definition ipc_list_suspend :: "qid \<Rightarrow> tid \<Rightarrow> nat \<Rightarrow> kernel \<Rightarrow> kernel option" where
  "ipc_list_suspend q t flag k =
     do { (_, k1) \<leftarrow> rt_thread_suspend t k;
          Some (if flag = RT_IPC_FLAG_FIFO then list_append q t k1
                else if flag = RT_IPC_FLAG_PRIO
                then k1\<lparr>linked := (linked k1)(q := insert_prio (prio_of k1) t (linked k1 q))\<rparr>
                else k1) }"

definition ipc_list_resume :: "qid \<Rightarrow> kernel \<Rightarrow> kernel option" where
  "ipc_list_resume q k =
     (case linked k q of [] \<Rightarrow> None | t # _ \<Rightarrow> Some (snd (rt_thread_resume t k)))"

partial_function (option) ipc_list_resume_all :: "qid \<Rightarrow> kernel \<Rightarrow> kernel option" where
  "ipc_list_resume_all q k =
     (case linked k q of
        [] \<Rightarrow> Some k
      | t # _ \<Rightarrow> ipc_list_resume_all q
          (snd (rt_thread_resume t (upd_thread t (thread_error_update (\<lambda>_. - RT_ERROR)) k))))"

section \<open>Reading the updates\<close>

lemma upd_thread_simps [simp]:
  "threads (upd_thread t f k) = (threads k)(t := f (threads k t))"
  "linked (upd_thread t f k) = linked k" "ready_group (upd_thread t f k) = ready_group k"
  "current (upd_thread t f k) = current k" "lock_nest (upd_thread t f k) = lock_nest k"
  by (simp_all add: upd_thread_def)

lemma list_remove_simps [simp]:
  "threads (list_remove t k) = threads k" "linked (list_remove t k) q = removeAll t (linked k q)"
  "ready_group (list_remove t k) = ready_group k" "current (list_remove t k) = current k"
  "lock_nest (list_remove t k) = lock_nest k"
  by (simp_all add: list_remove_def)

lemma list_append_simps [simp]:
  "threads (list_append q t k) = threads k"
  "linked (list_append q t k) q' = (if q' = q then linked k q @ [t] else linked k q')"
  "ready_group (list_append q t k) = ready_group k" "current (list_append q t k) = current k"
  "lock_nest (list_append q t k) = lock_nest k"
  by (simp_all add: list_append_def)

lemma schedule_remove_simps [simp]:
  "threads (schedule_remove_thread t k) = threads k"
  "linked (schedule_remove_thread t k) q = removeAll t (linked k q)"
  "current (schedule_remove_thread t k) = current k"
  "lock_nest (schedule_remove_thread t k) = lock_nest k"
  by (simp_all add: schedule_remove_thread_def Let_def)

lemma schedule_remove_group:
  "ready_group (schedule_remove_thread t k) =
     (if removeAll t (linked k (Ready (prio_of k t))) = []
      then ready_group k AND NOT (number_mask (threads k t)) else ready_group k)"
  by (simp add: schedule_remove_thread_def Let_def)

lemma schedule_insert_simps [simp]:
  "current (schedule_insert_thread t k) = current k"
  "lock_nest (schedule_insert_thread t k) = lock_nest k"
  "threads (schedule_insert_thread t k) =
     (threads k)(t := (threads k t)\<lparr>stat := if t = current k then RT_THREAD_RUNNING else RT_THREAD_READY\<rparr>)"
  by (simp_all add: schedule_insert_thread_def Let_def)

lemma schedule_insert_lists:
  "linked (schedule_insert_thread t k) q =
     (if t \<noteq> current k \<and> q = Ready (prio_of k t) then linked k q @ [t] else linked k q)"
  "ready_group (schedule_insert_thread t k) =
     (if t = current k then ready_group k else ready_group k OR number_mask (threads k t))"
  by (simp_all add: schedule_insert_thread_def Let_def)

section \<open>The bitmap\<close>

lemma rt_ffs_zero [simp]: "rt_ffs 0 = 0"
  by (simp add: rt_ffs_def)

text \<open>For a word that is not zero, \<open>rt_ffs value - 1\<close> is its lowest set bit.\<close>

lemma rt_ffs_lowest:
  assumes "value \<noteq> 0"
  shows "0 < rt_ffs value" and "bit value (rt_ffs value - 1)"
    and "bit value i \<Longrightarrow> rt_ffs value - 1 \<le> i"
proof -
  obtain n where n: "bit value n" using assms by (metis bit_0_eq bit_eqI bot_apply bot_bool_def)
  then have "n < 32" by (auto dest: bit_imp_le_length)
  with n have ne: "filter (bit value) [0..<32] \<noteq> []" by (auto simp: filter_empty_conv)
  then obtain i js where e: "filter (bit value) [0..<32] = i # js" by (cases "filter (bit value) [0..<32]") auto
  then have r: "rt_ffs value = i + 1" by (simp add: rt_ffs_def)
  have mem: "i \<in> set (filter (bit value) [0..<32])" using e by simp
  show "0 < rt_ffs value" and "bit value (rt_ffs value - 1)"
    using r mem by auto
  have "sorted (filter (bit value) [0..<32])" by (rule sorted_wrt_filter) simp
  then have low: "\<forall>j \<in> set (filter (bit value) [0..<32]). i \<le> j" by (simp add: e)
  show "rt_ffs value - 1 \<le> j" if "bit value j" for j
  proof -
    have "j < 32" using that by (auto dest: bit_imp_le_length)
    with that low show ?thesis by (auto simp: r)
  qed
qed

lemma bit_power_iff: "bit (2 ^ p :: u32) i \<longleftrightarrow> i = p \<and> p < 32"
  by (auto simp: bit_simps)

section \<open>Invariant\<close>

text \<open>Where a linked thread belongs, by its state.\<close>

fun home :: "qid \<Rightarrow> thread \<Rightarrow> bool" where
  "home (Ready p) th \<longleftrightarrow> stat th = RT_THREAD_READY \<and> current_priority th = p"
| "home (Suspend i) th \<longleftrightarrow> stat th = RT_THREAD_SUSPEND"
| "home (Sender i) th \<longleftrightarrow> stat th = RT_THREAD_SUSPEND"
| "home Defunct th \<longleftrightarrow> stat th = RT_THREAD_CLOSE"

definition bitmap_ok :: "kernel \<Rightarrow> bool" where
  "bitmap_ok k \<longleftrightarrow> (\<forall>p. bit (ready_group k) p \<longleftrightarrow> linked k (Ready p) \<noteq> [])"

definition links_ok :: "kernel \<Rightarrow> bool" where
  "links_ok k \<longleftrightarrow> (\<forall>q. distinct (linked k q)) \<and>
     (\<forall>q q' t. t \<in> set (linked k q) \<longrightarrow> t \<in> set (linked k q') \<longrightarrow> q' = q)"

definition thread_ok :: "thread \<Rightarrow> bool" where
  "thread_ok th \<longleftrightarrow> init_priority th < 32 \<and>
     (stat th \<noteq> RT_THREAD_INIT \<longrightarrow> current_priority th < 32 \<and> number_mask th = push_bit (current_priority th) 1)"

definition stats_ok :: "kernel \<Rightarrow> bool" where
  "stats_ok k \<longleftrightarrow>
     (\<forall>t. thread_ok (threads k t)) \<and>
     (\<forall>q t. t \<in> set (linked k q) \<longrightarrow> home q (threads k t)) \<and>
     (\<forall>t. stat_of k t = RT_THREAD_READY \<longrightarrow> t \<in> set (linked k (Ready (prio_of k t)))) \<and>
     (\<forall>t. stat_of k t = RT_THREAD_RUNNING \<longrightarrow> t = current k) \<and>
     stat_of k (current k) \<noteq> RT_THREAD_READY \<and> stat_of k (current k) \<noteq> RT_THREAD_INIT"

definition kernel_inv :: "kernel \<Rightarrow> bool" where
  "kernel_inv k \<longleftrightarrow> bitmap_ok k \<and> links_ok k \<and> stats_ok k"

lemma kernel_invD:
  assumes "kernel_inv k"
  shows "bit (ready_group k) p \<longleftrightarrow> linked k (Ready p) \<noteq> []"
    and "distinct (linked k q)"
    and "t \<in> set (linked k q) \<Longrightarrow> t \<in> set (linked k q') \<Longrightarrow> q' = q"
    and "t \<in> set (linked k q) \<Longrightarrow> home q (threads k t)"
    and "stat_of k t = RT_THREAD_READY \<Longrightarrow> t \<in> set (linked k (Ready (prio_of k t)))"
    and "stat_of k t = RT_THREAD_RUNNING \<Longrightarrow> t = current k"
    and "thread_ok (threads k t)"
    and "stat_of k (current k) \<noteq> RT_THREAD_READY" and "stat_of k (current k) \<noteq> RT_THREAD_INIT"
  using assms unfolding kernel_inv_def bitmap_ok_def links_ok_def stats_ok_def by blast+

lemma mem_ready_iff:
  assumes "kernel_inv k"
  shows "t \<in> set (linked k (Ready p)) \<longleftrightarrow> stat_of k t = RT_THREAD_READY \<and> prio_of k t = p"
  using kernel_invD(4) [OF assms, of t "Ready p"] kernel_invD(5) [OF assms, of t] by auto

lemma running_unlinked:
  assumes "kernel_inv k" and "stat_of k t = RT_THREAD_RUNNING \<or> stat_of k t = RT_THREAD_INIT"
  shows "t \<notin> set (linked k q)"
  using kernel_invD(4) [OF assms(1), of t q] assms(2) by (cases q) auto

lemma ready_prio_bound: "kernel_inv k \<Longrightarrow> linked k (Ready p) \<noteq> [] \<Longrightarrow> p < 32"
  using kernel_invD(1) [of k p] by (auto dest: bit_imp_le_length)

subsection \<open>Unlinking and linking\<close>

text \<open>Taking a thread out of its list and giving it a state that needs no list.\<close>

lemma inv_unlink:
  assumes k: "kernel_inv k" and t: "stat_of k t \<noteq> RT_THREAD_INIT"
    and f: "stat (f (threads k t)) \<in> {RT_THREAD_SUSPEND, RT_THREAD_CLOSE}" "thread_ok (f (threads k t))"
  shows "kernel_inv (upd_thread t f (schedule_remove_thread t k))" (is "kernel_inv ?k")
proof -
  have mask: "number_mask (threads k t) = push_bit (prio_of k t) 1" and p: "prio_of k t < 32"
    using kernel_invD(7) [OF k, of t] t by (auto simp: thread_ok_def)
  have other: "removeAll t (linked k (Ready p)) = linked k (Ready p)" if "p \<noteq> prio_of k t" for p
    using kernel_invD(4) [OF k, of t "Ready p"] that by (intro removeAll_id) auto
  have "bitmap_ok ?k"
    unfolding bitmap_ok_def
  proof
    fix p
    show "bit (ready_group ?k) p \<longleftrightarrow> linked ?k (Ready p) \<noteq> []"
      using kernel_invD(1) [OF k, of p] p ready_prio_bound [OF k, of p]
      by (cases "p = prio_of k t")
        (auto simp: schedule_remove_group mask bit_and_iff bit_not_iff bit_power_iff other)
  qed
  moreover have "links_ok ?k"
    using kernel_invD(2,3) [OF k] by (fastforce simp: links_ok_def distinct_removeAll)
  moreover have "stats_ok ?k"
    using kernel_invD(4-9) [OF k] f by (auto simp: stats_ok_def)
  ultimately show ?thesis by (simp add: kernel_inv_def)
qed

text \<open>Making an unlinked thread ready, and linking an unlinked suspended thread into the waiting list
  of an object.\<close>

lemma inv_make_ready:
  assumes k: "kernel_inv k" and t: "t \<noteq> current k" "\<And>q. t \<notin> set (linked k q)"
    and th: "stat_of k t = RT_THREAD_SUSPEND \<or> stat_of k t = RT_THREAD_CLOSE"
  shows "kernel_inv (schedule_insert_thread t k)" (is "kernel_inv ?k")
proof -
  have mask: "number_mask (threads k t) = push_bit (prio_of k t) 1" and p: "prio_of k t < 32"
    using kernel_invD(7) [OF k, of t] th by (auto simp: thread_ok_def)
  have "bitmap_ok ?k"
    unfolding bitmap_ok_def
    using kernel_invD(1) [OF k] p t(1)
    by (auto simp: schedule_insert_lists mask bit_or_iff bit_power_iff)
  moreover have "links_ok ?k"
    using kernel_invD(2,3) [OF k] t by (auto simp: links_ok_def schedule_insert_lists split: if_splits)
  moreover have "stats_ok ?k"
    using kernel_invD(4,6-9) [OF k] t mask p
    by (auto simp: stats_ok_def schedule_insert_lists thread_ok_def mem_ready_iff [OF k] split: if_splits)
  ultimately show ?thesis by (simp add: kernel_inv_def)
qed

lemma inv_link_wait:
  assumes k: "kernel_inv k" and t: "\<And>q. t \<notin> set (linked k q)" "stat_of k t = RT_THREAD_SUSPEND"
    and q: "q = Suspend i \<or> q = Sender i" and xs: "mset xs = add_mset t (mset (linked k q))"
  shows "kernel_inv (k\<lparr>linked := (linked k)(q := xs)\<rparr>)" (is "kernel_inv ?k")
proof -
  have set_xs: "set xs = insert t (set (linked k q))"
    by (metis set_mset_add_mset_insert set_mset_mset xs)
  have d: "distinct xs"
    using kernel_invD(2) [OF k, of q] t(1) [of q] xs
    by (metis distinct.simps(2) mset.simps(2) mset_eq_imp_distinct_iff)
  have "bitmap_ok ?k"
    using kernel_invD(1) [OF k] q by (auto simp: bitmap_ok_def)
  moreover have "links_ok ?k"
    using kernel_invD(2,3) [OF k] t d by (auto simp: links_ok_def set_xs split: if_splits)
  moreover have "stats_ok ?k"
    using kernel_invD(4-9) [OF k] t q by (auto simp: stats_ok_def set_xs split: if_splits)
  ultimately show ?thesis by (simp add: kernel_inv_def)
qed

subsection \<open>The operations\<close>

lemma suspend_ok:
  assumes k: "kernel_inv k" and r: "rt_thread_suspend t k = Some (r, k')"
  shows "kernel_inv k'"
proof (cases "stat_of k t = RT_THREAD_READY \<or> stat_of k t = RT_THREAD_RUNNING")
  case True
  let ?f = "\<lambda>th. th\<lparr>stat := RT_THREAD_SUSPEND, thread_timer := None\<rparr>"
  have "k' = upd_thread t ?f (schedule_remove_thread t k)"
    using r True by (auto simp: rt_thread_suspend_def upd_thread_def split: if_splits)
  moreover have "thread_ok (?f (threads k t))"
    using kernel_invD(7) [OF k, of t] True by (auto simp: thread_ok_def)
  ultimately show ?thesis
    using inv_unlink [OF k, of t ?f] True by auto
next
  case False
  then show ?thesis using r k by (auto simp: rt_thread_suspend_def)
qed

text \<open>Suspending a ready thread, or the running thread by itself, always succeeds.\<close>

lemma suspend_self:
  assumes k: "kernel_inv k" and t: "stat_of k t = RT_THREAD_READY \<or> stat_of k t = RT_THREAD_RUNNING"
  shows "\<exists>k'. rt_thread_suspend t k = Some (RT_EOK, k') \<and> kernel_inv k' \<and>
    threads k' = (threads k)(t := (threads k t)\<lparr>stat := RT_THREAD_SUSPEND, thread_timer := None\<rparr>) \<and>
    (\<forall>q. linked k' q = removeAll t (linked k q)) \<and> current k' = current k \<and> lock_nest k' = lock_nest k"
proof -
  obtain k' where s: "rt_thread_suspend t k = Some (RT_EOK, k')"
    using t kernel_invD(6) [OF k, of t] by (auto simp: rt_thread_suspend_def)
  show ?thesis
    using s suspend_ok [OF k s] t
    by (auto simp: rt_thread_suspend_def fun_eq_iff split: if_splits)
qed

lemma resume_eq:
  assumes "stat_of k t = RT_THREAD_SUSPEND"
  shows "rt_thread_resume t k =
    (RT_EOK, schedule_insert_thread t (upd_thread t (thread_timer_update (\<lambda>_. None)) (list_remove t k)))"
  using assms by (simp add: rt_thread_resume_def)

lemma inv_unlist:
  assumes k: "kernel_inv k" and t: "stat_of k t = RT_THREAD_SUSPEND"
    and f: "\<And>th. stat (f th) = stat th \<and> current_priority (f th) = current_priority th \<and>
      number_mask (f th) = number_mask th \<and> init_priority (f th) = init_priority th"
  shows "kernel_inv (upd_thread t f (list_remove t k))" (is "kernel_inv ?k")
proof -
  have nr: "t \<notin> set (linked k (Ready p))" for p
    using mem_ready_iff [OF k] t by simp
  have e: "?k = upd_thread t f (schedule_remove_thread t k)"
  proof (cases "linked k (Ready (prio_of k t)) = []")
    case True
    then have "\<not> bit (ready_group k) (prio_of k t)"
      using kernel_invD(1) [OF k] by blast
    moreover have "number_mask (threads k t) = 2 ^ prio_of k t"
      using kernel_invD(7) [OF k, of t] t by (simp add: thread_ok_def)
    ultimately have "ready_group k AND NOT (number_mask (threads k t)) = ready_group k"
      by (auto intro!: bit_eqI simp: bit_simps bit_power_iff)
    then show ?thesis by (simp add: schedule_remove_thread_def Let_def)
  next
    case False
    then show ?thesis using nr [of "prio_of k t"]
      by (simp add: schedule_remove_thread_def Let_def removeAll_id)
  qed
  show ?thesis
    unfolding e using inv_unlink [OF k, of t f] t f kernel_invD(7) [OF k, of t]
    by (auto simp: thread_ok_def)
qed

lemma inv_insert_unlinked:
  assumes k: "kernel_inv k" and t: "stat_of k t = RT_THREAD_SUSPEND" "\<And>q. t \<notin> set (linked k q)"
  shows "kernel_inv (schedule_insert_thread t k)"
proof (cases "t = current k")
  case True
  have "bitmap_ok (schedule_insert_thread t k)" "links_ok (schedule_insert_thread t k)"
    using kernel_invD(1-3) [OF k] True by (auto simp: bitmap_ok_def links_ok_def schedule_insert_lists)
  moreover have "stats_ok (schedule_insert_thread t k)"
    using kernel_invD(4,6-9) [OF k] t True
    by (auto simp: stats_ok_def schedule_insert_lists thread_ok_def mem_ready_iff [OF k])
  ultimately show ?thesis by (simp add: kernel_inv_def)
next
  case False
  then show ?thesis using inv_make_ready [OF k] t by blast
qed

lemma resume_ok:
  assumes k: "kernel_inv k"
  shows "kernel_inv (snd (rt_thread_resume t k))"
proof (cases "stat_of k t = RT_THREAD_SUSPEND")
  case True
  have "kernel_inv (upd_thread t (thread_timer_update (\<lambda>_. None)) (list_remove t k))"
    by (rule inv_unlist [OF k True]) simp
  then show ?thesis
    unfolding resume_eq [OF True] snd_conv by (rule inv_insert_unlinked) (use True in auto)
qed (simp add: rt_thread_resume_def k)

subsection \<open>The scheduler\<close>

text \<open>Handing the processor over: \<open>t\<close> leaves its ready list and runs, the thread that had the
  processor is not running any more.\<close>

lemma inv_switch:
  assumes k: "kernel_inv k" and t: "stat_of k t = RT_THREAD_READY"
    and cur: "stat_of k (current k) \<noteq> RT_THREAD_RUNNING"
  shows "kernel_inv (upd_thread t (stat_update (\<lambda>_. RT_THREAD_RUNNING))
      (schedule_remove_thread t (k\<lparr>current := t\<rparr>)))" (is "kernel_inv ?k")
proof -
  let ?s = "upd_thread t (stat_update (\<lambda>_. RT_THREAD_SUSPEND)) (schedule_remove_thread t k)"
  have s: "kernel_inv ?s"
    using inv_unlink [OF k, of t "stat_update (\<lambda>_. RT_THREAD_SUSPEND)"] t kernel_invD(7) [OF k, of t]
    by (simp add: thread_ok_def)
  have eq: "linked ?k = linked ?s" "ready_group ?k = ready_group ?s"
    by (auto simp: schedule_remove_group fun_eq_iff)
  have "bitmap_ok ?k" "links_ok ?k"
    using s unfolding kernel_inv_def bitmap_ok_def links_ok_def eq by auto
  moreover have "stats_ok ?k"
    using kernel_invD(4,6-7) [OF k] cur t by (auto simp: stats_ok_def mem_ready_iff [OF k] thread_ok_def)
  ultimately show ?thesis by (simp add: kernel_inv_def)
qed

text \<open>The running thread goes back to the end of its ready list.\<close>

lemma inv_preempt:
  assumes k: "kernel_inv k" and cur: "stat_of k (current k) = RT_THREAD_RUNNING" and t: "t \<noteq> current k"
    and th: "stat_of k t = RT_THREAD_READY"
  shows "kernel_inv (upd_thread t (stat_update (\<lambda>_. RT_THREAD_RUNNING))
      (schedule_remove_thread t (schedule_insert_thread (current k) (k\<lparr>current := t\<rparr>))))" (is "kernel_inv ?k")
proof -
  let ?c = "current k"
  let ?k1 = "upd_thread ?c (stat_update (\<lambda>_. RT_THREAD_SUSPEND)) k"
  let ?k2 = "upd_thread t (stat_update (\<lambda>_. RT_THREAD_RUNNING)) (schedule_remove_thread t (?k1\<lparr>current := t\<rparr>))"
  have un: "?c \<notin> set (linked k q)" for q
    using running_unlinked [OF k, of ?c] cur by simp
  have mc: "number_mask (threads k ?c) = 2 ^ prio_of k ?c" and mt: "number_mask (threads k t) = 2 ^ prio_of k t"
    using kernel_invD(7) [OF k, of ?c] kernel_invD(7) [OF k, of t] th cur by (auto simp: thread_ok_def)
  have k1: "kernel_inv ?k1"
  proof -
    have "bitmap_ok ?k1" "links_ok ?k1"
      using kernel_invD(1-3) [OF k] unfolding bitmap_ok_def links_ok_def by auto
    moreover have "stats_ok ?k1"
      using kernel_invD(4,6-9) [OF k] un by (auto simp: stats_ok_def mem_ready_iff [OF k] thread_ok_def)
    ultimately show ?thesis by (simp add: kernel_inv_def)
  qed
  have k2: "kernel_inv ?k2"
    using inv_switch [OF k1, of t] t th by simp
  have k3: "kernel_inv (schedule_insert_thread ?c ?k2)"
    using t un by (intro inv_insert_unlinked [OF k2]) simp_all
  have g: "ready_group ?k = ready_group (schedule_insert_thread ?c ?k2)"
  proof (cases "prio_of k ?c = prio_of k t")
    case True
    have "removeAll t (linked k (Ready (prio_of k t)) @ [?c]) \<noteq> []" using t by simp
    then show ?thesis
      using t True mc mt by (auto intro!: bit_eqI simp: schedule_insert_lists schedule_remove_group bit_simps)
  next
    case False
    then show ?thesis
      using t mc mt
      by (auto intro!: bit_eqI simp: schedule_insert_lists schedule_remove_group bit_simps bit_power_iff)
  qed
  have "?k = schedule_insert_thread ?c ?k2"
    using t g by (intro kernel.equality) (auto simp: fun_eq_iff schedule_insert_lists)
  then show ?thesis using k3 by simp
qed

text \<open>The highest ready priority is the smallest number of a non-empty ready list.\<close>

lemma highest_ready:
  assumes k: "kernel_inv k" and g: "ready_group k \<noteq> 0"
  obtains t p where "get_highest_priority_thread k = Some (t, p)" and "stat_of k t = RT_THREAD_READY"
    and "prio_of k t = p" and "\<exists>ts. linked k (Ready p) = t # ts"
    and "\<And>u. stat_of k u = RT_THREAD_READY \<Longrightarrow> p \<le> prio_of k u"
proof -
  let ?p = "rt_ffs (ready_group k) - 1"
  have "linked k (Ready ?p) \<noteq> []"
    using rt_ffs_lowest(2) [OF g] kernel_invD(1) [OF k] by blast
  then obtain t ts where l: "linked k (Ready ?p) = t # ts" by (cases "linked k (Ready ?p)") auto
  show thesis
  proof (rule that)
    show "get_highest_priority_thread k = Some (t, ?p)"
      using l by (simp add: get_highest_priority_thread_def Let_def)
    show "stat_of k t = RT_THREAD_READY" "prio_of k t = ?p"
      using mem_ready_iff [OF k, of t ?p] l by auto
    show "\<exists>ts. linked k (Ready ?p) = t # ts" using l by simp
    fix u assume "stat_of k u = RT_THREAD_READY"
    then have "u \<in> set (linked k (Ready (prio_of k u)))" using mem_ready_iff [OF k] by blast
    then have "bit (ready_group k) (prio_of k u)" using kernel_invD(1) [OF k] by fastforce
    then show "?p \<le> prio_of k u" by (rule rt_ffs_lowest(3) [OF g])
  qed
qed

lemma group_zero: "kernel_inv k \<Longrightarrow> ready_group k = 0 \<Longrightarrow> stat_of k t \<noteq> RT_THREAD_READY"
  using kernel_invD(1) [of k "prio_of k t"] mem_ready_iff [of k t "prio_of k t"] by auto

lemma upd_running_id:
  assumes k: "kernel_inv k" and r: "stat_of k (current k) = RT_THREAD_RUNNING"
  shows "upd_thread (current k) (stat_update (\<lambda>_. RT_THREAD_RUNNING)) (schedule_remove_thread (current k) k) = k"
proof -
  let ?c = "current k"
  have nr: "removeAll ?c (linked k q) = linked k q" for q
    using running_unlinked [OF k, of ?c q] r by (intro removeAll_id) simp
  have "ready_group (schedule_remove_thread ?c k) = ready_group k"
  proof (cases "linked k (Ready (prio_of k ?c)) = []")
    case True
    then have "\<not> bit (ready_group k) (prio_of k ?c)" using kernel_invD(1) [OF k] by blast
    moreover have "number_mask (threads k ?c) = 2 ^ prio_of k ?c"
      using kernel_invD(7) [OF k, of ?c] r by (simp add: thread_ok_def)
    ultimately show ?thesis
      by (auto intro!: bit_eqI simp: schedule_remove_group bit_simps bit_power_iff)
  qed (simp add: schedule_remove_group nr)
  then show ?thesis
    using r by (intro kernel.equality) (auto simp: fun_eq_iff nr)
qed

text \<open>What one call of the scheduler does: nothing when it is locked, no thread is ready or the
  running thread keeps the processor, else a switch to the head of the best ready list.\<close>

lemma rt_schedule_cases:
  assumes k: "kernel_inv k"
  obtains
    (keep) "rt_schedule k = Some k"
      "lock_nest k = 0 \<Longrightarrow> (\<exists>t. stat_of k t = RT_THREAD_READY) \<Longrightarrow> stat_of k (current k) = RT_THREAD_RUNNING"
      "lock_nest k = 0 \<Longrightarrow> (\<And>u. stat_of k u = RT_THREAD_READY \<Longrightarrow>
         prio_of k (current k) < prio_of k u \<or> prio_of k (current k) = prio_of k u \<and> \<not> stat_yield (threads k (current k)))"
  | (switch) t k' where "rt_schedule k = Some k'" "lock_nest k = 0" "stat_of k (current k) \<noteq> RT_THREAD_RUNNING"
      "stat_of k t = RT_THREAD_READY" "\<And>u. stat_of k u = RT_THREAD_READY \<Longrightarrow> prio_of k t \<le> prio_of k u"
      "\<exists>ts. linked k (Ready (prio_of k t)) = t # ts"
      "k' = upd_thread t (stat_update (\<lambda>_. RT_THREAD_RUNNING)) (schedule_remove_thread t (k\<lparr>current := t\<rparr>))"
  | (preempt) t k' where "rt_schedule k = Some k'" "lock_nest k = 0" "stat_of k (current k) = RT_THREAD_RUNNING"
      "stat_of k t = RT_THREAD_READY" "\<And>u. stat_of k u = RT_THREAD_READY \<Longrightarrow> prio_of k t \<le> prio_of k u"
      "\<exists>ts. linked k (Ready (prio_of k t)) = t # ts"
      "prio_of k t < prio_of k (current k) \<or> prio_of k t = prio_of k (current k) \<and> stat_yield (threads k (current k))"
      "k' = upd_thread t (stat_update (\<lambda>_. RT_THREAD_RUNNING)) (schedule_remove_thread t
         (schedule_insert_thread (current k)
           ((upd_thread (current k) (stat_yield_update (\<lambda>_. False)) k)\<lparr>current := t\<rparr>)))"
proof (cases "lock_nest k \<noteq> 0 \<or> ready_group k = 0")
  case True
  then show thesis using keep group_zero [OF k] by (auto simp: rt_schedule_def)
next
  case False
  then have lock: "lock_nest k = 0" and g: "ready_group k \<noteq> 0" by auto
  obtain t p where h: "get_highest_priority_thread k = Some (t, p)" and r: "stat_of k t = RT_THREAD_READY"
    and p: "prio_of k t = p" and l: "\<exists>ts. linked k (Ready p) = t # ts"
    and best: "\<And>u. stat_of k u = RT_THREAD_READY \<Longrightarrow> p \<le> prio_of k u"
    using highest_ready [OF k g] by blast
  have tc: "t \<noteq> current k" using r kernel_invD(8) [OF k] by auto
  show thesis
  proof (cases "stat_of k (current k) = RT_THREAD_RUNNING")
    case run: True
    show thesis
    proof (cases "prio_of k (current k) < p \<or> prio_of k (current k) = p \<and> \<not> stat_yield (threads k (current k))")
      case True
      then have "rt_schedule k = Some k"
        using lock g h run upd_running_id [OF k run] by (auto simp: rt_schedule_def Let_def)
      moreover have "prio_of k (current k) < prio_of k u \<or>
          prio_of k (current k) = prio_of k u \<and> \<not> stat_yield (threads k (current k))"
        if "stat_of k u = RT_THREAD_READY" for u
        using True best [OF that] by auto
      ultimately show thesis using keep run by blast
    next
      case no: False
      show thesis
        by (rule preempt [of _ t, OF _ lock run r _ _ _ refl])
          (use lock g h run no tc best p l in \<open>auto simp: rt_schedule_def Let_def\<close>)
    qed
  next
    case no: False
    show thesis
      by (rule switch [of _ t, OF _ lock no r _ _ refl])
        (use lock g h no tc best p l in \<open>auto simp: rt_schedule_def Let_def\<close>)
  qed
qed

text \<open>Updates of a thread that the invariant does not look at.\<close>

definition same_role :: "(thread \<Rightarrow> thread) \<Rightarrow> bool" where
  "same_role f \<longleftrightarrow> (\<forall>th. stat (f th) = stat th \<and> current_priority (f th) = current_priority th \<and>
     number_mask (f th) = number_mask th \<and> init_priority (f th) = init_priority th)"

lemma home_same_role: "same_role f \<Longrightarrow> home q (f th) = home q th"
  by (cases q) (auto simp: same_role_def)

lemma inv_upd:
  assumes k: "kernel_inv k" and f: "same_role f"
  shows "kernel_inv (upd_thread t f k)"
proof -
  have "bitmap_ok (upd_thread t f k)" "links_ok (upd_thread t f k)"
    using kernel_invD(1-3) [OF k] unfolding bitmap_ok_def links_ok_def by auto
  moreover have "stats_ok (upd_thread t f k)"
    using kernel_invD(4,6-9) [OF k] f mem_ready_iff [OF k]
    by (auto simp: stats_ok_def home_same_role [OF f]) (auto simp: same_role_def thread_ok_def)
  ultimately show ?thesis by (simp add: kernel_inv_def)
qed

lemma same_role_simps [simp]:
  "same_role (stat_yield_update g)" "same_role (thread_error_update h)" "same_role (thread_timer_update i)"
  "same_role (remaining_tick_update j)" "same_role (event_set_update e)" "same_role (event_info_update l)"
  by (simp_all add: same_role_def)

lemma schedule_ok:
  assumes k: "kernel_inv k"
  shows "\<exists>k'. rt_schedule k = Some k' \<and> kernel_inv k'"
proof (cases rule: rt_schedule_cases [OF k, case_names keep switch preempt])
  case keep
  then show ?thesis using k by blast
next
  case (switch t k')
  then show ?thesis using inv_switch [OF k switch(4,3)] by blast
next
  case (preempt t k')
  let ?k = "upd_thread (current k) (stat_yield_update (\<lambda>_. False)) k"
  have "kernel_inv ?k" by (rule inv_upd [OF k]) simp
  moreover have "t \<noteq> current k" using preempt(4) kernel_invD(8) [OF k] by auto
  ultimately have "kernel_inv (upd_thread t (stat_update (\<lambda>_. RT_THREAD_RUNNING))
      (schedule_remove_thread t (schedule_insert_thread (current ?k) (?k\<lparr>current := t\<rparr>))))"
    by (intro inv_preempt) (use preempt(3,4) in simp_all)
  then show ?thesis using preempt(1,8) by simp
qed

lemma schedule_inv: "kernel_inv k \<Longrightarrow> rt_schedule k = Some k' \<Longrightarrow> kernel_inv k'"
  using schedule_ok by fastforce

text \<open>The scheduler never changes what is not its own: priorities, errors, timers and the waiting
  lists stay, and only the states of the two threads it switches between change.\<close>

lemma schedule_frame:
  assumes k: "kernel_inv k" and s: "rt_schedule k = Some k'"
  shows "(\<forall>t. thread_error (threads k' t) = thread_error (threads k t) \<and> prio_of k' t = prio_of k t \<and>
      thread_timer (threads k' t) = thread_timer (threads k t) \<and>
      event_set (threads k' t) = event_set (threads k t) \<and> event_info (threads k' t) = event_info (threads k t) \<and>
      init_priority (threads k' t) = init_priority (threads k t) \<and>
      (stat_of k' t = RT_THREAD_SUSPEND \<longleftrightarrow> stat_of k t = RT_THREAD_SUSPEND)) \<and>
    lock_nest k' = lock_nest k \<and> (\<forall>q. (\<forall>p. q \<noteq> Ready p) \<longrightarrow> linked k' q = linked k q)"
proof -
  have nin: "removeAll u (linked k q) = linked k q" if "stat_of k u = RT_THREAD_READY" "\<forall>p. q \<noteq> Ready p" for u q
    using kernel_invD(4) [OF k, of u q] that by (intro removeAll_id) (cases q; auto)
  show ?thesis
  proof (cases rule: rt_schedule_cases [OF k, case_names keep switch preempt])
    case keep
    then show ?thesis using s by simp
  next
    case (switch t k'')
    have e: "k' = upd_thread t (stat_update (\<lambda>_. RT_THREAD_RUNNING)) (schedule_remove_thread t (k\<lparr>current := t\<rparr>))"
      using switch(1,7) s by simp
    show ?thesis unfolding e using switch(4) nin [of t] by simp
  next
    case (preempt t k'')
    have e: "k' = upd_thread t (stat_update (\<lambda>_. RT_THREAD_RUNNING)) (schedule_remove_thread t
         (schedule_insert_thread (current k)
           ((upd_thread (current k) (stat_yield_update (\<lambda>_. False)) k)\<lparr>current := t\<rparr>)))"
      using preempt(1,8) s by simp
    show ?thesis unfolding e using preempt(3,4) nin [of t] by (simp add: schedule_insert_lists)
  qed
qed

lemma schedule_frameD:
  assumes "kernel_inv k" and "rt_schedule k = Some k'"
  shows "thread_error (threads k' t) = thread_error (threads k t)" and "prio_of k' t = prio_of k t"
    and "thread_timer (threads k' t) = thread_timer (threads k t)"
    and "event_set (threads k' t) = event_set (threads k t)" and "event_info (threads k' t) = event_info (threads k t)"
    and "init_priority (threads k' t) = init_priority (threads k t)"
    and "lock_nest k' = lock_nest k" and "stat_of k' t = RT_THREAD_SUSPEND \<longleftrightarrow> stat_of k t = RT_THREAD_SUSPEND"
    and "linked k' (Suspend i) = linked k (Suspend i)" and "linked k' (Sender i) = linked k (Sender i)"
  using schedule_frame [OF assms] by auto

lemma schedule_runnable:
  assumes k: "kernel_inv k" and s: "rt_schedule k = Some k'"
  shows "stat_of k' t \<in> {RT_THREAD_READY, RT_THREAD_RUNNING} \<longleftrightarrow> stat_of k t \<in> {RT_THREAD_READY, RT_THREAD_RUNNING}"
proof (cases rule: rt_schedule_cases [OF k, case_names keep switch preempt])
  case keep
  then show ?thesis using s by simp
next
  case (switch u k'')
  have e: "k' = upd_thread u (stat_update (\<lambda>_. RT_THREAD_RUNNING)) (schedule_remove_thread u (k\<lparr>current := u\<rparr>))"
    using switch(1,7) s by simp
  show ?thesis unfolding e using switch(4) by simp
next
  case (preempt u k'')
  have e: "k' = upd_thread u (stat_update (\<lambda>_. RT_THREAD_RUNNING)) (schedule_remove_thread u
       (schedule_insert_thread (current k)
         ((upd_thread (current k) (stat_yield_update (\<lambda>_. False)) k)\<lparr>current := u\<rparr>)))"
    using preempt(1,8) s by simp
  show ?thesis unfolding e using preempt(3,4) by simp
qed

text \<open>After an unlocked call no ready thread is better than the one that runs.\<close>

lemma schedule_best:
  assumes k: "kernel_inv k" and s: "rt_schedule k = Some k'" and l: "lock_nest k = 0"
    and some: "stat_of k (current k) = RT_THREAD_RUNNING \<or> stat_of k u = RT_THREAD_READY"
  shows "stat_of k' (current k') = RT_THREAD_RUNNING \<and>
    (\<forall>t. stat_of k' t = RT_THREAD_READY \<longrightarrow> prio_of k' (current k') \<le> prio_of k' t)"
proof (cases rule: rt_schedule_cases [OF k, case_names keep switch preempt])
  case keep
  then have "stat_of k (current k) = RT_THREAD_RUNNING" using some l by blast
  with keep(3) [OF l] keep(1) s show ?thesis by fastforce
next
  case (switch t k'')
  then show ?thesis using s by auto
next
  case (preempt t k'')
  then show ?thesis using s by (auto simp: less_imp_le)
qed

subsection \<open>Waiting lists\<close>

lemma insert_prio_mset [simp]: "mset (insert_prio pr t ts) = add_mset t (mset ts)"
  by (induction ts) auto

lemma insert_prio_set [simp]: "set (insert_prio pr t ts) = insert t (set ts)"
  by (induction ts) auto

lemma insert_prio_sorted: "sorted (map pr ts) \<Longrightarrow> sorted (map pr (insert_prio pr t ts))"
  by (induction ts) (auto intro: less_imp_le)

text \<open>Equal priorities keep their order of arrival: the newcomer goes behind every waiter that is
  not strictly worse.\<close>

lemma insert_prio_split:
  "insert_prio pr t ts = takeWhile (\<lambda>s. pr s \<le> pr t) ts @ t # dropWhile (\<lambda>s. pr s \<le> pr t) ts"
  by (induction ts) auto

definition enqueued :: "nat \<Rightarrow> (tid \<Rightarrow> nat) \<Rightarrow> tid \<Rightarrow> tid list \<Rightarrow> tid list" where
  "enqueued flag pr t ts = (if flag = RT_IPC_FLAG_FIFO then ts @ [t] else insert_prio pr t ts)"

lemma ipc_list_suspend_ok:
  assumes k: "kernel_inv k" and q: "q = Suspend i \<or> q = Sender i" and flag: "flag \<le> 1"
    and t: "stat_of k t = RT_THREAD_RUNNING \<or> stat_of k t = RT_THREAD_READY"
  shows "\<exists>k'. ipc_list_suspend q t flag k = Some k' \<and> kernel_inv k' \<and>
    threads k' = (threads k)(t := (threads k t)\<lparr>stat := RT_THREAD_SUSPEND, thread_timer := None\<rparr>) \<and>
    linked k' q = enqueued flag (prio_of k) t (linked k q) \<and>
    (\<forall>q'. q' \<noteq> q \<longrightarrow> linked k' q' = removeAll t (linked k q')) \<and>
    current k' = current k \<and> lock_nest k' = lock_nest k"
proof -
  obtain k1 where s: "rt_thread_suspend t k = Some (RT_EOK, k1)" and k1: "kernel_inv k1"
    and th: "threads k1 = (threads k)(t := (threads k t)\<lparr>stat := RT_THREAD_SUSPEND, thread_timer := None\<rparr>)"
    and ln: "\<And>q. linked k1 q = removeAll t (linked k q)" and c: "current k1 = current k" "lock_nest k1 = lock_nest k"
    using suspend_self [OF k, of t] t by blast
  have un: "t \<notin> set (linked k1 q')" for q' by (simp add: ln)
  have "t \<notin> set (linked k q)" using kernel_invD(4) [OF k, of t q] t q by auto
  then have same: "linked k1 q = linked k q" by (simp add: ln removeAll_id)
  have pr: "prio_of k1 = prio_of k" by (auto simp: th)
  have e: "ipc_list_suspend q t flag k = Some (k1\<lparr>linked := (linked k1)(q := enqueued flag (prio_of k) t (linked k q))\<rparr>)"
    using flag s by (auto simp: ipc_list_suspend_def list_append_def enqueued_def same pr)
  have "kernel_inv (k1\<lparr>linked := (linked k1)(q := enqueued flag (prio_of k) t (linked k q))\<rparr>)"
    by (rule inv_link_wait [OF k1 un _ q]) (auto simp: th enqueued_def same)
  then show ?thesis using e by (auto simp: th ln c)
qed

lemma suspended_in:
  assumes "kernel_inv k" and "q = Suspend i \<or> q = Sender i" and "t \<in> set (linked k q)"
  shows "stat_of k t = RT_THREAD_SUSPEND"
  using kernel_invD(4) [OF assms(1,3)] assms(2) by auto

text \<open>Resuming the head: it becomes ready (the running thread becomes running again) and leaves
  the waiting list; every other waiting list is as before.\<close>

lemma resume_head:
  assumes k: "kernel_inv k" and q: "q = Suspend i \<or> q = Sender i" and l: "linked k q = t # ts"
  shows "\<exists>k'. ipc_list_resume q k = Some k' \<and> rt_thread_resume t k = (RT_EOK, k') \<and> kernel_inv k' \<and> linked k' q = ts \<and>
    (\<forall>q'. q' \<noteq> q \<longrightarrow> (\<forall>p. q' \<noteq> Ready p) \<longrightarrow> linked k' q' = linked k q') \<and>
    threads k' = (threads k)(t := (threads k t)\<lparr>thread_timer := None,
      stat := if t = current k then RT_THREAD_RUNNING else RT_THREAD_READY\<rparr>) \<and>
    current k' = current k \<and> lock_nest k' = lock_nest k"
proof -
  have s: "stat_of k t = RT_THREAD_SUSPEND" using suspended_in [OF k q] l by simp
  let ?k = "snd (rt_thread_resume t k)"
  have "t \<notin> set ts" using kernel_invD(2) [OF k, of q] l by simp
  then have "linked ?k q = ts"
    using l q by (auto simp: resume_eq [OF s] schedule_insert_lists removeAll_id)
  moreover have "linked ?k q' = linked k q'" if "q' \<noteq> q" "\<forall>p. q' \<noteq> Ready p" for q'
  proof -
    have "t \<notin> set (linked k q')" using kernel_invD(3) [OF k, of t q q'] l that(1) by auto
    then show ?thesis using that(2) by (simp add: resume_eq [OF s] schedule_insert_lists removeAll_id)
  qed
  ultimately show ?thesis
    using resume_ok [OF k, of t] l by (auto simp: ipc_list_resume_def resume_eq [OF s])
qed

text \<open>The same for a waiter anywhere in the list.\<close>

lemma resume_member:
  assumes k: "kernel_inv k" and q: "q = Suspend i \<or> q = Sender i" and t: "t \<in> set (linked k q)"
  shows "\<exists>k'. rt_thread_resume t k = (RT_EOK, k') \<and> kernel_inv k' \<and> linked k' q = removeAll t (linked k q) \<and>
    (\<forall>q'. q' \<noteq> q \<longrightarrow> (\<forall>p. q' \<noteq> Ready p) \<longrightarrow> linked k' q' = linked k q') \<and>
    threads k' = (threads k)(t := (threads k t)\<lparr>thread_timer := None,
      stat := if t = current k then RT_THREAD_RUNNING else RT_THREAD_READY\<rparr>) \<and>
    current k' = current k \<and> lock_nest k' = lock_nest k"
proof -
  have s: "stat_of k t = RT_THREAD_SUSPEND" using suspended_in [OF k q t] .
  have "linked (snd (rt_thread_resume t k)) q' = linked k q'" if "q' \<noteq> q" "\<forall>p. q' \<noteq> Ready p" for q'
  proof -
    have "t \<notin> set (linked k q')" using kernel_invD(3) [OF k, of t q q'] t that(1) by auto
    then show ?thesis using that(2) by (simp add: resume_eq [OF s] schedule_insert_lists removeAll_id)
  qed
  then show ?thesis
    using resume_ok [OF k, of t] q by (auto simp: resume_eq [OF s] schedule_insert_lists)
qed

text \<open>Waking every waiter returns, empties the list and leaves \<open>-RT_ERROR\<close> with each of them.\<close>

lemma ipc_list_resume_all_ok:
  assumes "kernel_inv k" and "q = Suspend i \<or> q = Sender i"
  shows "\<exists>k'. ipc_list_resume_all q k = Some k' \<and> kernel_inv k' \<and> linked k' q = [] \<and>
    (\<forall>q'. q' \<noteq> q \<longrightarrow> (\<forall>p. q' \<noteq> Ready p) \<longrightarrow> linked k' q' = linked k q') \<and>
    current k' = current k \<and> lock_nest k' = lock_nest k \<and>
    (\<forall>t. threads k' t = (if t \<in> set (linked k q)
       then (threads k t)\<lparr>thread_error := - RT_ERROR, thread_timer := None,
                           stat := if t = current k then RT_THREAD_RUNNING else RT_THREAD_READY\<rparr>
       else threads k t))"
  using assms(1)
proof (induction "linked k q" arbitrary: k)
  case Nil
  then show ?case by (subst ipc_list_resume_all.simps) simp
next
  case (Cons t ts)
  let ?k1 = "upd_thread t (thread_error_update (\<lambda>_. - RT_ERROR)) k"
  have k1: "kernel_inv ?k1" by (rule inv_upd [OF Cons.prems]) simp
  obtain k2 where r: "rt_thread_resume t ?k1 = (RT_EOK, k2)" and k2: "kernel_inv k2" and l2: "linked k2 q = ts"
    and o2: "\<And>q'. q' \<noteq> q \<Longrightarrow> (\<forall>p. q' \<noteq> Ready p) \<Longrightarrow> linked k2 q' = linked k q'"
    and t2: "threads k2 = (threads ?k1)(t := (threads ?k1 t)\<lparr>thread_timer := None,
      stat := if t = current k then RT_THREAD_RUNNING else RT_THREAD_READY\<rparr>)"
    and c2: "current k2 = current k" "lock_nest k2 = lock_nest k"
    using resume_head [OF k1 assms(2), of t ts] Cons.hyps(2) by auto
  have nt: "t \<notin> set ts" using kernel_invD(2) [OF Cons.prems, of q] Cons.hyps(2) by (metis distinct.simps(2))
  have e: "ipc_list_resume_all q k = ipc_list_resume_all q k2"
    using r by (subst ipc_list_resume_all.simps) (simp add: Cons.hyps(2) [symmetric])
  have ts: "set (linked k q) = insert t (set ts)" using Cons.hyps(2) by (metis list.simps(15))
  obtain k' where k': "ipc_list_resume_all q k2 = Some k'" "kernel_inv k'" "linked k' q = []"
    "\<And>q'. q' \<noteq> q \<Longrightarrow> (\<forall>p. q' \<noteq> Ready p) \<Longrightarrow> linked k' q' = linked k2 q'"
    "current k' = current k2" "lock_nest k' = lock_nest k2"
    and th': "\<And>u. threads k' u = (if u \<in> set (linked k2 q)
       then (threads k2 u)\<lparr>thread_error := - RT_ERROR, thread_timer := None,
                            stat := if u = current k2 then RT_THREAD_RUNNING else RT_THREAD_READY\<rparr>
       else threads k2 u)"
    using Cons.hyps(1) [OF l2 [symmetric] k2] by blast
  have "threads k' u = (if u \<in> set (linked k q)
       then (threads k u)\<lparr>thread_error := - RT_ERROR, thread_timer := None,
                           stat := if u = current k then RT_THREAD_RUNNING else RT_THREAD_READY\<rparr>
       else threads k u)" for u
    unfolding th' ts l2 c2 using nt by (cases "u = t") (auto simp: t2)
  then show ?case using e k' o2 c2 by auto
qed

subsection \<open>The other operations\<close>

lemma timeout_ok:
  assumes k: "kernel_inv k" and t: "stat_of k t = RT_THREAD_SUSPEND"
  shows "\<exists>k'. rt_thread_timeout t k = Some k' \<and> kernel_inv k'"
proof -
  have "kernel_inv (upd_thread t (thread_error_update (\<lambda>_. - RT_ETIMEOUT)) (list_remove t k))"
    by (rule inv_unlist [OF k t]) simp
  moreover have "upd_thread t (thread_error_update (\<lambda>_. - RT_ETIMEOUT)) (list_remove t k) =
      list_remove t (upd_thread t (thread_error_update (\<lambda>_. - RT_ETIMEOUT)) k)"
    by (simp add: upd_thread_def list_remove_def)
  ultimately have "kernel_inv (schedule_insert_thread t (list_remove t
      (upd_thread t (thread_error_update (\<lambda>_. - RT_ETIMEOUT)) k)))"
    using t by (intro inv_insert_unlinked) auto
  from schedule_ok [OF this] show ?thesis using t by (simp add: rt_thread_timeout_def)
qed

lemma set_priority_ok:
  assumes k: "kernel_inv k" and p: "p < 32" and s: "stat_of k t \<noteq> RT_THREAD_READY"
  shows "kernel_inv (upd_thread t (set_priority p) k)"
proof -
  have h: "home q (threads k t) \<Longrightarrow> home q (set_priority p (threads k t))" for q
    using s by (cases q) (auto simp: set_priority_def)
  have "bitmap_ok (upd_thread t (set_priority p) k)" "links_ok (upd_thread t (set_priority p) k)"
    using kernel_invD(1-3) [OF k] unfolding bitmap_ok_def links_ok_def by auto
  moreover have "stats_ok (upd_thread t (set_priority p) k)"
    using kernel_invD(4,6-9) [OF k] s p mem_ready_iff [OF k]
    by (auto simp: stats_ok_def h) (auto simp: thread_ok_def set_priority_def)
  ultimately show ?thesis by (simp add: kernel_inv_def)
qed

lemma change_priority_ok:
  assumes k: "kernel_inv k" and p: "p < 32"
  shows "kernel_inv (rt_thread_change_priority t p k)"
proof (cases "stat_of k t = RT_THREAD_READY")
  case True
  let ?s = "upd_thread t (stat_update (\<lambda>_. RT_THREAD_SUSPEND)) (schedule_remove_thread t k)"
  have "kernel_inv ?s"
    using inv_unlink [OF k, of t "stat_update (\<lambda>_. RT_THREAD_SUSPEND)"] True kernel_invD(7) [OF k, of t]
    by (simp add: thread_ok_def)
  then have "kernel_inv (upd_thread t (set_priority p) ?s)"
    by (rule set_priority_ok [OF _ p]) simp
  then have "kernel_inv (schedule_insert_thread t (upd_thread t (set_priority p) ?s))"
    by (rule inv_insert_unlinked) (simp_all add: set_priority_def)
  moreover have "schedule_insert_thread t (upd_thread t (set_priority p) ?s) =
      schedule_insert_thread t (upd_thread t (set_priority p) (schedule_remove_thread t k))"
    by (intro kernel.equality) (auto simp: schedule_insert_lists set_priority_def fun_eq_iff)
  ultimately show ?thesis using True by (simp add: rt_thread_change_priority_def)
next
  case False
  then show ?thesis using set_priority_ok [OF k p False] by (simp add: rt_thread_change_priority_def)
qed

lemma inv_defunct:
  assumes k: "kernel_inv k" and t: "stat_of k t = RT_THREAD_CLOSE" "\<And>q. t \<notin> set (linked k q)"
  shows "kernel_inv (k\<lparr>linked := (linked k)(Defunct := t # linked k Defunct)\<rparr>)" (is "kernel_inv ?k")
proof -
  have "bitmap_ok ?k" "links_ok ?k"
    using kernel_invD(1-3) [OF k] t unfolding bitmap_ok_def links_ok_def by auto
  moreover have "stats_ok ?k"
    using kernel_invD(4,6-9) [OF k] kernel_invD(4) [OF k, of _ Defunct] t mem_ready_iff [OF k]
    by (auto simp: stats_ok_def)
  ultimately show ?thesis by (simp add: kernel_inv_def)
qed

lemma inv_close:
  assumes k: "kernel_inv k" and t: "stat_of k t \<noteq> RT_THREAD_INIT"
  shows "kernel_inv (let k1 = upd_thread t closed (schedule_remove_thread t k)
    in k1\<lparr>linked := (linked k1)(Defunct := t # linked k1 Defunct)\<rparr>)"
proof -
  have "kernel_inv (upd_thread t closed (schedule_remove_thread t k))"
    using inv_unlink [OF k t, of closed] t kernel_invD(7) [OF k, of t] by (simp add: closed_def thread_ok_def)
  from inv_defunct [OF this, of t] show ?thesis by (simp add: closed_def Let_def)
qed

lemma delete_ok:
  assumes k: "kernel_inv k" and t: "stat_of k t \<noteq> RT_THREAD_INIT"
  shows "kernel_inv (snd (rt_thread_delete t k))"
  using inv_close [OF assms] k t by (simp add: rt_thread_delete_def Let_def)

lemma exit_ok:
  assumes k: "kernel_inv k"
  shows "\<exists>k'. rt_thread_exit k = Some k' \<and> kernel_inv k'"
  using schedule_ok [OF inv_close [OF k kernel_invD(9) [OF k]]]
  by (simp add: rt_thread_exit_def Let_def)

lemma startup_ok:
  assumes k: "kernel_inv k" and t: "stat_of k t = RT_THREAD_INIT"
  shows "\<exists>k'. rt_thread_startup t k = Some (RT_EOK, k') \<and> kernel_inv k'"
proof -
  let ?f = "\<lambda>th. th\<lparr>current_priority := init_priority th, number_mask := push_bit (init_priority th) 1,
                   stat := RT_THREAD_SUSPEND, stat_yield := False\<rparr>"
  have un: "t \<notin> set (linked k q)" for q using running_unlinked [OF k] t by simp
  have "bitmap_ok (upd_thread t ?f k)" "links_ok (upd_thread t ?f k)"
    using kernel_invD(1-3) [OF k] unfolding bitmap_ok_def links_ok_def by auto
  moreover have "stats_ok (upd_thread t ?f k)"
    using kernel_invD(4,6-9) [OF k] un t mem_ready_iff [OF k] by (auto simp: stats_ok_def thread_ok_def)
  ultimately have "kernel_inv (upd_thread t ?f k)" by (simp add: kernel_inv_def)
  from schedule_ok [OF resume_ok [OF this, of t]] show ?thesis
    using t by (auto simp: rt_thread_startup_def Let_def)
qed

lemma start_timer_ok: "kernel_inv k \<Longrightarrow> start_timer t n k = Some k' \<Longrightarrow> kernel_inv k'"
  by (auto simp: start_timer_def inv_upd split: if_splits)

lemma sleep_ok:
  assumes k: "kernel_inv k" and c: "stat_of k (current k) = RT_THREAD_RUNNING" and n: "tick < 2147483647"
  shows "\<exists>k'. rt_thread_sleep tick k = Some k' \<and> kernel_inv k'"
proof -
  obtain k1 where s: "rt_thread_suspend (current k) k = Some (RT_EOK, k1)" and k1: "kernel_inv k1"
    using suspend_self [OF k, of "current k"] c by blast
  obtain k2 where t: "start_timer (current k) tick k1 = Some k2" using n by (simp add: start_timer_def)
  from schedule_ok [OF start_timer_ok [OF k1 t]] show ?thesis using s t by (simp add: rt_thread_sleep_def)
qed

lemma tick_ok:
  assumes k: "kernel_inv k"
  shows "\<exists>k'. tick_slice k = Some k' \<and> kernel_inv k'"
proof -
  let ?f = "\<lambda>th. th\<lparr>remaining_tick := (remaining_tick th + 2 ^ 32 - 1) mod 2 ^ 32\<rparr>"
  have 1: "kernel_inv (upd_thread (current k) ?f k)" by (rule inv_upd [OF k]) (simp add: same_role_def)
  have 2: "kernel_inv (upd_thread (current k) (\<lambda>th. th\<lparr>remaining_tick := init_tick th, stat_yield := True\<rparr>)
      (upd_thread (current k) ?f k))"
    by (rule inv_upd [OF 1]) (simp add: same_role_def)
  show ?thesis unfolding tick_slice_def Let_def using schedule_ok [OF 2] 1 by auto
qed

lemma inv_lock: "kernel_inv k \<Longrightarrow> kernel_inv (k\<lparr>lock_nest := n\<rparr>)"
  by (simp add: kernel_inv_def bitmap_ok_def links_ok_def stats_ok_def)

lemma exit_critical_ok: "kernel_inv k \<Longrightarrow> \<exists>k'. rt_exit_critical k = Some k' \<and> kernel_inv k'"
  using schedule_ok [OF inv_lock, of k 0] by (auto simp: rt_exit_critical_def inv_lock)

section \<open>The kernel as a transition system\<close>

text \<open>The calls a thread or an interrupt can make at any moment, each with the condition its
  caller must meet; waiting lists are those of any object.\<close>

inductive kernel_step :: "kernel \<Rightarrow> kernel \<Rightarrow> bool" where
  startup: "rt_thread_startup t k = Some (r, k') \<Longrightarrow> kernel_step k k'"
| suspend: "rt_thread_suspend t k = Some (r, k') \<Longrightarrow> kernel_step k k'"
| resume: "kernel_step k (snd (rt_thread_resume t k))"
| timeout: "rt_thread_timeout t k = Some k' \<Longrightarrow> kernel_step k k'"
| sleep: "rt_thread_sleep tick k = Some k' \<Longrightarrow> stat_of k (current k) = RT_THREAD_RUNNING \<Longrightarrow> kernel_step k k'"
| reschedule: "rt_schedule k = Some k' \<Longrightarrow> kernel_step k k'"
| tick: "tick_slice k = Some k' \<Longrightarrow> kernel_step k k'"
| change_priority: "p < 32 \<Longrightarrow> kernel_step k (rt_thread_change_priority t p k)"
| delete: "stat_of k t \<noteq> RT_THREAD_INIT \<Longrightarrow> kernel_step k (snd (rt_thread_delete t k))"
| exit: "rt_thread_exit k = Some k' \<Longrightarrow> kernel_step k k'"
| enter: "kernel_step k (rt_enter_critical k)"
| leave: "rt_exit_critical k = Some k' \<Longrightarrow> kernel_step k k'"
| wait: "ipc_list_suspend q (current k) flag k = Some k' \<Longrightarrow> flag \<le> 1 \<Longrightarrow> q = Suspend i \<or> q = Sender i \<Longrightarrow>
    stat_of k (current k) = RT_THREAD_RUNNING \<Longrightarrow> kernel_step k k'"
| wake: "ipc_list_resume q k = Some k' \<Longrightarrow> kernel_step k k'"
| wake_all: "ipc_list_resume_all q k = Some k' \<Longrightarrow> q = Suspend i \<or> q = Sender i \<Longrightarrow> kernel_step k k'"

lemma kernel_step_inv:
  assumes "kernel_step k k'" and k: "kernel_inv k"
  shows "kernel_inv k'"
  using assms
proof (cases rule: kernel_step.cases)
  case (startup t r)
  then show ?thesis using startup_ok [OF k, of t] by (auto simp: rt_thread_startup_def split: if_splits)
next
  case (timeout t)
  then show ?thesis using timeout_ok [OF k, of t] by (auto simp: rt_thread_timeout_def split: if_splits)
next
  case (sleep tick)
  then have "tick < 2147483647"
    by (auto simp: rt_thread_sleep_def start_timer_def bind_eq_Some_conv split: if_splits)
  then show ?thesis using sleep_ok [OF k, of tick] sleep by auto
next
  case (wait q flag i)
  then show ?thesis using ipc_list_suspend_ok [OF k, of q i flag "current k"] by auto
next
  case (wake q)
  then show ?thesis using resume_ok [OF k] by (auto simp: ipc_list_resume_def split: list.splits)
next
  case (wake_all q i)
  then show ?thesis using ipc_list_resume_all_ok [OF k, of q i] by auto
qed (use k suspend_ok resume_ok schedule_ok tick_ok change_priority_ok delete_ok exit_ok exit_critical_ok
      in \<open>fastforce simp: rt_enter_critical_def inv_lock\<close>)+

section \<open>A running system\<close>

text \<open>After boot: the idle thread (0) is ready at the lowest priority, the main thread (1) runs at
  \<open>RT_MAIN_THREAD_PRIORITY\<close>, and every other thread waits to be started.\<close>

definition new_thread :: "nat \<Rightarrow> nat \<Rightarrow> thread" where
  "new_thread priority ticks =
     \<lparr>current_priority = priority, init_priority = priority, number_mask = 0, stat = RT_THREAD_INIT,
      stat_yield = False, thread_error = RT_EOK, thread_timer = None, init_tick = ticks,
      remaining_tick = ticks, event_set = 0, event_info = 0\<rparr>"

definition boot_kernel :: "(tid \<Rightarrow> nat) \<Rightarrow> kernel" where
  "boot_kernel pr =
     \<lparr>threads = (\<lambda>t. if t = 0 then (new_thread 31 32)\<lparr>stat := RT_THREAD_READY, number_mask := push_bit 31 1\<rparr>
                     else if t = 1 then (new_thread 10 20)\<lparr>stat := RT_THREAD_RUNNING, number_mask := push_bit 10 1\<rparr>
                     else new_thread (pr t) 10),
      linked = (\<lambda>q. if q = Ready 31 then [0] else []),
      ready_group = push_bit 31 1, current = 1, lock_nest = 0\<rparr>"

lemma boot_group: "bit (ready_group (boot_kernel pr)) p \<longleftrightarrow> p = 31"
proof -
  have "ready_group (boot_kernel pr) = push_bit 31 1" unfolding boot_kernel_def by (simp only: kernel.simps)
  then show ?thesis using bit_power_iff [of 31 p] by (simp only: push_bit_of_1) auto
qed

lemma boot_kernel_inv:
  assumes "\<forall>t. pr t < 32"
  shows "kernel_inv (boot_kernel pr)"
proof -
  have "bitmap_ok (boot_kernel pr)"
    unfolding bitmap_ok_def boot_group by (simp add: boot_kernel_def)
  moreover have "links_ok (boot_kernel pr)" by (auto simp: links_ok_def boot_kernel_def)
  moreover have "stats_ok (boot_kernel pr)"
    using assms by (auto simp: stats_ok_def boot_kernel_def thread_ok_def new_thread_def)
  ultimately show ?thesis by (simp add: kernel_inv_def)
qed

section \<open>Properties\<close>

text \<open>Property C14. Every state the kernel reaches from boot, by any sequence of calls and interrupts,
  has its lists and states in order: the bitmap has exactly the bits of the non-empty ready
  lists, a thread is linked at most once and into the list its state calls for, every ready
  thread is in the ready list of its priority, and only the current thread is running.\<close>

theorem kernel_reachable:
  assumes "\<forall>t. pr t < 32" and "kernel_step\<^sup>*\<^sup>* (boot_kernel pr) k"
  shows "(\<forall>p. bit (ready_group k) p \<longleftrightarrow> linked k (Ready p) \<noteq> []) \<and>
    (\<forall>q q' t. t \<in> set (linked k q) \<longrightarrow> t \<in> set (linked k q') \<longrightarrow> q' = q) \<and> (\<forall>q. distinct (linked k q)) \<and>
    (\<forall>p t. t \<in> set (linked k (Ready p)) \<longleftrightarrow> stat_of k t = RT_THREAD_READY \<and> prio_of k t = p) \<and>
    (\<forall>i t. t \<in> set (linked k (Suspend i)) \<union> set (linked k (Sender i)) \<longrightarrow> stat_of k t = RT_THREAD_SUSPEND) \<and>
    (\<forall>t. stat_of k t = RT_THREAD_RUNNING \<longrightarrow> t = current k)"
proof -
  have k: "kernel_inv k"
    using assms(2) by (induction rule: rtranclp_induct) (use boot_kernel_inv [OF assms(1)] kernel_step_inv in blast)+
  show ?thesis
    using kernel_invD(1-3,6) [OF k] mem_ready_iff [OF k] suspended_in [OF k] by (intro conjI allI) blast+
qed

lemma boot_sleep:
  "rt_thread_sleep 5 (boot_kernel (\<lambda>_. 25)) = Some k \<Longrightarrow> kernel_step\<^sup>*\<^sup>* (boot_kernel (\<lambda>_. 25)) k"
  by (rule r_into_rtranclp, rule kernel_step.sleep) (simp_all add: boot_kernel_def)

theorem kernel_reachable_witness:
  "\<exists>k. rt_thread_sleep 5 (boot_kernel (\<lambda>_. 25)) = Some k \<and> (\<forall>t. stat_of k t = RT_THREAD_RUNNING \<longrightarrow> t = current k)"
proof -
  obtain k where k: "rt_thread_sleep 5 (boot_kernel (\<lambda>_. 25)) = Some k"
    using sleep_ok [OF boot_kernel_inv [of "\<lambda>_. 25"], of 5] by (auto simp: boot_kernel_def)
  then show ?thesis using kernel_reachable [OF _ boot_sleep [OF k]] by auto
qed

text \<open>Property C15. The scheduler is total on such states and right: unlocked, with a thread that can
  run, it leaves a running thread that no ready thread beats; it keeps every thread's priority
  and every waiting list, and hands the processor to a thread that was not suspended.\<close>

theorem scheduler_runs_best:
  assumes "kernel_inv k"
  shows "\<exists>k'. rt_schedule k = Some k' \<and> kernel_inv k' \<and>
    (lock_nest k = 0 \<longrightarrow> (\<exists>t. stat_of k t \<in> {RT_THREAD_READY, RT_THREAD_RUNNING}) \<longrightarrow>
       stat_of k' (current k') = RT_THREAD_RUNNING \<and>
       (\<forall>t. stat_of k' t = RT_THREAD_READY \<longrightarrow> prio_of k' (current k') \<le> prio_of k' t)) \<and>
    (\<forall>t. prio_of k' t = prio_of k t \<and> (stat_of k' t = RT_THREAD_SUSPEND \<longleftrightarrow> stat_of k t = RT_THREAD_SUSPEND)) \<and>
    (\<forall>i. linked k' (Suspend i) = linked k (Suspend i) \<and> linked k' (Sender i) = linked k (Sender i))"
proof -
  obtain k' where k': "rt_schedule k = Some k'" "kernel_inv k'" using schedule_ok [OF assms] by blast
  show ?thesis
    using k' schedule_best [OF assms k'(1)] schedule_frame [OF assms k'(1)] kernel_invD(6) [OF assms] by auto
qed

theorem scheduler_runs_best_witness:
  "\<exists>k'. rt_schedule (boot_kernel (\<lambda>_. 25)) = Some k' \<and> stat_of k' (current k') = RT_THREAD_RUNNING"
proof -
  have "stat_of (boot_kernel (\<lambda>_. 25)) 0 = RT_THREAD_READY" "lock_nest (boot_kernel (\<lambda>_. 25)) = 0"
    by (simp_all add: boot_kernel_def)
  then show ?thesis using scheduler_runs_best [OF boot_kernel_inv [of "\<lambda>_. 25"]] by fastforce
qed

text \<open>\<open>rt_thread_yield\<close> does not yield: called by the running thread while no ready
  thread is strictly better, it changes nothing at all, even if threads of the same priority
  are ready, unless a tick interrupt has just ended the caller's time slice.\<close>

theorem yield_keeps_processor:
  assumes "kernel_inv k" and "stat_of k (current k) = RT_THREAD_RUNNING"
    and "\<not> stat_yield (threads k (current k))"
    and "\<forall>t. stat_of k t = RT_THREAD_READY \<longrightarrow> prio_of k (current k) \<le> prio_of k t"
  shows "rt_thread_yield k = Some (RT_EOK, k)"
proof (cases rule: rt_schedule_cases [OF assms(1), case_names keep switch preempt])
  case keep
  then show ?thesis by (simp add: rt_thread_yield_def)
next
  case (preempt t k')
  then show ?thesis using assms(3,4) by force
qed (use assms in auto)

text \<open>Two threads of priority 10, the second of them ready.\<close>

definition peer_kernel :: kernel where
  "peer_kernel = schedule_insert_thread 2 (upd_thread 2 (\<lambda>th. (set_priority 10 th)\<lparr>stat := RT_THREAD_SUSPEND\<rparr>)
     (boot_kernel (\<lambda>_. 10)))"

lemma peer_kernel_inv: "kernel_inv peer_kernel"
proof -
  let ?k = "upd_thread 2 (\<lambda>th. (set_priority 10 th)\<lparr>stat := RT_THREAD_SUSPEND\<rparr>) (boot_kernel (\<lambda>_. 10))"
  have b: "kernel_inv (boot_kernel (\<lambda>_. 10))" by (rule boot_kernel_inv) simp
  have "bitmap_ok ?k" "links_ok ?k"
    using kernel_invD(1-3) [OF b] unfolding bitmap_ok_def links_ok_def by auto
  moreover have "stats_ok ?k"
    by (auto simp: stats_ok_def boot_kernel_def thread_ok_def new_thread_def set_priority_def)
  ultimately have "kernel_inv ?k" by (simp add: kernel_inv_def)
  then show ?thesis
    unfolding peer_kernel_def by (rule inv_insert_unlinked) (simp_all add: boot_kernel_def)
qed

theorem yield_keeps_processor_witness:
  "stat_of peer_kernel 2 = RT_THREAD_READY \<and> prio_of peer_kernel 2 = prio_of peer_kernel (current peer_kernel) \<and>
   rt_thread_yield peer_kernel = Some (RT_EOK, peer_kernel)"
proof -
  have "rt_thread_yield peer_kernel = Some (RT_EOK, peer_kernel)"
    by (rule yield_keeps_processor [OF peer_kernel_inv])
      (auto simp: peer_kernel_def boot_kernel_def new_thread_def set_priority_def)
  then show ?thesis
    by (simp add: peer_kernel_def boot_kernel_def new_thread_def set_priority_def)
qed

text \<open>\<open>rt_thread_delay_until\<close> does not delay until \<open>*tick + inc_tick\<close>: called \<open>e\<close> ticks after
  \<open>*tick\<close> it sleeps \<open>inc_tick + e\<close> ticks instead of \<open>inc_tick - e\<close>, and so wakes twice \<open>e\<close> ticks
  after the time it was asked for.\<close>

theorem delay_until_oversleeps:
  assumes "kernel_inv k" and "stat_of k (current k) = RT_THREAD_RUNNING"
    and "now - tick < inc_tick" and "inc_tick < 0x40000000"
  shows "\<exists>k'. rt_thread_delay_until tick inc_tick now k = Some (inc_tick + (now - tick), k') \<and>
    thread_timer (threads k' (current k)) = Some (unat (inc_tick + (now - tick))) \<and>
    now + (inc_tick + (now - tick)) = (tick + inc_tick) + 2 * (now - tick)"
proof -
  obtain k1 where s: "rt_thread_suspend (current k) k = Some (RT_EOK, k1)" and k1: "kernel_inv k1"
    using suspend_self [OF assms(1), of "current k"] assms(2) by blast
  let ?k2 = "upd_thread (current k) (thread_timer_update (\<lambda>_. Some (unat (now - tick + inc_tick)))) k1"
  have k2: "kernel_inv ?k2" by (rule inv_upd [OF k1]) simp
  obtain k' where r: "rt_schedule ?k2 = Some k'" using schedule_ok [OF k2] by blast
  have "unat (now - tick) < unat inc_tick" "unat inc_tick < 0x40000000"
    using assms(3,4) by (simp_all add: word_less_nat_alt)
  then have "unat (now - tick + inc_tick) < 2147483647"
    by (subst unat_add_lem [THEN iffD1]) simp_all
  then have "rt_thread_delay_until tick inc_tick now k = Some (inc_tick + (now - tick), k')"
    using s r assms(3) by (simp add: rt_thread_delay_until_def start_timer_def add.commute)
  moreover have "thread_timer (threads k' (current k)) = Some (unat (inc_tick + (now - tick)))"
    using schedule_frameD(3) [OF k2 r, of "current k"] by (simp add: add.commute)
  ultimately show ?thesis by (auto simp: algebra_simps)
qed

theorem delay_until_oversleeps_witness:
  "\<exists>k'. rt_thread_delay_until 100 50 130 (boot_kernel (\<lambda>_. 25)) = Some (80, k')"
proof -
  have "stat_of (boot_kernel (\<lambda>_. 25)) (current (boot_kernel (\<lambda>_. 25))) = RT_THREAD_RUNNING"
    by (simp add: boot_kernel_def)
  from delay_until_oversleeps [OF boot_kernel_inv [of "\<lambda>_. 25"] this, of 130 100 50] show ?thesis by auto
qed

end
