(* ===== verification/Timer.thy ===== *)
theory Timer
  imports Kernel
begin

text \<open>
  Software timers: \<open>rt-thread/src/timer.c\<close> and \<open>rt_tick_increase\<close> of \<open>clock.c\<close>, with one level of
  skip list (\<open>RT_TIMER_SKIP_LIST_LEVEL\<close> is 1), so each of the two timer lists is a plain
  list, and \<open>random_nr\<close>, which only decides heights, is left out. Timeout functions are an
  argument \<open>cb\<close>: what the function of timer \<open>t\<close> does to the whole state, which may have more fields than
  those of this theory. The loops over expired timers are \<open>partial_function\<close>s, for a timeout function or
  a period of zero ticks can keep them going for ever.
\<close>

section \<open>State\<close>

type_synonym tmid = nat

record timer =
  activated :: bool
  periodic :: bool
  soft :: bool
  period :: u32
  timeout_tick :: u32

record timers =
  tk :: kernel
  timer_of :: "tmid \<Rightarrow> timer"
  hard_list :: "tmid list"
  soft_list :: "tmid list"
  rt_tick :: u32
  timer_thread :: tid

definition upd_timer :: "tmid \<Rightarrow> (timer \<Rightarrow> timer) \<Rightarrow> 's timers_scheme \<Rightarrow> 's timers_scheme" where
  "upd_timer t f ts = ts\<lparr>timer_of := (timer_of ts)(t := f (timer_of ts t))\<rparr>"

abbreviation (input) RT_TICK_MAX :: u32 where "RT_TICK_MAX \<equiv> 0xFFFFFFFF"

text \<open>\<open>RT_TICK_MAX / 2\<close>\<close>

abbreviation (input) HALF_TICKS :: u32 where "HALF_TICKS \<equiv> 0x7FFFFFFF"

section \<open>Operations\<close>

definition timer_remove :: "tmid \<Rightarrow> 's timers_scheme \<Rightarrow> 's timers_scheme" where
  "timer_remove t ts = ts\<lparr>hard_list := removeAll t (hard_list ts), soft_list := removeAll t (soft_list ts)\<rparr>"

definition rt_timer_init :: "tmid \<Rightarrow> u32 \<Rightarrow> bool \<Rightarrow> bool \<Rightarrow> 's timers_scheme \<Rightarrow> 's timers_scheme" where
  "rt_timer_init t time is_periodic is_soft ts =
     upd_timer t (\<lambda>_. \<lparr>activated = False, periodic = is_periodic, soft = is_soft, period = time, timeout_tick = 0\<rparr>) ts"

definition rt_timer_detach :: "tmid \<Rightarrow> 's timers_scheme \<Rightarrow> rt_err \<times> 's timers_scheme" where
  "rt_timer_detach t ts = (RT_EOK, timer_remove t ts)"

definition rt_timer_delete :: "tmid \<Rightarrow> 's timers_scheme \<Rightarrow> rt_err \<times> 's timers_scheme" where
  "rt_timer_delete t ts = (RT_EOK, timer_remove t ts)"

definition rt_timer_stop :: "tmid \<Rightarrow> 's timers_scheme \<Rightarrow> rt_err \<times> 's timers_scheme" where
  "rt_timer_stop t ts =
     (if \<not> activated (timer_of ts t) then (- RT_ERROR, ts)
      else (RT_EOK, upd_timer t (activated_update (\<lambda>_. False)) (timer_remove t ts)))"

text \<open>The timer of a thread has the thread's number; \<open>rt_thread_resume\<close> stops it.\<close>

definition resume_thread :: "tid \<Rightarrow> 's timers_scheme \<Rightarrow> 's timers_scheme" where
  "resume_thread t ts =
     (if stat_of (tk ts) t \<noteq> RT_THREAD_SUSPEND then ts
      else (snd (rt_timer_stop t ts))\<lparr>tk := snd (rt_thread_resume t (tk ts))\<rparr>)"

text \<open>The search loop of \<open>rt_timer_start\<close>, with the insertion behind the node it ends at: \<open>due\<close> gives the
  \<open>timeout_tick\<close> of a timer in the list, \<open>tick\<close> is that of the new one.\<close>

fun insert_timer :: "(tmid \<Rightarrow> u32) \<Rightarrow> u32 \<Rightarrow> tmid \<Rightarrow> tmid list \<Rightarrow> tmid list" where
  "insert_timer due tick t [] = [t]"
| "insert_timer due tick t (u # us) =
     (if due u - tick = 0 then u # insert_timer due tick t us
      else if due u - tick < HALF_TICKS then t # u # us
      else u # insert_timer due tick t us)"

definition link_timer :: "tmid \<Rightarrow> 's timers_scheme \<Rightarrow> 's timers_scheme" where
  "link_timer t ts =
     (let ts1 = upd_timer t (\<lambda>x. x\<lparr>timeout_tick := rt_tick ts + period x\<rparr>) ts;
          due = (\<lambda>u. timeout_tick (timer_of ts1 u));
          ts2 = (if soft (timer_of ts1 t)
                 then ts1\<lparr>soft_list := insert_timer due (due t) t (soft_list ts1)\<rparr>
                 else ts1\<lparr>hard_list := insert_timer due (due t) t (hard_list ts1)\<rparr>)
      in upd_timer t (activated_update (\<lambda>_. True)) ts2)"

definition rt_timer_start :: "tmid \<Rightarrow> 's timers_scheme \<Rightarrow> (rt_err \<times> 's timers_scheme) option" where
  "rt_timer_start t ts =
     (let ts1 = upd_timer t (activated_update (\<lambda>_. False)) (timer_remove t ts)
      in if period (timer_of ts1 t) < HALF_TICKS
         then let ts2 = link_timer t ts1
              in if soft (timer_of ts2 t) \<and> stat_of (tk ts2) (timer_thread ts2) = RT_THREAD_SUSPEND
                 then do { let ts3 = resume_thread (timer_thread ts2) ts2;
                           k \<leftarrow> rt_schedule (tk ts3);
                           Some (RT_EOK, ts3\<lparr>tk := k\<rparr>) }
                 else Some (RT_EOK, ts2)
         else None)"

text \<open>\<open>rt_timer_control\<close>: the second component is what the two commands that read leave in \<open>*arg\<close>.\<close>

datatype timer_cmd = GET_TIME | SET_TIME u32 | SET_ONESHOT | SET_PERIODIC | GET_STATE

definition rt_timer_control :: "tmid \<Rightarrow> timer_cmd \<Rightarrow> 's timers_scheme \<Rightarrow> rt_err \<times> u32 option \<times> 's timers_scheme" where
  "rt_timer_control t cmd ts =
     (case cmd of
        GET_TIME \<Rightarrow> (RT_EOK, Some (period (timer_of ts t)), ts)
      | SET_TIME tick \<Rightarrow> (RT_EOK, None, upd_timer t (period_update (\<lambda>_. tick)) ts)
      | SET_ONESHOT \<Rightarrow> (RT_EOK, None, upd_timer t (periodic_update (\<lambda>_. False)) ts)
      | SET_PERIODIC \<Rightarrow> (RT_EOK, None, upd_timer t (periodic_update (\<lambda>_. True)) ts)
      | GET_STATE \<Rightarrow> (RT_EOK, Some (if activated (timer_of ts t) then 1 else 0), ts))"

definition next_timeout :: "tmid list \<Rightarrow> 's timers_scheme \<Rightarrow> u32" where
  "next_timeout xs ts = (case xs of [] \<Rightarrow> RT_TICK_MAX | t # _ \<Rightarrow> timeout_tick (timer_of ts t))"

definition rt_timer_next_timeout_tick :: "'s timers_scheme \<Rightarrow> u32" where
  "rt_timer_next_timeout_tick ts = next_timeout (hard_list ts) ts"

section \<open>Expiry\<close>

definition expired :: "'s timers_scheme \<Rightarrow> tmid \<Rightarrow> bool" where
  "expired ts t \<longleftrightarrow> rt_tick ts - timeout_tick (timer_of ts t) < HALF_TICKS"

text \<open>What follows a timeout function: a periodic timer that is still active is started again.\<close>

definition after_timeout :: "tmid \<Rightarrow> 's timers_scheme \<Rightarrow> 's timers_scheme option" where
  "after_timeout t ts =
     (if periodic (timer_of ts t) \<and> activated (timer_of ts t)
      then do { (_, ts') \<leftarrow> rt_timer_start t (upd_timer t (activated_update (\<lambda>_. False)) ts); Some ts' }
      else Some (upd_timer t (activated_update (\<lambda>_. False)) ts))"

partial_function (option) rt_timer_check ::
  "(tmid \<Rightarrow> 's timers_scheme \<Rightarrow> 's timers_scheme option) \<Rightarrow> 's timers_scheme \<Rightarrow> 's timers_scheme option" where
  "rt_timer_check cb ts =
     (case hard_list ts of
        [] \<Rightarrow> Some ts
      | t # _ \<Rightarrow>
          if expired ts t
          then do { ts1 \<leftarrow> cb t (timer_remove t ts); ts2 \<leftarrow> after_timeout t ts1; rt_timer_check cb ts2 }
          else Some ts)"

text \<open>The loop of \<open>rt_soft_timer_check\<close> keeps a pointer to the next node while a timeout function runs.
  A node that has been taken out of the list points to itself; \<open>None\<close> is the list head.\<close>

definition next_node :: "tmid \<Rightarrow> tmid list \<Rightarrow> tmid option" where
  "next_node t xs =
     (if t \<in> set xs then (case tl (dropWhile (\<lambda>u. u \<noteq> t) xs) of [] \<Rightarrow> None | u # _ \<Rightarrow> Some u) else Some t)"

partial_function (option) soft_check_loop ::
  "(tmid \<Rightarrow> 's timers_scheme \<Rightarrow> 's timers_scheme option) \<Rightarrow> tmid option \<Rightarrow> 's timers_scheme \<Rightarrow> 's timers_scheme option" where
  "soft_check_loop cb n ts =
     (case n of
        None \<Rightarrow> Some ts
      | Some t \<Rightarrow>
          if expired ts t
          then do { k \<leftarrow> rt_exit_critical (tk ts);
                    ts1 \<leftarrow> cb t ((timer_remove t ts)\<lparr>tk := k\<rparr>);
                    ts2 \<leftarrow> after_timeout t (ts1\<lparr>tk := rt_enter_critical (tk ts1)\<rparr>);
                    soft_check_loop cb (next_node t (soft_list ts)) ts2 }
          else Some ts)"

definition rt_soft_timer_check ::
  "(tmid \<Rightarrow> 's timers_scheme \<Rightarrow> 's timers_scheme option) \<Rightarrow> 's timers_scheme \<Rightarrow> 's timers_scheme option" where
  "rt_soft_timer_check cb ts =
     do { ts1 \<leftarrow> soft_check_loop cb (case soft_list ts of [] \<Rightarrow> None | t # _ \<Rightarrow> Some t)
                   (ts\<lparr>tk := rt_enter_critical (tk ts)\<rparr>);
          k \<leftarrow> rt_exit_critical (tk ts1);
          Some (ts1\<lparr>tk := k\<rparr>) }"

definition rt_tick_increase ::
  "(tmid \<Rightarrow> 's timers_scheme \<Rightarrow> 's timers_scheme option) \<Rightarrow> 's timers_scheme \<Rightarrow> 's timers_scheme option" where
  "rt_tick_increase cb ts =
     do { k \<leftarrow> tick_slice (tk ts); rt_timer_check cb (ts\<lparr>rt_tick := rt_tick ts + 1, tk := k\<rparr>) }"

text \<open>The function of a thread's timer is \<open>rt_thread_timeout\<close>;
  \<open>rt_thread_sleep\<close> stops it in \<open>rt_thread_suspend\<close>, sets its time and starts it.\<close>

definition thread_timeout :: "tmid \<Rightarrow> 's timers_scheme \<Rightarrow> 's timers_scheme option" where
  "thread_timeout t ts = do { k \<leftarrow> rt_thread_timeout t (tk ts); Some (ts\<lparr>tk := k\<rparr>) }"

definition arm_thread_timer :: "tid \<Rightarrow> u32 \<Rightarrow> 's timers_scheme \<Rightarrow> 's timers_scheme option" where
  "arm_thread_timer t tick ts =
     do { (_, ts1) \<leftarrow> rt_timer_start t (snd (snd (rt_timer_control t (SET_TIME tick) (snd (rt_timer_stop t ts))))); Some ts1 }"

definition thread_sleep :: "u32 \<Rightarrow> 's timers_scheme \<Rightarrow> 's timers_scheme option" where
  "thread_sleep tick ts =
     do { let t = current (tk ts);
          (_, k1) \<leftarrow> rt_thread_suspend t (tk ts);
          ts1 \<leftarrow> arm_thread_timer t tick (ts\<lparr>tk := k1\<rparr>);
          k2 \<leftarrow> rt_schedule (tk ts1);
          Some (ts1\<lparr>tk := k2\<rparr>) }"

text \<open>One pass of \<open>rt_thread_timer_entry\<close> up to where it may block; \<open>rt_soft_timer_check\<close> follows when the
  thread runs again.\<close>

definition timer_entry_wait :: "'s timers_scheme \<Rightarrow> 's timers_scheme option" where
  "timer_entry_wait ts =
     (let next = next_timeout (soft_list ts) ts
      in if next = RT_TICK_MAX
         then do { (_, k1) \<leftarrow> rt_thread_suspend (current (tk ts)) (tk ts);
                   k2 \<leftarrow> rt_schedule k1;
                   Some ((snd (rt_timer_stop (current (tk ts)) ts))\<lparr>tk := k2\<rparr>) }
         else if next - rt_tick ts < HALF_TICKS
         then thread_sleep (next - rt_tick ts) ts
         else Some ts)"

section \<open>Reading the updates\<close>

lemma upd_timer_simps [simp]:
  "timer_of (upd_timer t f ts) = (timer_of ts)(t := f (timer_of ts t))"
  "hard_list (upd_timer t f ts) = hard_list ts" "soft_list (upd_timer t f ts) = soft_list ts"
  "rt_tick (upd_timer t f ts) = rt_tick ts" "tk (upd_timer t f ts) = tk ts"
  "timer_thread (upd_timer t f ts) = timer_thread ts" "timers.more (upd_timer t f ts) = timers.more ts"
  by (simp_all add: upd_timer_def)

lemma timer_remove_simps [simp]:
  "timer_of (timer_remove t ts) = timer_of ts" "hard_list (timer_remove t ts) = removeAll t (hard_list ts)"
  "soft_list (timer_remove t ts) = removeAll t (soft_list ts)" "rt_tick (timer_remove t ts) = rt_tick ts"
  "tk (timer_remove t ts) = tk ts" "timer_thread (timer_remove t ts) = timer_thread ts"
  "timers.more (timer_remove t ts) = timers.more ts"
  by (simp_all add: timer_remove_def)

section \<open>The order of the list\<close>

text \<open>A timer's distance from the tick before the current one. Between two interrupts it is at least 1
  for every timer in the list; 0 and 1 are the ones that \<open>rt_timer_check\<close> fires. The distances stay
  so small that the wrapping comparisons of the code compare them.\<close>

definition distance :: "(tmid \<Rightarrow> timer) \<Rightarrow> u32 \<Rightarrow> tmid \<Rightarrow> nat" where
  "distance tm tick t = unat (timeout_tick (tm t) - tick + 1)"

definition in_order :: "(tmid \<Rightarrow> nat) \<Rightarrow> tmid list \<Rightarrow> bool" where
  "in_order d xs \<longleftrightarrow> distinct xs \<and> sorted (map d xs) \<and> (\<forall>u \<in> set xs. d u \<le> 2147483647)"

definition list_inv :: "'s timers_scheme \<Rightarrow> bool" where
  "list_inv ts \<longleftrightarrow> in_order (distance (timer_of ts) (rt_tick ts)) (hard_list ts) \<and>
     (\<forall>u \<in> set (hard_list ts). \<not> soft (timer_of ts u))"

definition hard_inv :: "'s timers_scheme \<Rightarrow> bool" where
  "hard_inv ts \<longleftrightarrow> list_inv ts \<and> (\<forall>u \<in> set (hard_list ts). 1 \<le> distance (timer_of ts) (rt_tick ts) u)"

lemma word_diff_half:
  fixes x y :: u32
  assumes "unat x \<le> 2147483647" and "1 \<le> unat y" and "unat y \<le> 2147483647"
  shows "x - y < 0x7FFFFFFF \<longleftrightarrow> y \<le> x" and "x - y = 0 \<longleftrightarrow> unat x = unat y"
proof -
  have half: "unat (0x7FFFFFFF :: u32) = 2147483647" by simp
  show "x - y < 0x7FFFFFFF \<longleftrightarrow> y \<le> x"
  proof (cases "y \<le> x")
    case True
    then have "unat (x - y) = unat x - unat y" by (rule unat_sub)
    then show ?thesis using assms True unfolding word_less_nat_alt half by simp
  next
    case False
    then have n: "\<not> unat y \<le> unat x" by (simp only: word_le_nat_alt not_False_eq_True)
    have "2 ^ size x = (4294967296 :: nat)" by (simp add: word_size)
    then have e: "unat (x - y) = unat x + 4294967296 - unat y"
      unfolding unat_sub_if_size using n by (simp only: if_False)
    have "\<not> unat (x - y) < 2147483647" unfolding e using assms(2,3) by linarith
    then show ?thesis using False unfolding word_less_nat_alt half by blast
  qed
  show "x - y = 0 \<longleftrightarrow> unat x = unat y" unfolding right_minus_eq by (rule word_unat_eq_iff)
qed

lemma insert_timer_split:
  assumes "\<forall>u \<in> set xs. unat (due u - b) \<le> 2147483647"
    and "1 \<le> unat (tick - b)" and "unat (tick - b) \<le> 2147483647"
  shows "insert_timer due tick t xs =
    takeWhile (\<lambda>u. unat (due u - b) \<le> unat (tick - b)) xs @ t # dropWhile (\<lambda>u. unat (due u - b) \<le> unat (tick - b)) xs"
  using assms(1)
proof (induction xs)
  case (Cons u us)
  have e: "(due u - b) - (tick - b) = due u - tick" by simp
  have "unat (due u - b) \<le> 2147483647" using Cons.prems by simp
  note d = word_diff_half [OF this assms(2,3), unfolded e word_le_nat_alt right_minus_eq]
  show ?case using Cons by (simp add: d)
qed simp

lemma insert_timer_mset: "mset (insert_timer due tick t xs) = add_mset t (mset xs)"
  by (induction xs) auto

lemma insert_timer_set: "set (insert_timer due tick t xs) = insert t (set xs)"
  using arg_cong [OF insert_timer_mset, of set_mset due tick t xs] by simp

lemma insert_timer_distinct: "t \<notin> set xs \<Longrightarrow> distinct (insert_timer due tick t xs) \<longleftrightarrow> distinct xs"
  using mset_eq_imp_distinct_iff [of "insert_timer due tick t xs" "t # xs"] by (simp add: insert_timer_mset)

lemma sorted_insert_split:
  assumes "sorted (map f xs)" 
  shows "sorted (map f (takeWhile (\<lambda>u. f u \<le> f t) xs @ t # dropWhile (\<lambda>u. f u \<le> f t) xs))"
  using assms
proof (induction xs)
  case (Cons u us)
  then show ?case by (auto dest: set_takeWhileD set_dropWhileD)
qed simp

lemma insert_timer_in_order:
  assumes "in_order (\<lambda>u. unat (due u - b)) xs" and "t \<notin> set xs"
    and "1 \<le> unat (due t - b)" and "unat (due t - b) \<le> 2147483647"
  shows "in_order (\<lambda>u. unat (due u - b)) (insert_timer due (due t) t xs)"
proof -
  have e: "insert_timer due (due t) t xs = takeWhile (\<lambda>u. unat (due u - b) \<le> unat (due t - b)) xs @
      t # dropWhile (\<lambda>u. unat (due u - b) \<le> unat (due t - b)) xs"
    by (rule insert_timer_split) (use assms in \<open>auto simp: in_order_def\<close>)
  have "distinct (insert_timer due (due t) t xs)"
    using assms(1,2) by (simp add: in_order_def insert_timer_distinct)
  moreover have "sorted (map (\<lambda>u. unat (due u - b)) (insert_timer due (due t) t xs))"
    unfolding e by (rule sorted_insert_split) (use assms(1) in \<open>simp add: in_order_def\<close>)
  ultimately show ?thesis using assms by (auto simp: in_order_def insert_timer_set)
qed

lemma in_order_cong: "(\<And>u. u \<in> set xs \<Longrightarrow> d u = d' u) \<Longrightarrow> in_order d xs \<longleftrightarrow> in_order d' xs"
proof -
  assume e: "\<And>u. u \<in> set xs \<Longrightarrow> d u = d' u"
  then have m: "map d xs = map d' xs" by (rule map_cong [OF refl])
  show ?thesis unfolding in_order_def m using e by auto
qed

lemma distance_diff: "distance tm tick u = unat (timeout_tick (tm u) - (tick - 1))"
  by (simp add: distance_def algebra_simps)

lemma distance_new:
  assumes "p < 0x7FFFFFFF"
  shows "distance (tm(t := x\<lparr>timeout_tick := tick + p\<rparr>)) tick t = unat p + 1"
proof -
  have "unat p < 2147483647" using assms by (simp add: word_less_nat_alt)
  then have "unat (p + 1) = unat p + 1" by (subst unat_add_lem [THEN iffD1]) simp_all
  then show ?thesis by (simp add: distance_def)
qed

lemma list_inv_remove:
  assumes "list_inv ts"
  shows "list_inv (timer_remove t ts)" and "t \<notin> set (hard_list (timer_remove t ts))"
  using assms by (auto simp: list_inv_def in_order_def removeAll_filter_not_eq sorted_filter)

lemma list_inv_upd:
  assumes "\<And>x. timeout_tick (f x) = timeout_tick x \<and> soft (f x) = soft x"
  shows "list_inv (upd_timer t f ts) \<longleftrightarrow> list_inv ts"
proof -
  have "distance (timer_of (upd_timer t f ts)) (rt_tick ts) = distance (timer_of ts) (rt_tick ts)"
    by (simp add: fun_eq_iff distance_def assms)
  then show ?thesis by (auto simp: list_inv_def assms)
qed

lemma start_hard:
  assumes "list_inv ts" and "\<not> soft (timer_of ts t)" and "period (timer_of ts t) < HALF_TICKS"
  shows "\<exists>ts'. rt_timer_start t ts = Some (RT_EOK, ts') \<and> list_inv ts' \<and>
    timer_of ts' = (timer_of ts)(t := (timer_of ts t)\<lparr>activated := True,
      timeout_tick := rt_tick ts + period (timer_of ts t)\<rparr>) \<and>
    hard_list ts' = insert_timer (\<lambda>u. timeout_tick (timer_of ts' u)) (timeout_tick (timer_of ts' t)) t
      (removeAll t (hard_list ts)) \<and>
    soft_list ts' = removeAll t (soft_list ts) \<and> rt_tick ts' = rt_tick ts \<and> tk ts' = tk ts \<and>
    timer_thread ts' = timer_thread ts \<and> timers.more ts' = timers.more ts"
proof -
  define x where "x = (timer_of ts t)\<lparr>activated := True\<rparr>"
  define tm where "tm = (timer_of ts)(t := x\<lparr>timeout_tick := rt_tick ts + period (timer_of ts t)\<rparr>)"
  define ys where "ys = insert_timer (\<lambda>u. timeout_tick (tm u)) (timeout_tick (tm t)) t (removeAll t (hard_list ts))"
  define ts' where "ts' = (timer_remove t ts)\<lparr>timer_of := tm, hard_list := ys\<rparr>"
  have st: "rt_timer_start t ts = Some (RT_EOK, ts')"
    using assms(2,3)
    by (auto simp: rt_timer_start_def link_timer_def Let_def ts'_def ys_def tm_def x_def upd_timer_def fun_eq_iff
          timer_remove_def intro!: timers.equality arg_cong [where f = "\<lambda>f. insert_timer f _ _ _"])
  have d: "distance tm (rt_tick ts) t = unat (period (timer_of ts t)) + 1"
    using distance_new [OF assms(3)] by (simp add: tm_def)
  have p: "unat (period (timer_of ts t)) < 2147483647" using assms(3) by (simp add: word_less_nat_alt)
  have o: "distance tm (rt_tick ts) u = distance (timer_of ts) (rt_tick ts) u" if "u \<noteq> t" for u
    using that by (simp add: distance_def tm_def)
  have "in_order (distance (timer_of ts) (rt_tick ts)) (removeAll t (hard_list ts))"
    using list_inv_remove(1) [OF assms(1), of t] by (simp add: list_inv_def)
  then have "in_order (distance tm (rt_tick ts)) (removeAll t (hard_list ts))"
    by (rule in_order_cong [THEN iffD2, rotated]) (auto simp: o)
  then have "in_order (distance tm (rt_tick ts)) ys"
    unfolding ys_def distance_diff [abs_def]
    by (rule insert_timer_in_order) (use d p in \<open>simp_all add: distance_diff [symmetric]\<close>)
  moreover have "\<forall>u \<in> set ys. \<not> soft (tm u)"
    using assms(1,2) by (auto simp: ys_def insert_timer_set tm_def x_def list_inv_def)
  ultimately have "list_inv ts'" by (simp add: list_inv_def ts'_def)
  then show ?thesis using st by (simp add: ts'_def tm_def x_def ys_def)
qed

lemma stop_list_inv:
  assumes "list_inv ts"
  shows "list_inv (snd (rt_timer_stop t ts))" and "set (hard_list (snd (rt_timer_stop t ts))) \<subseteq> set (hard_list ts)"
    and "rt_tick (snd (rt_timer_stop t ts)) = rt_tick ts"
    and "timeout_tick (timer_of (snd (rt_timer_stop t ts)) u) = timeout_tick (timer_of ts u)"
  using list_inv_remove(1) [OF assms, of t] assms by (auto simp: rt_timer_stop_def list_inv_upd)

lemma list_inv_tk [simp]: "list_inv (ts\<lparr>tk := k\<rparr>) \<longleftrightarrow> list_inv ts"
  by (simp add: list_inv_def)

lemma resume_thread_list_inv:
  assumes "list_inv ts"
  shows "list_inv (resume_thread t ts)" and "set (hard_list (resume_thread t ts)) \<subseteq> set (hard_list ts)"
    and "rt_tick (resume_thread t ts) = rt_tick ts"
    and "timeout_tick (timer_of (resume_thread t ts) u) = timeout_tick (timer_of ts u)"
  using stop_list_inv [OF assms, of t] assms by (auto simp: resume_thread_def)

lemma start_list_inv:
  assumes "list_inv ts" and "rt_timer_start t ts = Some (r, ts')"
  shows "list_inv ts' \<and> rt_tick ts' = rt_tick ts \<and>
    (\<forall>u \<in> set (hard_list ts'). (u = t \<and> 1 \<le> distance (timer_of ts') (rt_tick ts) t) \<or>
       (u \<in> set (hard_list ts) \<and> timeout_tick (timer_of ts' u) = timeout_tick (timer_of ts u)))"
proof (cases "soft (timer_of ts t)")
  case False
  have p: "period (timer_of ts t) < HALF_TICKS"
    using assms(2) by (auto simp: rt_timer_start_def Let_def split: if_splits)
  obtain ts1 where ts1: "rt_timer_start t ts = Some (RT_EOK, ts1)" "list_inv ts1" "rt_tick ts1 = rt_tick ts"
    "timer_of ts1 = (timer_of ts)(t := (timer_of ts t)\<lparr>activated := True, timeout_tick := rt_tick ts + period (timer_of ts t)\<rparr>)"
    "set (hard_list ts1) = insert t (set (hard_list ts))"
    using start_hard [OF assms(1) False p] by (auto simp: insert_timer_set)
  moreover have "1 \<le> distance (timer_of ts1) (rt_tick ts) t"
    unfolding ts1(4) distance_new [OF p] by simp
  ultimately show ?thesis using assms(2) by auto
next
  case True
  define ts4 where "ts4 = link_timer t (upd_timer t (activated_update (\<lambda>_. False)) (timer_remove t ts))"
  have ts4: "hard_list ts4 = removeAll t (hard_list ts)" "rt_tick ts4 = rt_tick ts"
    "timer_of ts4 u = (if u = t then (timer_of ts t)\<lparr>activated := True, timeout_tick := rt_tick ts + period (timer_of ts t)\<rparr>
       else timer_of ts u)" for u
    using True by (simp_all add: ts4_def link_timer_def Let_def)
  have "list_inv (timer_remove t ts)" "t \<notin> set (hard_list (timer_remove t ts))"
    using list_inv_remove [OF assms(1)] by blast+
  moreover have "distance (timer_of ts4) (rt_tick ts) u = distance (timer_of ts) (rt_tick ts) u" if "u \<noteq> t" for u
    using that by (simp add: ts4 distance_def)
  ultimately have l: "list_inv ts4"
    using in_order_cong [of "removeAll t (hard_list ts)" "distance (timer_of ts4) (rt_tick ts)" "distance (timer_of ts) (rt_tick ts)"]
    by (auto simp: list_inv_def ts4)
  have "(\<exists>k. ts' = (resume_thread (timer_thread ts4) ts4)\<lparr>tk := k\<rparr>) \<or> ts' = ts4"
    using assms(2) True
    by (auto simp: rt_timer_start_def Let_def ts4_def [symmetric] bind_eq_Some_conv split: if_splits)
  moreover have "\<forall>u \<in> set (hard_list ts'). u \<noteq> t \<and> u \<in> set (hard_list ts) \<and> timeout_tick (timer_of ts' u) = timeout_tick (timer_of ts u)"
    using calculation ts4 resume_thread_list_inv(2,4) [OF l] by fastforce
  ultimately show ?thesis
    using l ts4(2) resume_thread_list_inv(1,3) [OF l] by auto
qed

section \<open>Ticks\<close>

lemma expired_iff:
  assumes "distance (timer_of ts) (rt_tick ts) t \<le> 2147483647"
  shows "expired ts t \<longleftrightarrow> distance (timer_of ts) (rt_tick ts) t \<le> 1"
proof -
  define x where "x = timeout_tick (timer_of ts t) - rt_tick ts + 1"
  have e: "rt_tick ts - timeout_tick (timer_of ts t) = 1 - x" by (simp add: x_def algebra_simps)
  have d: "distance (timer_of ts) (rt_tick ts) t = unat x" by (simp add: distance_def x_def)
  show ?thesis
  proof (cases "unat x = 0")
    case True
    then have "x = 0" by (simp add: unat_eq_0)
    then show ?thesis unfolding expired_def e d by simp
  next
    case False
    then have "1 - x < 0x7FFFFFFF \<longleftrightarrow> x \<le> 1" using word_diff_half(1) [of 1 x] assms d by simp
    then show ?thesis unfolding expired_def e d by (simp add: word_le_nat_alt)
  qed
qed

lemma distance_tick:
  assumes "1 \<le> distance tm tick t"
  shows "distance tm (tick + 1) t = distance tm tick t - 1"
proof -
  have "(1 :: u32) \<le> timeout_tick (tm t) - tick + 1" using assms by (simp add: distance_def word_le_nat_alt)
  from unat_sub [OF this] show ?thesis by (simp add: distance_def algebra_simps)
qed

lemma sorted_pred: "sorted ns \<Longrightarrow> sorted (map (\<lambda>n. n - (1 :: nat)) ns)"
  by (induction ns) (auto intro: diff_le_mono)

lemma tick_list_inv:
  assumes "hard_inv ts"
  shows "list_inv (ts\<lparr>rt_tick := rt_tick ts + 1, tk := k\<rparr>)"
proof -
  have m: "map (distance (timer_of ts) (rt_tick ts + 1)) (hard_list ts) =
      map (\<lambda>n. n - 1) (map (distance (timer_of ts) (rt_tick ts)) (hard_list ts))"
    using assms by (auto simp: hard_inv_def distance_tick)
  have "sorted (map (distance (timer_of ts) (rt_tick ts)) (hard_list ts))"
    using assms by (simp add: hard_inv_def list_inv_def in_order_def)
  then have "sorted (map (distance (timer_of ts) (rt_tick ts + 1)) (hard_list ts))"
    unfolding m by (rule sorted_pred)
  then show ?thesis
    using assms by (auto simp: hard_inv_def list_inv_def in_order_def distance_tick intro: le_trans [OF diff_le_self])
qed

lemma after_timeout_list_inv:
  assumes "list_inv ts" and "after_timeout t ts = Some ts'"
  shows "list_inv ts' \<and> rt_tick ts' = rt_tick ts"
proof -
  let ?ts = "upd_timer t (activated_update (\<lambda>_. False)) ts"
  have l: "list_inv ?ts" using list_inv_upd [of "activated_update (\<lambda>_. False)" t ts] assms(1) by simp
  consider "ts' = ?ts" | r where "rt_timer_start t ?ts = Some (r, ts')"
    using assms(2) unfolding after_timeout_def by (auto simp: bind_eq_Some_conv split: if_splits)
  then show ?thesis
  proof cases
    case 1
    then show ?thesis using l by simp
  next
    case 2
    then show ?thesis using start_list_inv [OF l 2] by simp
  qed
qed

lemma unexpired_head:
  assumes "list_inv ts" and "hard_list ts = t # us" and "\<not> expired ts t" and "u \<in> set (hard_list ts)"
  shows "2 \<le> distance (timer_of ts) (rt_tick ts) u"
proof -
  have "2 \<le> distance (timer_of ts) (rt_tick ts) t"
    using assms(1-3) expired_iff [of ts t] by (simp add: list_inv_def in_order_def)
  moreover have "distance (timer_of ts) (rt_tick ts) t \<le> distance (timer_of ts) (rt_tick ts) u"
    using assms(1,2,4) by (auto simp: list_inv_def in_order_def)
  ultimately show ?thesis by simp
qed

lemma check_list_inv:
  assumes "rt_timer_check cb ts = Some ts'" and "list_inv ts"
    and cb: "\<And>t ts ts'. list_inv ts \<Longrightarrow> cb t ts = Some ts' \<Longrightarrow> list_inv ts' \<and> rt_tick ts' = rt_tick ts"
  shows "list_inv ts' \<and> rt_tick ts' = rt_tick ts \<and> (\<forall>u \<in> set (hard_list ts'). 2 \<le> distance (timer_of ts') (rt_tick ts') u)"
proof -
  let ?P = "\<lambda>cb ts ts'. list_inv ts \<longrightarrow>
    (\<forall>t ts ts'. list_inv ts \<longrightarrow> cb t ts = Some ts' \<longrightarrow> list_inv ts' \<and> rt_tick ts' = rt_tick ts) \<longrightarrow>
    list_inv ts' \<and> rt_tick ts' = rt_tick ts \<and> (\<forall>u \<in> set (hard_list ts'). 2 \<le> distance (timer_of ts') (rt_tick ts') u)"
  have "?P cb ts ts'"
  proof (rule rt_timer_check.raw_induct [where P = ?P, OF _ assms(1)], intro impI)
    fix check :: "(tmid \<Rightarrow> 's timers_scheme \<Rightarrow> 's timers_scheme option) \<Rightarrow> 's timers_scheme \<Rightarrow> 's timers_scheme option"
      and cb ts ts'
    assume IH: "\<And>cb ts z. check cb ts = Some z \<Longrightarrow> ?P cb ts z"
      and r: "(case hard_list ts of [] \<Rightarrow> Some ts
        | t # _ \<Rightarrow> if expired ts t
            then do { ts1 \<leftarrow> cb t (timer_remove t ts); ts2 \<leftarrow> after_timeout t ts1; check cb ts2 } else Some ts) = Some ts'"
      and l: "list_inv ts"
      and cb: "\<forall>t ts ts'. list_inv ts \<longrightarrow> cb t ts = Some ts' \<longrightarrow> list_inv ts' \<and> rt_tick ts' = rt_tick ts"
    show "list_inv ts' \<and> rt_tick ts' = rt_tick ts \<and> (\<forall>u \<in> set (hard_list ts'). 2 \<le> distance (timer_of ts') (rt_tick ts') u)"
    proof (cases "hard_list ts")
      case Nil
      then show ?thesis using r l by simp
    next
      case (Cons t us)
      show ?thesis
      proof (cases "expired ts t")
        case False
        then show ?thesis using r l Cons unexpired_head [OF l Cons False] by simp
      next
        case True
        then obtain ts1 ts2 where s: "cb t (timer_remove t ts) = Some ts1" "after_timeout t ts1 = Some ts2" "check cb ts2 = Some ts'"
          using r Cons by (auto simp: bind_eq_Some_conv)
        have "list_inv ts1 \<and> rt_tick ts1 = rt_tick ts" using cb list_inv_remove(1) [OF l] s(1) by fastforce
        then show ?thesis using after_timeout_list_inv [OF _ s(2)] IH [OF s(3)] cb by auto
      qed
    qed
  qed
  then show ?thesis using assms(2) cb by blast
qed

section \<open>The timers as a transition system\<close>

text \<open>The calls that threads and timeout functions make, the two halves of the firing of a timer, and
  changes of the kernel's own state.\<close>

inductive timer_call :: "'s timers_scheme \<Rightarrow> 's timers_scheme \<Rightarrow> bool" where
  start: "rt_timer_start t ts = Some (r, ts') \<Longrightarrow> timer_call ts ts'"
| stop: "timer_call ts (snd (rt_timer_stop t ts))"
| control: "timer_call ts (snd (snd (rt_timer_control t cmd ts)))"
| detach: "timer_call ts (snd (rt_timer_detach t ts))"
| delete: "timer_call ts (snd (rt_timer_delete t ts))"
| init: "t \<notin> set (hard_list ts) \<Longrightarrow> t \<notin> set (soft_list ts) \<Longrightarrow> timer_call ts (rt_timer_init t time p s ts)"
| expire: "timer_call ts (timer_remove t ts)"
| again: "after_timeout t ts = Some ts' \<Longrightarrow> timer_call ts ts'"
| kernel: "timer_call ts (ts\<lparr>tk := k\<rparr>)"

lemma list_inv_frame:
  assumes "list_inv ts" and "set (hard_list ts') \<subseteq> set (hard_list ts)" and "rt_tick ts' = rt_tick ts"
    and "sorted (map (distance (timer_of ts) (rt_tick ts)) (hard_list ts'))" and "distinct (hard_list ts')"
    and "\<And>u. u \<in> set (hard_list ts') \<Longrightarrow>
      timeout_tick (timer_of ts' u) = timeout_tick (timer_of ts u) \<and> soft (timer_of ts' u) = soft (timer_of ts u)"
  shows "list_inv ts'"
proof -
  have "distance (timer_of ts') (rt_tick ts) u = distance (timer_of ts) (rt_tick ts) u" if "u \<in> set (hard_list ts')" for u
    using assms(6) [OF that] by (simp add: distance_def)
  then have "in_order (distance (timer_of ts') (rt_tick ts)) (hard_list ts') \<longleftrightarrow>
      in_order (distance (timer_of ts) (rt_tick ts)) (hard_list ts')"
    by (rule in_order_cong)
  then show ?thesis using assms by (auto simp: list_inv_def in_order_def)
qed

definition from_before :: "'s timers_scheme \<Rightarrow> 's timers_scheme \<Rightarrow> bool" where
  "from_before ts ts' \<longleftrightarrow> list_inv ts' \<and> rt_tick ts' = rt_tick ts \<and>
     (\<forall>u \<in> set (hard_list ts'). 1 \<le> distance (timer_of ts') (rt_tick ts) u \<or>
       (u \<in> set (hard_list ts) \<and> timeout_tick (timer_of ts' u) = timeout_tick (timer_of ts u)))"

lemma same_list_from_before:
  assumes l: "list_inv ts" and e: "hard_list ts' = hard_list ts" "rt_tick ts' = rt_tick ts"
    and u: "\<And>u. u \<in> set (hard_list ts) \<Longrightarrow>
      timeout_tick (timer_of ts' u) = timeout_tick (timer_of ts u) \<and> soft (timer_of ts' u) = soft (timer_of ts u)"
  shows "from_before ts ts'"
proof -
  have "sorted (map (distance (timer_of ts) (rt_tick ts)) (hard_list ts'))" "distinct (hard_list ts')"
    using l e(1) by (simp_all add: list_inv_def in_order_def)
  then have "list_inv ts'" by (intro list_inv_frame [OF l]) (simp_all add: e u)
  then show ?thesis using e u by (simp add: from_before_def)
qed

lemma call_from_before:
  assumes "timer_call ts ts'" and l: "list_inv ts"
  shows "from_before ts ts'"
  using assms(1)
proof (cases rule: timer_call.cases)
  case (start t r)
  then show ?thesis using start_list_inv [OF l start] by (auto simp: from_before_def)
next
  case (stop t)
  then show ?thesis using stop_list_inv [OF l, of t] by (auto simp: from_before_def)
next
  case (control t cmd)
  then show ?thesis
    by (intro same_list_from_before [OF l]) (auto simp: rt_timer_control_def split: timer_cmd.splits)
next
  case (again t)
  let ?ts = "upd_timer t (activated_update (\<lambda>_. False)) ts"
  have l': "list_inv ?ts" using list_inv_upd [of "activated_update (\<lambda>_. False)" t ts] l by simp
  consider "ts' = ?ts" | r where "rt_timer_start t ?ts = Some (r, ts')"
    using again unfolding after_timeout_def by (auto simp: bind_eq_Some_conv split: if_splits)
  then show ?thesis
  proof cases
    case 1
    then show ?thesis using l' by (auto simp: from_before_def)
  next
    case 2
    then show ?thesis using start_list_inv [OF l' 2] by (fastforce simp: from_before_def)
  qed
next
  case (init t time p s)
  then show ?thesis by (intro same_list_from_before [OF l]) (auto simp: rt_timer_init_def)
qed (use list_inv_remove [OF l] l in \<open>auto simp: from_before_def rt_timer_detach_def rt_timer_delete_def\<close>)

lemma from_before_hard_inv:
  assumes "from_before ts ts'" and "hard_inv ts"
  shows "hard_inv ts'"
  using assms by (auto simp: from_before_def hard_inv_def distance_def)

lemma calls_list_inv: "timer_call\<^sup>*\<^sup>* ts ts' \<Longrightarrow> list_inv ts \<Longrightarrow> list_inv ts' \<and> rt_tick ts' = rt_tick ts"
  by (induction rule: rtranclp_induct) (auto dest!: call_from_before simp: from_before_def)

text \<open>Timeout functions make calls only.\<close>

definition proper :: "(tmid \<Rightarrow> 's timers_scheme \<Rightarrow> 's timers_scheme option) \<Rightarrow> bool" where
  "proper cb \<longleftrightarrow> (\<forall>t ts ts'. cb t ts = Some ts' \<longrightarrow> timer_call\<^sup>*\<^sup>* ts ts')"

inductive timer_step :: "(tmid \<Rightarrow> 's timers_scheme \<Rightarrow> 's timers_scheme option) \<Rightarrow> 's timers_scheme \<Rightarrow> 's timers_scheme \<Rightarrow> bool"
  for cb where
  call: "timer_call ts ts' \<Longrightarrow> timer_step cb ts ts'"
| tick: "rt_tick_increase cb ts = Some ts' \<Longrightarrow> timer_step cb ts ts'"

lemma step_hard_inv:
  assumes "timer_step cb ts ts'" and "proper cb" and h: "hard_inv ts"
  shows "hard_inv ts'"
  using assms(1)
proof (cases rule: timer_step.cases)
  case call
  have "list_inv ts" using h by (simp add: hard_inv_def)
  from from_before_hard_inv [OF call_from_before [OF call this] h] show ?thesis .
next
  case tick
  then obtain k where "rt_timer_check cb (ts\<lparr>rt_tick := rt_tick ts + 1, tk := k\<rparr>) = Some ts'"
    by (auto simp: rt_tick_increase_def bind_eq_Some_conv)
  from check_list_inv [OF this tick_list_inv [OF h]] calls_list_inv assms(2)
  show ?thesis unfolding hard_inv_def proper_def by fastforce
qed

section \<open>What a tick fires\<close>

definition same_timers :: "'s timers_scheme \<Rightarrow> 's timers_scheme \<Rightarrow> bool" where
  "same_timers ts ts' \<longleftrightarrow> timer_of ts' = timer_of ts \<and> hard_list ts' = hard_list ts \<and> soft_list ts' = soft_list ts \<and>
     rt_tick ts' = rt_tick ts"

definition fired_timer :: "u32 \<Rightarrow> timer \<Rightarrow> timer" where
  "fired_timer tick x =
     (if periodic x \<and> activated x then x\<lparr>activated := True, timeout_tick := tick + period x\<rparr> else x\<lparr>activated := False\<rparr>)"

definition period_ok :: "timer \<Rightarrow> bool" where
  "period_ok x \<longleftrightarrow> (periodic x \<longrightarrow> 0 < period x \<and> period x < HALF_TICKS)"

text \<open>From \<open>ts\<close>, with the expired timer \<open>t\<close> at the head, to \<open>ts2\<close>, when the timeout function ended in \<open>ts1\<close>.\<close>

definition fires :: "tmid \<Rightarrow> 's timers_scheme \<Rightarrow> 's timers_scheme \<Rightarrow> 's timers_scheme \<Rightarrow> bool" where
  "fires t ts ts1 ts2 \<longleftrightarrow> after_timeout t ts1 = Some ts2 \<and> list_inv ts2 \<and> rt_tick ts2 = rt_tick ts \<and>
     timer_of ts2 = (timer_of ts)(t := fired_timer (rt_tick ts) (timer_of ts t)) \<and>
     set (hard_list ts2) = (if periodic (timer_of ts t) \<and> activated (timer_of ts t) then set (hard_list ts)
       else set (hard_list ts) - {t}) \<and>
     filter (expired ts2) (hard_list ts2) = filter (expired ts) (tl (hard_list ts)) \<and>
     tk ts2 = tk ts1 \<and> timers.more ts2 = timers.more ts1"

lemma filter_insert_timer: "\<not> P t \<Longrightarrow> filter P (insert_timer due tick t xs) = filter P xs"
  by (induction xs) auto

lemma fires_step:
  assumes l: "list_inv ts" and h: "hard_list ts = t # us" and s: "same_timers (timer_remove t ts) ts1"
    and p: "period_ok (timer_of ts t)"
  shows "\<exists>ts2. fires t ts ts1 ts2"
proof -
  have us: "t \<notin> set us" "removeAll t us = us" using l h by (auto simp: list_inv_def in_order_def)
  have f: "timer_of ts1 = timer_of ts" "hard_list ts1 = us" "rt_tick ts1 = rt_tick ts"
    using s h us by (simp_all add: same_timers_def)
  have "list_inv (timer_remove t ts)" using list_inv_remove(1) [OF l] .
  then have l1: "list_inv ts1" using s by (simp add: same_timers_def list_inv_def)
  let ?ts = "upd_timer t (activated_update (\<lambda>_. False)) ts1"
  have l2: "list_inv ?ts" using list_inv_upd [of "activated_update (\<lambda>_. False)" t ts1] l1 by simp
  show ?thesis
  proof (cases "periodic (timer_of ts t) \<and> activated (timer_of ts t)")
    case False
    have "filter (expired ?ts) us = filter (expired ts) us"
      by (rule filter_cong) (use us in \<open>auto simp: expired_def f\<close>)
    then show ?thesis
      using False l2 us h by (intro exI [of _ ?ts]) (auto simp: fires_def after_timeout_def f fired_timer_def)
  next
    case True
    have sf: "\<not> soft (timer_of ?ts t)" using l h by (simp add: list_inv_def f)
    have pr: "period (timer_of ?ts t) < HALF_TICKS" "0 < period (timer_of ts t)"
      using p True by (simp_all add: period_ok_def f)
    obtain ts2 where ts2: "rt_timer_start t ?ts = Some (RT_EOK, ts2)" "list_inv ts2"
      "timer_of ts2 = (timer_of ?ts)(t := (timer_of ?ts t)\<lparr>activated := True,
         timeout_tick := rt_tick ?ts + period (timer_of ?ts t)\<rparr>)"
      "hard_list ts2 = insert_timer (\<lambda>u. timeout_tick (timer_of ts2 u)) (timeout_tick (timer_of ts2 t)) t
         (removeAll t (hard_list ?ts))" "rt_tick ts2 = rt_tick ?ts" "tk ts2 = tk ?ts" "timers.more ts2 = timers.more ?ts"
      using start_hard [OF l2 sf pr(1)] by metis
    have tm: "timer_of ts2 = (timer_of ts)(t := fired_timer (rt_tick ts) (timer_of ts t))"
      using True by (simp add: ts2(3) f fired_timer_def)
    have in2: "t \<in> set (hard_list ts2)" unfolding ts2(4) insert_timer_set by simp
    then have "distance (timer_of ts2) (rt_tick ts2) t \<le> 2147483647" using ts2(2) by (simp add: list_inv_def in_order_def)
    moreover have "distance (timer_of ts2) (rt_tick ts2) t = unat (period (timer_of ts t)) + 1"
      unfolding ts2(3,5) distance_new [OF pr(1)] by (simp add: f)
    moreover have "0 < unat (period (timer_of ts t))" using pr(2) by (simp add: word_less_nat_alt)
    ultimately have "\<not> expired ts2 t" by (simp add: expired_iff)
    then have "filter (expired ts2) (hard_list ts2) = filter (expired ts2) us"
      unfolding ts2(4) by (simp add: filter_insert_timer f us)
    also have "\<dots> = filter (expired ts) us"
      by (rule filter_cong) (use us in \<open>auto simp: expired_def tm ts2(5) f\<close>)
    finally have fl: "filter (expired ts2) (hard_list ts2) = filter (expired ts) us" .
    have "after_timeout t ts1 = Some ts2" using ts2(1) True by (simp add: after_timeout_def f)
    moreover have "set (hard_list ts2) = set (hard_list ts)" unfolding ts2(4) insert_timer_set by (simp add: f us h)
    ultimately show ?thesis
      using True ts2(2,5-7) tm fl h f(3) by (intro exI [of _ ts2]) (simp add: fires_def)
  qed
qed

text \<open>What \<open>rt_timer_check\<close> relies on to end: timeout functions that return and leave the timers alone,
  while \<open>ok\<close> holds.\<close>

locale timeout_functions =
  fixes cb :: "tmid \<Rightarrow> 's timers_scheme \<Rightarrow> 's timers_scheme option" and ok :: "'s timers_scheme \<Rightarrow> bool"
  assumes calls: "ok ts \<Longrightarrow> list_inv ts \<Longrightarrow> hard_list ts = t # us \<Longrightarrow> expired ts t \<Longrightarrow>
      \<exists>ts1. cb t (timer_remove t ts) = Some ts1 \<and> same_timers (timer_remove t ts) ts1"
    and keeps: "ok ts \<Longrightarrow> list_inv ts \<Longrightarrow> hard_list ts = t # us \<Longrightarrow> expired ts t \<Longrightarrow>
      cb t (timer_remove t ts) = Some ts1 \<Longrightarrow> fires t ts ts1 ts2 \<Longrightarrow> ok ts2"
begin

lemma check_fires:
  assumes "ok ts" and "list_inv ts" and "\<forall>u \<in> set (hard_list ts). period_ok (timer_of ts u)"
  shows "\<exists>ts'. rt_timer_check cb ts = Some ts' \<and> ok ts' \<and> list_inv ts' \<and> rt_tick ts' = rt_tick ts \<and>
    filter (expired ts') (hard_list ts') = [] \<and>
    (\<forall>u. u \<in> set (hard_list ts') \<longleftrightarrow> u \<in> set (hard_list ts) \<and>
       (expired ts u \<longrightarrow> periodic (timer_of ts u) \<and> activated (timer_of ts u))) \<and>
    (\<forall>u. timer_of ts' u = (if u \<in> set (hard_list ts) \<and> expired ts u then fired_timer (rt_tick ts) (timer_of ts u)
       else timer_of ts u))"
  using assms
proof (induction "length (filter (expired ts) (hard_list ts))" arbitrary: ts)
  case 0
  then have n: "\<forall>u \<in> set (hard_list ts). \<not> expired ts u" by (simp add: filter_empty_conv)
  then have "rt_timer_check cb ts = Some ts" by (subst rt_timer_check.simps) (auto split: list.split)
  then show ?case using 0 n by auto
next
  case (Suc n)
  then obtain t us where h: "hard_list ts = t # us" by (cases "hard_list ts") auto
  have e: "expired ts t"
  proof (rule ccontr)
    assume ne: "\<not> expired ts t"
    have "\<not> expired ts u" if "u \<in> set (hard_list ts)" for u
      using unexpired_head [OF Suc.prems(2) h ne that] expired_iff [of ts u] Suc.prems(2) that
      by (auto simp: list_inv_def in_order_def)
    then have "filter (expired ts) (hard_list ts) = []" by (simp add: filter_empty_conv)
    then show False using Suc.hyps(2) by simp
  qed
  obtain ts1 where c: "cb t (timer_remove t ts) = Some ts1" "same_timers (timer_remove t ts) ts1"
    using calls [OF Suc.prems(1,2) h e] by blast
  obtain ts2 where f: "fires t ts ts1 ts2"
    using fires_step [OF Suc.prems(2) h c(2)] Suc.prems(3) h by auto
  have f2: "after_timeout t ts1 = Some ts2" "list_inv ts2" "rt_tick ts2 = rt_tick ts"
    "timer_of ts2 = (timer_of ts)(t := fired_timer (rt_tick ts) (timer_of ts t))"
    "set (hard_list ts2) = (if periodic (timer_of ts t) \<and> activated (timer_of ts t) then set (hard_list ts)
       else set (hard_list ts) - {t})"
    "filter (expired ts2) (hard_list ts2) = filter (expired ts) us"
    using f h by (simp_all add: fires_def)
  have "\<forall>u \<in> set (hard_list ts2). period_ok (timer_of ts2 u)"
    using Suc.prems(3) f2(4,5) by (auto simp: period_ok_def fired_timer_def split: if_splits)
  moreover have "n = length (filter (expired ts2) (hard_list ts2))" using Suc.hyps(2) h e f2(6) by simp
  moreover have "ok ts2" by (rule keeps [OF Suc.prems(1,2) h e c(1) f])
  ultimately obtain ts' where ts': "rt_timer_check cb ts2 = Some ts'" "ok ts'" "list_inv ts'" "rt_tick ts' = rt_tick ts2"
    "filter (expired ts') (hard_list ts') = []"
    "\<And>u. u \<in> set (hard_list ts') \<longleftrightarrow> u \<in> set (hard_list ts2) \<and>
       (expired ts2 u \<longrightarrow> periodic (timer_of ts2 u) \<and> activated (timer_of ts2 u))"
    "\<And>u. timer_of ts' u = (if u \<in> set (hard_list ts2) \<and> expired ts2 u then fired_timer (rt_tick ts2) (timer_of ts2 u)
       else timer_of ts2 u)"
    using Suc.hyps(1) [OF _ _ f2(2)] by blast
  have chk: "rt_timer_check cb ts = Some ts'"
    using h e c(1) f2(1) ts'(1) by (subst rt_timer_check.simps) simp
  have e2: "expired ts2 u = expired ts u" if "u \<noteq> t" for u
    using that by (simp add: expired_def f2(3,4))
  have "t \<notin> set (filter (expired ts) us)" using Suc.prems(2) h by (simp add: list_inv_def in_order_def)
  then have t2: "\<not> (t \<in> set (hard_list ts2) \<and> expired ts2 t)" unfolding f2(6) [symmetric] by simp
  have "u \<in> set (hard_list ts') \<longleftrightarrow> u \<in> set (hard_list ts) \<and>
       (expired ts u \<longrightarrow> periodic (timer_of ts u) \<and> activated (timer_of ts u))" for u
    unfolding ts'(6) using e e2 [of u] t2 h by (cases "u = t") (auto simp: f2(4,5) split: if_splits)
  moreover have "timer_of ts' u = (if u \<in> set (hard_list ts) \<and> expired ts u then fired_timer (rt_tick ts) (timer_of ts u)
       else timer_of ts u)" for u
    unfolding ts'(7) using e e2 [of u] t2 h by (cases "u = t") (auto simp: f2(3-5) split: if_splits)
  ultimately show ?case using chk ts'(2-5) f2(3) by auto
qed

end

text \<open>The invariant between ticks, the distances after a tick, and the state after the check.\<close>

lemma distance_period:
  assumes "1 \<le> distance tm tick u"
  shows "distance tm tick u = unat (timeout_tick (tm u) - tick) + 1"
proof -
  have "(1 :: u32) \<le> timeout_tick (tm u) - tick + 1" using assms by (simp add: distance_def word_le_nat_alt)
  from unat_sub [OF this] assms show ?thesis by (simp add: distance_def)
qed

lemma ticked_expired:
  assumes "hard_inv ts" and "u \<in> set (hard_list ts)"
  shows "expired (ts\<lparr>rt_tick := rt_tick ts + 1, tk := k\<rparr>) u \<longleftrightarrow> unat (timeout_tick (timer_of ts u) - rt_tick ts) \<le> 1"
proof -
  let ?ts = "ts\<lparr>rt_tick := rt_tick ts + 1, tk := k\<rparr>"
  have d: "1 \<le> distance (timer_of ts) (rt_tick ts) u" "distance (timer_of ts) (rt_tick ts) u \<le> 2147483647"
    using assms by (auto simp: hard_inv_def list_inv_def in_order_def)
  then have "expired ?ts u \<longleftrightarrow> distance (timer_of ts) (rt_tick ts + 1) u \<le> 1"
    using expired_iff [of ?ts u] distance_tick [OF d(1)] by simp
  then show ?thesis using distance_tick [OF d(1)] distance_period [OF d(1)] by simp
qed

lemma checked_hard_inv:
  assumes "list_inv ts" and "filter (expired ts) (hard_list ts) = []"
  shows "hard_inv ts"
  using assms expired_iff [of ts] by (fastforce simp: hard_inv_def list_inv_def in_order_def filter_empty_conv)

subsection \<open>Logging the timeout functions called\<close>

record traced = timers +
  fired :: "tmid list"

definition log_timeout :: "tmid \<Rightarrow> traced \<Rightarrow> traced option" where
  "log_timeout t ts = Some (ts\<lparr>fired := fired ts @ [t]\<rparr>)"

definition log_ok :: "tmid list \<Rightarrow> traced \<Rightarrow> bool" where
  "log_ok F ts \<longleftrightarrow> fired ts @ filter (expired ts) (hard_list ts) = F"

lemma more_fired: "timers.more ts2 = timers.more ts1 \<Longrightarrow> fired ts2 = fired ts1"
  by (cases ts1; cases ts2) simp

lemma fired_remove [simp]: "fired (timer_remove t ts) = fired ts"
  by (simp add: timer_remove_def)

interpretation log_timers: timeout_functions log_timeout "log_ok F" for F
proof unfold_locales
  fix ts t us ts1 ts2
  assume "log_ok F ts" "hard_list ts = t # us" "expired ts t" "log_timeout t (timer_remove t ts) = Some ts1" "fires t ts ts1 ts2"
  then show "log_ok F ts2"
    using more_fired [of ts2 ts1] by (auto simp: log_ok_def log_timeout_def fires_def)
qed (simp add: log_timeout_def same_timers_def)

subsection \<open>Sleeping threads\<close>

definition sleepers :: "'s timers_scheme \<Rightarrow> bool" where
  "sleepers ts \<longleftrightarrow> kernel_inv (tk ts) \<and>
     (\<forall>u \<in> set (hard_list ts). stat_of (tk ts) u = RT_THREAD_SUSPEND \<and> \<not> periodic (timer_of ts u))"

definition woken :: "tid \<Rightarrow> 's timers_scheme \<Rightarrow> bool" where
  "woken t ts \<longleftrightarrow> stat_of (tk ts) t \<noteq> RT_THREAD_SUSPEND \<and> thread_error (threads (tk ts) t) = - RT_ETIMEOUT"

definition awaited :: "tid \<Rightarrow> 's timers_scheme \<Rightarrow> bool" where
  "awaited t ts \<longleftrightarrow> sleepers ts \<and> (t \<in> set (hard_list ts) \<or> woken t ts)"

lemma timeout_frame:
  assumes k: "kernel_inv k" and t: "stat_of k t = RT_THREAD_SUSPEND" and r: "rt_thread_timeout t k = Some k'"
  shows "kernel_inv k'" and "stat_of k' t \<noteq> RT_THREAD_SUSPEND" and "thread_error (threads k' t) = - RT_ETIMEOUT"
    and "u \<noteq> t \<Longrightarrow> stat_of k' u = RT_THREAD_SUSPEND \<longleftrightarrow> stat_of k u = RT_THREAD_SUSPEND"
    and "u \<noteq> t \<Longrightarrow> thread_error (threads k' u) = thread_error (threads k u)"
proof -
  let ?k1 = "list_remove t (upd_thread t (thread_error_update (\<lambda>_. - RT_ETIMEOUT)) k)"
  have e: "upd_thread t (thread_error_update (\<lambda>_. - RT_ETIMEOUT)) (list_remove t k) = ?k1"
    by (simp add: upd_thread_def list_remove_def)
  have "kernel_inv ?k1" using inv_unlist [OF k t, of "thread_error_update (\<lambda>_. - RT_ETIMEOUT)"] e by simp
  then have k2: "kernel_inv (schedule_insert_thread t ?k1)" using t by (intro inv_insert_unlinked) auto
  have s: "rt_schedule (schedule_insert_thread t ?k1) = Some k'" using r t by (simp add: rt_thread_timeout_def)
  show "kernel_inv k'" using schedule_inv [OF k2 s] .
  show "stat_of k' t \<noteq> RT_THREAD_SUSPEND" "thread_error (threads k' t) = - RT_ETIMEOUT"
    using schedule_frameD(1,8) [OF k2 s, of t] by (simp_all split: if_splits)
  show "u \<noteq> t \<Longrightarrow> stat_of k' u = RT_THREAD_SUSPEND \<longleftrightarrow> stat_of k u = RT_THREAD_SUSPEND"
    "u \<noteq> t \<Longrightarrow> thread_error (threads k' u) = thread_error (threads k u)"
    using schedule_frameD(1,8) [OF k2 s, of u] by simp_all
qed

lemma slice_frame:
  assumes k: "kernel_inv k" and r: "tick_slice k = Some k'"
  shows "stat_of k' u = RT_THREAD_SUSPEND \<longleftrightarrow> stat_of k u = RT_THREAD_SUSPEND"
    and "thread_error (threads k' u) = thread_error (threads k u)"
proof -
  let ?f = "\<lambda>th. th\<lparr>remaining_tick := (remaining_tick th + 2 ^ 32 - 1) mod 2 ^ 32\<rparr>"
  let ?g = "\<lambda>th. th\<lparr>remaining_tick := init_tick th, stat_yield := True\<rparr>"
  have 1: "kernel_inv (upd_thread (current k) ?f k)" by (rule inv_upd [OF k]) (simp add: same_role_def)
  have 2: "kernel_inv (upd_thread (current k) ?g (upd_thread (current k) ?f k))"
    by (rule inv_upd [OF 1]) (simp add: same_role_def)
  consider "k' = upd_thread (current k) ?f k" | "rt_schedule (upd_thread (current k) ?g (upd_thread (current k) ?f k)) = Some k'"
    using r unfolding tick_slice_def Let_def by (auto split: if_splits)
  then show "stat_of k' u = RT_THREAD_SUSPEND \<longleftrightarrow> stat_of k u = RT_THREAD_SUSPEND"
    "thread_error (threads k' u) = thread_error (threads k u)"
    using schedule_frameD(1,8) [OF 2, of k' u] by (cases; simp)+
qed

interpretation sleep_timers: timeout_functions thread_timeout "awaited t" for t
proof unfold_locales
  fix ts :: "'s timers_scheme" and u us
  assume a: "awaited t ts" "list_inv ts" "hard_list ts = u # us"
  then have "kernel_inv (tk ts)" "stat_of (tk ts) u = RT_THREAD_SUSPEND" by (simp_all add: awaited_def sleepers_def)
  from timeout_ok [OF this] show "\<exists>ts1. thread_timeout u (timer_remove u ts) = Some ts1 \<and> same_timers (timer_remove u ts) ts1"
    by (auto simp: thread_timeout_def same_timers_def)
next
  fix ts :: "'s timers_scheme" and u us ts1 ts2
  assume a: "awaited t ts" "list_inv ts" "hard_list ts = u # us" "thread_timeout u (timer_remove u ts) = Some ts1"
    "fires u ts ts1 ts2"
  then obtain k where k: "rt_thread_timeout u (tk ts) = Some k" "tk ts2 = k"
    by (auto simp: thread_timeout_def fires_def bind_eq_Some_conv)
  have s: "kernel_inv (tk ts)" "stat_of (tk ts) u = RT_THREAD_SUSPEND" "\<not> periodic (timer_of ts u)"
    using a(1,3) by (simp_all add: awaited_def sleepers_def)
  have "set (hard_list ts2) = set (hard_list ts) - {u}" "\<And>v. v \<noteq> u \<Longrightarrow> timer_of ts2 v = timer_of ts v"
    using a(5) s(3) by (simp_all add: fires_def)
  then show "awaited t ts2"
    using a(1) timeout_frame [OF s(1,2) k(1)] k(2)
    unfolding awaited_def sleepers_def woken_def by (cases "t = u") auto
qed

inductive ticks_pass :: "tid \<Rightarrow> nat \<Rightarrow> 's timers_scheme \<Rightarrow> 's timers_scheme \<Rightarrow> bool" for t where
  none: "ticks_pass t 0 ts ts"
| other: "ticks_pass t m ts ts1 \<Longrightarrow> hard_inv ts2 \<Longrightarrow> sleepers ts2 \<Longrightarrow> t \<in> set (hard_list ts2) \<Longrightarrow>
    timer_of ts2 t = timer_of ts1 t \<Longrightarrow> rt_tick ts2 = rt_tick ts1 \<Longrightarrow> ticks_pass t m ts ts2"
| tick: "ticks_pass t m ts ts1 \<Longrightarrow> rt_tick_increase thread_timeout ts1 = Some ts2 \<Longrightarrow> ticks_pass t (Suc m) ts ts2"

lemma tick_of_sleeper:
  assumes h: "hard_inv ts" and s: "sleepers ts" and t: "t \<in> set (hard_list ts)"
  shows "\<exists>ts'. rt_tick_increase thread_timeout ts = Some ts' \<and> hard_inv ts' \<and> sleepers ts' \<and> rt_tick ts' = rt_tick ts + 1 \<and>
    (if unat (timeout_tick (timer_of ts t) - rt_tick ts) \<le> 1 then woken t ts'
     else t \<in> set (hard_list ts') \<and> timer_of ts' t = timer_of ts t)"
proof -
  have k: "kernel_inv (tk ts)" using s by (simp add: sleepers_def)
  obtain k' where k': "tick_slice (tk ts) = Some k'" "kernel_inv k'" using tick_ok [OF k] by blast
  let ?ts = "ts\<lparr>rt_tick := rt_tick ts + 1, tk := k'\<rparr>"
  have l: "list_inv ?ts" by (rule tick_list_inv [OF h])
  have a: "awaited t ?ts" using s t k'(2) slice_frame(1) [OF k k'(1)] by (simp add: awaited_def sleepers_def)
  have p: "\<forall>u \<in> set (hard_list ?ts). period_ok (timer_of ?ts u)" using s by (simp add: sleepers_def period_ok_def)
  obtain ts' where ts': "rt_timer_check thread_timeout ?ts = Some ts'" "awaited t ts'" "list_inv ts'"
    "rt_tick ts' = rt_tick ?ts" "filter (expired ts') (hard_list ts') = []"
    "\<And>u. u \<in> set (hard_list ts') \<longleftrightarrow> u \<in> set (hard_list ?ts) \<and>
       (expired ?ts u \<longrightarrow> periodic (timer_of ?ts u) \<and> activated (timer_of ?ts u))"
    "\<And>u. timer_of ts' u = (if u \<in> set (hard_list ?ts) \<and> expired ?ts u then fired_timer (rt_tick ?ts) (timer_of ?ts u)
       else timer_of ?ts u)"
    using sleep_timers.check_fires [OF a l p] by blast
  have "rt_tick_increase thread_timeout ts = Some ts'" using k'(1) ts'(1) by (simp add: rt_tick_increase_def)
  moreover have "hard_inv ts'" by (rule checked_hard_inv [OF ts'(3,5)])
  moreover have "\<not> periodic (timer_of ts t)" using s t by (simp add: sleepers_def)
  ultimately show ?thesis
    using ts'(2,4) ts'(6,7) [of t] t ticked_expired [OF h t, of k'] by (auto simp: awaited_def)
qed

lemma ticks_pass_sleeping:
  assumes "ticks_pass t m ts ts'" and "hard_inv ts" and "sleepers ts" and "t \<in> set (hard_list ts)"
    and "m \<le> unat (timeout_tick (timer_of ts t) - rt_tick ts) - 1"
  shows "hard_inv ts' \<and> sleepers ts' \<and> t \<in> set (hard_list ts') \<and> timer_of ts' t = timer_of ts t \<and>
    unat (timeout_tick (timer_of ts' t) - rt_tick ts') = unat (timeout_tick (timer_of ts t) - rt_tick ts) - m"
  using assms
proof (induction rule: ticks_pass.induct)
  case (tick m ts ts1 ts2)
  then have IH: "hard_inv ts1" "sleepers ts1" "t \<in> set (hard_list ts1)" "timer_of ts1 t = timer_of ts t"
    "unat (timeout_tick (timer_of ts1 t) - rt_tick ts1) = unat (timeout_tick (timer_of ts t) - rt_tick ts) - m"
    by auto
  have m: "1 < unat (timeout_tick (timer_of ts1 t) - rt_tick ts1)" using tick.prems(4) IH(5) by linarith
  then have ts2: "hard_inv ts2" "sleepers ts2" "rt_tick ts2 = rt_tick ts1 + 1" "t \<in> set (hard_list ts2)"
    "timer_of ts2 t = timer_of ts1 t"
    using tick_of_sleeper [OF IH(1-3)] tick.hyps(2) by auto
  have "(1 :: u32) \<le> timeout_tick (timer_of ts1 t) - rt_tick ts1" using m by (simp add: word_le_nat_alt)
  from unat_sub [OF this] have "unat (timeout_tick (timer_of ts1 t) - rt_tick ts1 - 1) =
      unat (timeout_tick (timer_of ts1 t) - rt_tick ts1) - 1" by simp
  moreover have "timeout_tick (timer_of ts2 t) - rt_tick ts2 = timeout_tick (timer_of ts1 t) - rt_tick ts1 - 1"
    using ts2(3,5) by (simp add: algebra_simps)
  ultimately show ?case using ts2 IH(4,5) tick.prems(4) by (simp add: diff_diff_eq)
qed auto

lemma suspend_frame:
  assumes "kernel_inv k" and "stat_of k (current k) = RT_THREAD_RUNNING"
  shows "\<exists>k'. rt_thread_suspend (current k) k = Some (RT_EOK, k') \<and> kernel_inv k' \<and>
    (\<forall>u. stat_of k' u = (if u = current k then RT_THREAD_SUSPEND else stat_of k u))"
  using suspend_self [OF assms(1), of "current k"] assms(2) by auto

lemma sleep_starts:
  assumes h: "hard_inv ts" and s: "sleepers ts" and c: "current (tk ts) = t" "stat_of (tk ts) t = RT_THREAD_RUNNING"
    and x: "\<not> soft (timer_of ts t)" "\<not> periodic (timer_of ts t)" and n: "n < HALF_TICKS"
  shows "\<exists>ts'. thread_sleep n ts = Some ts' \<and> hard_inv ts' \<and> sleepers ts' \<and> t \<in> set (hard_list ts') \<and>
    timeout_tick (timer_of ts' t) = rt_tick ts + n \<and> rt_tick ts' = rt_tick ts \<and>
    (\<forall>u. u \<noteq> t \<longrightarrow> (u \<in> set (hard_list ts') \<longleftrightarrow> u \<in> set (hard_list ts)) \<and> timer_of ts' u = timer_of ts u)"
proof -
  have k: "kernel_inv (tk ts)" using s by (simp add: sleepers_def)
  obtain k1 where k1: "rt_thread_suspend t (tk ts) = Some (RT_EOK, k1)" "kernel_inv k1"
    "\<And>u. stat_of k1 u = (if u = t then RT_THREAD_SUSPEND else stat_of (tk ts) u)"
    using suspend_frame [OF k] c by auto
  let ?ts0 = "ts\<lparr>tk := k1\<rparr>"
  let ?ts1 = "upd_timer t (period_update (\<lambda>_. n)) (snd (rt_timer_stop t ?ts0))"
  have l0: "list_inv ?ts0" using h by (simp add: hard_inv_def)
  have l1: "list_inv ?ts1"
    using list_inv_upd [of "period_update (\<lambda>_. n)" t "snd (rt_timer_stop t ?ts0)"] stop_list_inv(1) [OF l0, of t] by simp
  have nl: "t \<notin> set (hard_list ts)" using s c(2) by (auto simp: sleepers_def)
  have f1: "timer_of ?ts1 u = (if u = t then (timer_of ts t)\<lparr>activated := False, period := n\<rparr> else timer_of ts u)"
    "set (hard_list ?ts1) = set (hard_list ts)" "rt_tick ?ts1 = rt_tick ts" "tk ?ts1 = k1" for u
    using nl by (auto simp: rt_timer_stop_def)
  have sf: "\<not> soft (timer_of ?ts1 t)" "period (timer_of ?ts1 t) = n" using x unfolding f1 by simp_all
  obtain ts2 where ts2: "rt_timer_start t ?ts1 = Some (RT_EOK, ts2)" "list_inv ts2"
    "timer_of ts2 = (timer_of ?ts1)(t := (timer_of ?ts1 t)\<lparr>activated := True, timeout_tick := rt_tick ?ts1 + period (timer_of ?ts1 t)\<rparr>)"
    "set (hard_list ts2) = insert t (set (hard_list ?ts1))" "rt_tick ts2 = rt_tick ?ts1" "tk ts2 = k1"
    using start_hard [OF l1 sf(1)] n unfolding sf(2) f1(4) by (metis insert_timer_set set_removeAll insert_Diff_single)
  have "arm_thread_timer t n ?ts0 = Some ts2"
    using ts2(1) by (simp add: arm_thread_timer_def rt_timer_control_def)
  moreover obtain k2 where k2: "rt_schedule k1 = Some k2" "kernel_inv k2" using schedule_ok [OF k1(2)] by blast
  ultimately have t1: "thread_sleep n ts = Some (ts2\<lparr>tk := k2\<rparr>)"
    using c(1) k1(1) ts2(6) by (simp add: thread_sleep_def)
  have tm: "timeout_tick (timer_of ts2 t) = rt_tick ts + n" "\<not> periodic (timer_of ts2 t)" "\<And>u. u \<noteq> t \<Longrightarrow> timer_of ts2 u = timer_of ts u"
    using x unfolding ts2(3) f1 fun_upd_apply by simp_all
  have "distance (timer_of ts2) (rt_tick ts2) u \<ge> 1" if "u \<in> set (hard_list ts2)" for u
  proof (cases "u = t")
    case True
    have "unat n < 2147483647" using n by (simp add: word_less_nat_alt)
    then have "unat (n + 1) = unat n + 1" by (subst unat_add_lem [THEN iffD1]) simp_all
    then show ?thesis using True tm(1) ts2(5) f1(3) by (simp add: distance_def)
  next
    case False
    then show ?thesis using that ts2(4,5) tm(3) [OF False] f1(2,3) h by (simp add: hard_inv_def distance_def)
  qed
  then have "hard_inv (ts2\<lparr>tk := k2\<rparr>)" using ts2(2) by (simp add: hard_inv_def)
  moreover have "sleepers (ts2\<lparr>tk := k2\<rparr>)"
    unfolding sleepers_def
  proof (intro conjI ballI)
    fix u assume u: "u \<in> set (hard_list (ts2\<lparr>tk := k2\<rparr>))"
    show "stat_of (tk (ts2\<lparr>tk := k2\<rparr>)) u = RT_THREAD_SUSPEND" "\<not> periodic (timer_of (ts2\<lparr>tk := k2\<rparr>) u)"
      using u schedule_frameD(8) [OF k1(2) k2(1), of u] k1(3) [of u] s ts2(4) f1(2) tm by (cases "u = t"; auto simp: sleepers_def)+
  qed (simp add: k2(2))
  ultimately show ?thesis using t1 ts2(4,5) f1(2,3) tm by (intro exI [of _ "ts2\<lparr>tk := k2\<rparr>"]) auto
qed

section \<open>Properties\<close>

text \<open>Property C18. Whatever calls and ticks happen, also when the tick counter wraps around, the list of
  timers stays in the order of their expiry, without repetitions and with every expiry less than
  half the range of the counter away, so that the head gives the next timeout.\<close>

theorem timers_in_order:
  assumes "hard_list ts = []" and "proper cb" and "(timer_step cb)\<^sup>*\<^sup>* ts ts'"
  shows "distinct (hard_list ts') \<and>
    sorted (map (\<lambda>u. unat (timeout_tick (timer_of ts' u) - rt_tick ts')) (hard_list ts')) \<and>
    (\<forall>u \<in> set (hard_list ts'). unat (timeout_tick (timer_of ts' u) - rt_tick ts') < 2147483647 \<and>
       unat (rt_timer_next_timeout_tick ts' - rt_tick ts') \<le> unat (timeout_tick (timer_of ts' u) - rt_tick ts'))"
proof -
  have "hard_inv ts'"
    using assms(3)
  proof (induction rule: rtranclp_induct)
    case base
    show ?case using assms(1) by (simp add: hard_inv_def list_inv_def in_order_def)
  next
    case (step ts1 ts2)
    then show ?case using step_hard_inv [OF step.hyps(2) assms(2)] by blast
  qed
  then have d: "distinct (hard_list ts')" "sorted (map (distance (timer_of ts') (rt_tick ts')) (hard_list ts'))"
    "\<forall>u \<in> set (hard_list ts'). 1 \<le> distance (timer_of ts') (rt_tick ts') u \<and> distance (timer_of ts') (rt_tick ts') u \<le> 2147483647"
    by (auto simp: hard_inv_def list_inv_def in_order_def)
  have p: "distance (timer_of ts') (rt_tick ts') u = unat (timeout_tick (timer_of ts' u) - rt_tick ts') + 1"
    if "u \<in> set (hard_list ts')" for u using distance_period d(3) that by blast
  have m: "map (\<lambda>u. unat (timeout_tick (timer_of ts' u) - rt_tick ts')) (hard_list ts') =
      map (\<lambda>n. n - 1) (map (distance (timer_of ts') (rt_tick ts')) (hard_list ts'))"
    using p by simp
  have s: "sorted (map (\<lambda>u. unat (timeout_tick (timer_of ts' u) - rt_tick ts')) (hard_list ts'))"
    unfolding m by (rule sorted_pred [OF d(2)])
  then have "unat (rt_timer_next_timeout_tick ts' - rt_tick ts') \<le> unat (timeout_tick (timer_of ts' u) - rt_tick ts')"
    if "u \<in> set (hard_list ts')" for u
    using that by (cases "hard_list ts'") (auto simp: rt_timer_next_timeout_tick_def next_timeout_def)
  then show ?thesis using d(1,3) p s by auto
qed

definition example_timers :: traced where
  "example_timers =
     \<lparr>tk = boot_kernel (\<lambda>_. 25),
      timer_of = (\<lambda>t. \<lparr>activated = False, periodic = (t = 9), soft = False, period = (if t = 9 then 1 else 20), timeout_tick = 0\<rparr>),
      hard_list = [], soft_list = [], rt_tick = 0xFFFFFFFF, timer_thread = 2, fired = []\<rparr>"

lemma example_started:
  "\<exists>ts1 ts2. rt_timer_start 8 example_timers = Some (RT_EOK, ts1) \<and> rt_timer_start 9 ts1 = Some (RT_EOK, ts2) \<and>
     hard_list ts2 = [9, 8] \<and> timer_of ts2 8 = \<lparr>activated = True, periodic = False, soft = False, period = 20, timeout_tick = 19\<rparr> \<and>
     timer_of ts2 9 = \<lparr>activated = True, periodic = True, soft = False, period = 1, timeout_tick = 0\<rparr> \<and>
     rt_tick ts2 = 0xFFFFFFFF \<and> tk ts2 = boot_kernel (\<lambda>_. 25) \<and> fired ts2 = []"
  by (simp add: rt_timer_start_def link_timer_def Let_def example_timers_def upd_timer_def timer_remove_def)

lemma thread_timeout_proper: "proper thread_timeout"
  by (auto simp: proper_def thread_timeout_def bind_eq_Some_conv intro!: r_into_rtranclp timer_call.kernel)

lemma example_steps:
  assumes "rt_timer_start 8 example_timers = Some (RT_EOK, ts1)" and "rt_timer_start 9 ts1 = Some (RT_EOK, ts2)"
  shows "(timer_step thread_timeout)\<^sup>*\<^sup>* example_timers ts2" and "hard_inv ts2"
proof -
  note s = timer_step.call [OF timer_call.start [OF assms(1)]] timer_step.call [OF timer_call.start [OF assms(2)]]
  show "(timer_step thread_timeout)\<^sup>*\<^sup>* example_timers ts2"
    using s by (meson converse_rtranclp_into_rtranclp r_into_rtranclp)
  have "hard_inv example_timers" by (simp add: hard_inv_def list_inv_def in_order_def example_timers_def)
  then show "hard_inv ts2" using step_hard_inv [OF s(1) thread_timeout_proper] step_hard_inv [OF s(2) thread_timeout_proper] by blast
qed

theorem timers_in_order_witness:
  "\<exists>ts1 ts2. rt_timer_start 8 example_timers = Some (RT_EOK, ts1) \<and> rt_timer_start 9 ts1 = Some (RT_EOK, ts2) \<and>
     hard_list ts2 = [9, 8] \<and>
     sorted (map (\<lambda>u. unat (timeout_tick (timer_of ts2 u) - rt_tick ts2)) (hard_list ts2))"
proof -
  obtain ts1 ts2 where s: "rt_timer_start 8 example_timers = Some (RT_EOK, ts1)"
    "rt_timer_start 9 ts1 = Some (RT_EOK, ts2)" "hard_list ts2 = [9, 8]"
    using example_started by blast
  from timers_in_order [OF _ thread_timeout_proper example_steps(1) [OF s(1,2)]] s show ?thesis
    by (auto simp: example_timers_def)
qed

text \<open>Property C17. A tick interrupt calls exactly the timeout functions that are due, in the order of the
  list: those whose expiry is the new tick (or, for a timer started with no ticks, the tick it was started
  at). A periodic timer is armed again for one period from this tick, any other is out of the list
  and no longer active, and no other timer is touched.\<close>

theorem tick_fires_due:
  assumes "hard_inv ts" and "kernel_inv (tk ts)" and "\<forall>u \<in> set (hard_list ts). period_ok (timer_of ts u)"
  shows "\<exists>ts'. rt_tick_increase log_timeout ts = Some ts' \<and> hard_inv ts' \<and> rt_tick ts' = rt_tick ts + 1 \<and>
    (let due = (\<lambda>u. unat (timeout_tick (timer_of ts u) - rt_tick ts) \<le> 1);
         repeats = (\<lambda>u. periodic (timer_of ts u) \<and> activated (timer_of ts u))
     in fired ts' = fired ts @ filter due (hard_list ts) \<and>
        set (hard_list ts') = {u \<in> set (hard_list ts). due u \<longrightarrow> repeats u} \<and>
        (\<forall>u. timer_of ts' u =
           (if u \<in> set (hard_list ts) \<and> due u
            then if repeats u then (timer_of ts u)\<lparr>activated := True, timeout_tick := rt_tick ts' + period (timer_of ts u)\<rparr>
                 else (timer_of ts u)\<lparr>activated := False\<rparr>
            else timer_of ts u)))"
proof -
  obtain k where k: "tick_slice (tk ts) = Some k" using tick_ok [OF assms(2)] by blast
  let ?ts = "ts\<lparr>rt_tick := rt_tick ts + 1, tk := k\<rparr>"
  let ?F = "fired ?ts @ filter (expired ?ts) (hard_list ?ts)"
  have l: "list_inv ?ts" by (rule tick_list_inv [OF assms(1)])
  have p: "\<forall>u \<in> set (hard_list ?ts). period_ok (timer_of ?ts u)" using assms(3) by simp
  have o: "log_ok ?F ?ts" by (simp add: log_ok_def)
  have e: "expired ?ts u \<longleftrightarrow> unat (timeout_tick (timer_of ts u) - rt_tick ts) \<le> 1" if "u \<in> set (hard_list ts)" for u
    by (rule ticked_expired [OF assms(1) that])
  obtain ts' where ts': "rt_timer_check log_timeout ?ts = Some ts'" "log_ok ?F ts'" "list_inv ts'"
    "rt_tick ts' = rt_tick ?ts" "filter (expired ts') (hard_list ts') = []"
    "\<And>u. u \<in> set (hard_list ts') \<longleftrightarrow> u \<in> set (hard_list ?ts) \<and>
       (expired ?ts u \<longrightarrow> periodic (timer_of ?ts u) \<and> activated (timer_of ?ts u))"
    "\<And>u. timer_of ts' u = (if u \<in> set (hard_list ?ts) \<and> expired ?ts u then fired_timer (rt_tick ?ts) (timer_of ?ts u)
       else timer_of ?ts u)"
    using log_timers.check_fires [OF o l p] by blast
  have f: "fired ts' = fired ts @ filter (\<lambda>u. unat (timeout_tick (timer_of ts u) - rt_tick ts) \<le> 1) (hard_list ts)"
    using ts'(2,5) filter_cong [OF refl e, of "hard_list ts"] by (simp add: log_ok_def)
  have "rt_tick_increase log_timeout ts = Some ts'" using k ts'(1) by (simp add: rt_tick_increase_def)
  moreover have "set (hard_list ts') = {u \<in> set (hard_list ts). unat (timeout_tick (timer_of ts u) - rt_tick ts) \<le> 1 \<longrightarrow>
      periodic (timer_of ts u) \<and> activated (timer_of ts u)}"
    using ts'(6) e by auto
  ultimately show ?thesis
    using checked_hard_inv [OF ts'(3,5)] ts'(4,7) f e
    by (intro exI [of _ ts']) (auto simp: Let_def fired_timer_def)
qed

theorem tick_fires_due_witness:
  "\<exists>ts1 ts2 ts3. rt_timer_start 8 example_timers = Some (RT_EOK, ts1) \<and> rt_timer_start 9 ts1 = Some (RT_EOK, ts2) \<and>
     rt_tick_increase log_timeout ts2 = Some ts3 \<and> fired ts3 = [9] \<and> set (hard_list ts3) = {8, 9} \<and>
     timeout_tick (timer_of ts3 9) = 1"
proof -
  obtain ts1 ts2 where s: "rt_timer_start 8 example_timers = Some (RT_EOK, ts1)"
    "rt_timer_start 9 ts1 = Some (RT_EOK, ts2)" "hard_list ts2 = [9, 8]"
    "timer_of ts2 8 = \<lparr>activated = True, periodic = False, soft = False, period = 20, timeout_tick = 19\<rparr>"
    "timer_of ts2 9 = \<lparr>activated = True, periodic = True, soft = False, period = 1, timeout_tick = 0\<rparr>"
    "rt_tick ts2 = 0xFFFFFFFF" "tk ts2 = boot_kernel (\<lambda>_. 25)" "fired ts2 = []"
    using example_started by blast
  have k: "kernel_inv (tk ts2)" unfolding s(7) by (rule boot_kernel_inv) simp
  have p: "\<forall>u \<in> set (hard_list ts2). period_ok (timer_of ts2 u)" by (simp add: s(3-5) period_ok_def)
  obtain ts3 where ts3: "rt_tick_increase log_timeout ts2 = Some ts3" "rt_tick ts3 = rt_tick ts2 + 1"
    "fired ts3 = fired ts2 @ filter (\<lambda>u. unat (timeout_tick (timer_of ts2 u) - rt_tick ts2) \<le> 1) (hard_list ts2)"
    "set (hard_list ts3) = {u \<in> set (hard_list ts2). unat (timeout_tick (timer_of ts2 u) - rt_tick ts2) \<le> 1 \<longrightarrow>
       periodic (timer_of ts2 u) \<and> activated (timer_of ts2 u)}"
    "timer_of ts3 9 = (timer_of ts2 9)\<lparr>activated := True, timeout_tick := rt_tick ts3 + period (timer_of ts2 9)\<rparr>"
    using tick_fires_due [OF example_steps(2) [OF s(1,2)] k p] by (auto simp: Let_def s(3-6))
  have "fired ts3 = [9]" using ts3(3) by (simp add: s(3-6,8))
  moreover have "set (hard_list ts3) = {8, 9}" unfolding ts3(4) by (auto simp: s(3-6))
  moreover have "timeout_tick (timer_of ts3 9) = 1" by (simp add: ts3(2,5) s(5,6))
  ultimately show ?thesis using s(1,2) ts3(1) by blast
qed



text \<open>A one-shot timer that its own timeout function starts again is left in the list but
  marked as not active: \<open>rt_timer_stop\<close> then refuses to stop it, and it will fire.\<close>

theorem restarted_timer_unstoppable:
  assumes "list_inv ts" and "hard_list ts = t # us" and "expired ts t" and "\<not> periodic (timer_of ts t)"
    and "0 < period (timer_of ts t)" and "period (timer_of ts t) < 0x7FFFFFFF"
    and "\<forall>u \<in> set us. \<not> expired ts u"
    and "\<forall>ts. cb t ts = map_option snd (rt_timer_start t ts)"
  shows "\<exists>ts'. rt_timer_check cb ts = Some ts' \<and> t \<in> set (hard_list ts') \<and> rt_timer_stop t ts' = (- RT_ERROR, ts')"
proof -
  let ?ts = "timer_remove t ts"
  have l: "list_inv ?ts" using list_inv_remove(1) [OF assms(1)] .
  have sf: "\<not> soft (timer_of ?ts t)" using assms(1,2) by (simp add: list_inv_def)
  have p: "period (timer_of ?ts t) < HALF_TICKS" using assms(6) by simp
  obtain ts1 where ts1: "rt_timer_start t ?ts = Some (RT_EOK, ts1)" "list_inv ts1" "rt_tick ts1 = rt_tick ?ts"
    "timer_of ts1 = (timer_of ?ts)(t := (timer_of ?ts t)\<lparr>activated := True, timeout_tick := rt_tick ?ts + period (timer_of ?ts t)\<rparr>)"
    "set (hard_list ts1) = insert t (set (hard_list ?ts))"
    using start_hard [OF l sf p] by (auto simp: insert_timer_set)
  let ?ts2 = "upd_timer t (activated_update (\<lambda>_. False)) ts1"
  have "list_inv ?ts2" using list_inv_upd [of "activated_update (\<lambda>_. False)" t ts1] ts1(2) by simp
  moreover have "\<not> expired ?ts2 u" if "u \<in> set (hard_list ?ts2)" for u
  proof (cases "u = t")
    case True
    have "distance (timer_of ts1) (rt_tick ts1) t = unat (period (timer_of ts t)) + 1"
      unfolding ts1(3,4) distance_new [OF p] by simp
    moreover have "0 < unat (period (timer_of ts t))" using assms(5) by (simp add: word_less_nat_alt)
    moreover have "distance (timer_of ts1) (rt_tick ts1) t \<le> 2147483647"
      using ts1(2,5) by (simp add: list_inv_def in_order_def)
    ultimately show ?thesis using True expired_iff [of ts1 t] by (simp add: expired_def)
  next
    case False
    then show ?thesis using that assms(2,7) ts1(3-5) by (auto simp: expired_def)
  qed
  ultimately have "rt_timer_check cb ?ts2 = Some ?ts2"
    by (subst rt_timer_check.simps) (auto split: list.split)
  moreover have "rt_timer_check cb ts = rt_timer_check cb ?ts2"
    using assms(2-4,8) ts1(1,4) by (subst rt_timer_check.simps) (simp add: after_timeout_def)
  ultimately show ?thesis using ts1(5) by (intro exI [of _ ?ts2]) (simp add: rt_timer_stop_def)
qed

theorem restarted_timer_unstoppable_witness:
  "\<exists>ts'. rt_timer_check (\<lambda>t ts. map_option snd (rt_timer_start t ts))
      (example_timers\<lparr>timer_of := (timer_of example_timers)(8 := \<lparr>activated = True, periodic = False, soft = False,
         period = 20, timeout_tick = 0xFFFFFFFF\<rparr>), hard_list := [8]\<rparr>) = Some ts' \<and>
    8 \<in> set (hard_list ts') \<and> rt_timer_stop 8 ts' = (- RT_ERROR, ts')"
  by (rule restarted_timer_unstoppable [of _ 8 "[]"])
    (simp_all add: list_inv_def in_order_def expired_def distance_def example_timers_def)

lemma timer_remove_tk: "timer_remove t (ts\<lparr>tk := k\<rparr>) = (timer_remove t ts)\<lparr>tk := k\<rparr>"
  by (simp add: timer_remove_def)

text \<open>A timer that has been taken out of the list and points to itself keeps the loop going for ever.\<close>

lemma unlinked_never_returns:
  assumes "soft_check_loop cb (Some b) ts = Some ts'" and "b \<notin> set (soft_list ts)" and "expired ts b"
    and "\<not> activated (timer_of ts b)" and "\<forall>ts. cb b ts = Some ts"
  shows False
proof -
  let ?P = "\<lambda>cb n ts (ts' :: 's timers_scheme). \<not> (\<exists>b. n = Some b \<and> b \<notin> set (soft_list ts) \<and> expired ts b \<and>
      \<not> activated (timer_of ts b) \<and> (\<forall>ts. cb b ts = Some ts))"
  have "?P cb (Some b) ts ts'"
  proof (rule soft_check_loop.raw_induct [where P = ?P, OF _ assms(1)], rule notI, elim exE conjE)
    fix check :: "(tmid \<Rightarrow> 's timers_scheme \<Rightarrow> 's timers_scheme option) \<Rightarrow> tmid option \<Rightarrow> 's timers_scheme \<Rightarrow> 's timers_scheme option"
      and cb n and ts ts' :: "'s timers_scheme" and b
    assume IH: "\<And>cb n ts z. check cb n ts = Some z \<Longrightarrow> ?P cb n ts z"
      and r: "(case n of None \<Rightarrow> Some ts
        | Some t \<Rightarrow> if expired ts t
            then do { k \<leftarrow> rt_exit_critical (tk ts);
                      ts1 \<leftarrow> cb t ((timer_remove t ts)\<lparr>tk := k\<rparr>);
                      ts2 \<leftarrow> after_timeout t (ts1\<lparr>tk := rt_enter_critical (tk ts1)\<rparr>);
                      check cb (next_node t (soft_list ts)) ts2 }
            else Some ts) = Some ts'"
      and b: "n = Some b" "b \<notin> set (soft_list ts)" "expired ts b" "\<not> activated (timer_of ts b)" "\<forall>ts. cb b ts = Some ts"
    then obtain k where k: "check cb (Some b) (upd_timer b (activated_update (\<lambda>_. False))
        ((timer_remove b ts)\<lparr>tk := rt_enter_critical k\<rparr>)) = Some ts'"
      by (auto simp: bind_eq_Some_conv after_timeout_def next_node_def)
    then show False using IH [OF k] b(2-5) by (simp add: expired_def)
  qed
  then show False using assms(2-5) by blast
qed

text \<open>Property C19. When the timeout function of a soft timer stops the timer behind it in the list, and that one
  has expired too, \<open>rt_soft_timer_check\<close> never returns: it keeps the pointer to the node that is no longer in
  the list, fires the timer although it has been stopped, and goes from the node to itself for
  ever.\<close>

theorem soft_check_hangs:
  assumes "soft_list ts = a # b # us" and "distinct (soft_list ts)" and "expired ts a" and "expired ts b"
    and "\<not> periodic (timer_of ts a)" and "activated (timer_of ts b)"
    and "\<forall>ts. cb a ts = Some (snd (rt_timer_stop b ts))" and "\<forall>ts. cb b ts = Some ts"
  shows "rt_soft_timer_check cb ts = None"
proof (rule ccontr)
  assume "rt_soft_timer_check cb ts \<noteq> None"
  then obtain ts' where "soft_check_loop cb (Some a) (ts\<lparr>tk := rt_enter_critical (tk ts)\<rparr>) = Some ts'"
    using assms(1) by (auto simp: rt_soft_timer_check_def bind_eq_Some_conv)
  then obtain k where "soft_check_loop cb (Some b) (upd_timer a (activated_update (\<lambda>_. False))
      ((snd (rt_timer_stop b ((timer_remove a ts)\<lparr>tk := k\<rparr>)))\<lparr>tk := rt_enter_critical k\<rparr>)) = Some ts'"
    using assms(1-7) unfolding soft_check_loop.simps [of cb "Some a"]
    by (auto simp: timer_remove_tk bind_eq_Some_conv after_timeout_def next_node_def expired_def rt_timer_stop_def split: if_splits)
  from unlinked_never_returns [OF this] assms show False
    by (auto simp: rt_timer_stop_def expired_def)
qed

theorem soft_check_hangs_witness:
  "rt_soft_timer_check (\<lambda>t ts. Some (if t = 5 then snd (rt_timer_stop 6 ts) else ts))
     (example_timers\<lparr>timer_of := (\<lambda>t. \<lparr>activated = True, periodic = False, soft = True, period = 20, timeout_tick = 0xFFFFFFFE\<rparr>),
        soft_list := [5, 6]\<rparr>) = None"
  by (rule soft_check_hangs [of _ 5 6 "[]"]) (simp_all add: expired_def example_timers_def)

end
