(* ===== verification/Semaphore.thy ===== *)
theory Semaphore
  imports Kernel
begin

text \<open>
  Counting semaphores: \<open>rt-thread/src/ipc.c\<close>, \<open>rt_sem_init\<close> to \<open>rt_sem_control\<close>.  The waiting list
  is the kernel's list \<open>Suspend (sem_id sem)\<close>.  A call that blocks is split at \<open>rt_schedule\<close>: it
  yields \<open>Blocked\<close>, and when the thread runs again it continues with \<open>take_resumed\<close>.
\<close>

section \<open>State and operations\<close>

record semaphore =
  sem_id :: nat
  sem_value :: u16
  sem_flag :: nat

datatype outcome = Returned rt_err | Blocked

text \<open>Waiting on an object, common to all kinds: suspend, start the timer when the wait is bounded,
  and give the processor away; most callers clear the thread's error first.\<close>

definition suspend_on :: "qid \<Rightarrow> nat \<Rightarrow> int \<Rightarrow> kernel \<Rightarrow> kernel option" where
  "suspend_on q flag time k =
     do { k1 \<leftarrow> ipc_list_suspend q (current k) flag k;
          k2 \<leftarrow> (if time > 0 then start_timer (current k) (nat time) k1 else Some k1);
          rt_schedule k2 }"

definition wait_on :: "qid \<Rightarrow> nat \<Rightarrow> int \<Rightarrow> kernel \<Rightarrow> kernel option" where
  "wait_on q flag time k = suspend_on q flag time (upd_thread (current k) (thread_error_update (\<lambda>_. RT_EOK)) k)"

definition rt_sem_init :: "nat \<Rightarrow> nat \<Rightarrow> nat \<Rightarrow> semaphore option" where
  "rt_sem_init oid value flag =
     (if value < 65536 then Some \<lparr>sem_id = oid, sem_value = word_of_nat value, sem_flag = flag\<rparr> else None)"

text \<open>\<open>rt_sem_create\<close> with the result of the allocation.\<close>

definition rt_sem_create :: "nat option \<Rightarrow> nat \<Rightarrow> nat \<Rightarrow> semaphore option option" where
  "rt_sem_create alloc value flag =
     (if value < 65536
      then Some (map_option (\<lambda>oid. \<lparr>sem_id = oid, sem_value = word_of_nat value, sem_flag = flag\<rparr>) alloc)
      else None)"

definition rt_sem_take :: "semaphore \<Rightarrow> int \<Rightarrow> kernel \<Rightarrow> (outcome \<times> semaphore \<times> kernel) option" where
  "rt_sem_take sem time k =
     (if sem_value sem > 0 then Some (Returned RT_EOK, sem\<lparr>sem_value := sem_value sem - 1\<rparr>, k)
      else if time = 0 then Some (Returned (- RT_ETIMEOUT), sem, k)
      else do { k' \<leftarrow> wait_on (Suspend (sem_id sem)) (sem_flag sem) time k; Some (Blocked, sem, k') })"

definition take_resumed :: "kernel \<Rightarrow> rt_err" where
  "take_resumed k =
     (if thread_error (threads k (current k)) \<noteq> RT_EOK then thread_error (threads k (current k)) else RT_EOK)"

definition rt_sem_trytake :: "semaphore \<Rightarrow> kernel \<Rightarrow> (outcome \<times> semaphore \<times> kernel) option" where
  "rt_sem_trytake sem k = rt_sem_take sem 0 k"

definition rt_sem_release :: "semaphore \<Rightarrow> kernel \<Rightarrow> (rt_err \<times> semaphore \<times> kernel) option" where
  "rt_sem_release sem k =
     (if linked k (Suspend (sem_id sem)) \<noteq> []
      then do { k1 \<leftarrow> ipc_list_resume (Suspend (sem_id sem)) k;
                k2 \<leftarrow> rt_schedule k1;
                Some (RT_EOK, sem, k2) }
      else Some (RT_EOK, sem\<lparr>sem_value := sem_value sem + 1\<rparr>, k))"

abbreviation (input) RT_IPC_CMD_RESET :: nat where "RT_IPC_CMD_RESET \<equiv> 1"

definition rt_sem_control :: "semaphore \<Rightarrow> nat \<Rightarrow> nat \<Rightarrow> kernel \<Rightarrow> (rt_err \<times> semaphore \<times> kernel) option" where
  "rt_sem_control sem cmd arg k =
     (if cmd = RT_IPC_CMD_RESET
      then do { k1 \<leftarrow> ipc_list_resume_all (Suspend (sem_id sem)) k;
                k2 \<leftarrow> rt_schedule k1;
                Some (RT_EOK, sem\<lparr>sem_value := word_of_nat arg\<rparr>, k2) }
      else Some (- RT_ERROR, sem, k))"

text \<open>\<open>rt_sem_detach\<close> and \<open>rt_sem_delete\<close> differ in what they do with the object's memory; both wake
  every waiter and do not reschedule.\<close>

definition rt_sem_detach :: "semaphore \<Rightarrow> kernel \<Rightarrow> (rt_err \<times> kernel) option" where
  "rt_sem_detach sem k = do { k1 \<leftarrow> ipc_list_resume_all (Suspend (sem_id sem)) k; Some (RT_EOK, k1) }"

definition rt_sem_delete :: "semaphore \<Rightarrow> kernel \<Rightarrow> (rt_err \<times> kernel) option" where
  "rt_sem_delete sem k = do { k1 \<leftarrow> ipc_list_resume_all (Suspend (sem_id sem)) k; Some (RT_EOK, k1) }"

section \<open>Waiting\<close>

text \<open>A running thread that waits goes into the list by the list's discipline; nothing else moves.\<close>

lemma suspend_on_ok:
  assumes k: "kernel_inv k" and run: "stat_of k (current k) = RT_THREAD_RUNNING"
    and q: "q = Suspend i \<or> q = Sender i" and flag: "flag \<le> 1" and time: "time < 2147483647"
  shows "\<exists>k'. suspend_on q flag time k = Some k' \<and> kernel_inv k' \<and>
    linked k' q = enqueued flag (prio_of k) (current k) (linked k q) \<and>
    (\<forall>q'. q' \<noteq> q \<longrightarrow> (\<forall>p. q' \<noteq> Ready p) \<longrightarrow> linked k' q' = linked k q') \<and>
    (\<forall>t. prio_of k' t = prio_of k t \<and> thread_error (threads k' t) = thread_error (threads k t) \<and>
       event_set (threads k' t) = event_set (threads k t) \<and> event_info (threads k' t) = event_info (threads k t) \<and>
       thread_timer (threads k' t) = (if t = current k then (if time > 0 then Some (nat time) else None)
                                      else thread_timer (threads k t)) \<and>
       (stat_of k' t = RT_THREAD_SUSPEND \<longleftrightarrow> t = current k \<or> stat_of k t = RT_THREAD_SUSPEND))"
proof -
  let ?c = "current k"
  obtain k1 where s: "ipc_list_suspend q ?c flag k = Some k1" and k1: "kernel_inv k1"
    and t1: "threads k1 = (threads k)(?c := (threads k ?c)\<lparr>stat := RT_THREAD_SUSPEND, thread_timer := None\<rparr>)"
    and l1: "linked k1 q = enqueued flag (prio_of k) ?c (linked k q)"
    and o1: "\<And>q'. q' \<noteq> q \<Longrightarrow> linked k1 q' = removeAll ?c (linked k q')"
    using ipc_list_suspend_ok [OF k q flag, of ?c] run by auto
  let ?k2 = "if time > 0 then upd_thread ?c (thread_timer_update (\<lambda>_. Some (nat time))) k1 else k1"
  have k2: "kernel_inv ?k2" using k1 by (auto intro: inv_upd)
  obtain k' where r: "rt_schedule ?k2 = Some k'" and k': "kernel_inv k'" using schedule_ok [OF k2] by blast
  have "suspend_on q flag time k = Some k'"
    using s r time by (auto simp: suspend_on_def start_timer_def nat_less_iff split: if_splits)
  moreover have "linked k' q = enqueued flag (prio_of k) ?c (linked k q)"
    using schedule_frameD(9,10) [OF k2 r] q l1 by auto
  moreover have "linked k' q' = linked k q'" if "q' \<noteq> q" "\<forall>p. q' \<noteq> Ready p" for q'
  proof -
    have "?c \<notin> set (linked k q')" using running_unlinked [OF k, of ?c q'] run by simp
    then have "linked ?k2 q' = linked k q'" using o1 [OF that(1)] by (simp add: removeAll_id)
    moreover have "linked k' q' = linked ?k2 q'" using schedule_frame [OF k2 r] that(2) by blast
    ultimately show ?thesis by simp
  qed
  ultimately show ?thesis
    using k' schedule_frameD(1-5,8) [OF k2 r] run by (auto simp: t1)
qed

lemma wait_on_ok:
  assumes k: "kernel_inv k" and run: "stat_of k (current k) = RT_THREAD_RUNNING"
    and q: "q = Suspend i \<or> q = Sender i" and flag: "flag \<le> 1" and time: "time < 2147483647"
  shows "\<exists>k'. wait_on q flag time k = Some k' \<and> kernel_inv k' \<and>
    linked k' q = enqueued flag (prio_of k) (current k) (linked k q)"
proof -
  let ?k0 = "upd_thread (current k) (thread_error_update (\<lambda>_. RT_EOK)) k"
  have k0: "kernel_inv ?k0" by (rule inv_upd [OF k]) simp
  have "prio_of ?k0 = prio_of k" by auto
  then show ?thesis
    using suspend_on_ok [OF k0 _ q flag time] run unfolding wait_on_def by auto
qed

section \<open>Invariant\<close>

text \<open>A thread waits only while the semaphore has no tokens.\<close>

definition sem_inv :: "semaphore \<Rightarrow> kernel \<Rightarrow> bool" where
  "sem_inv sem k \<longleftrightarrow> kernel_inv k \<and> sem_flag sem \<le> 1 \<and>
     (sem_value sem \<noteq> 0 \<longrightarrow> linked k (Suspend (sem_id sem)) = [])"

lemma sem_take_ok:
  assumes i: "sem_inv sem k" and run: "stat_of k (current k) = RT_THREAD_RUNNING" and time: "time < 2147483647"
  shows "\<exists>out sem' k'. rt_sem_take sem time k = Some (out, sem', k') \<and> sem_inv sem' k' \<and>
    sem_id sem' = sem_id sem \<and>
    (if sem_value sem > 0
     then out = Returned RT_EOK \<and> sem_value sem' = sem_value sem - 1 \<and> k' = k
     else sem' = sem \<and>
       (if time = 0 then out = Returned (- RT_ETIMEOUT) \<and> k' = k
        else out = Blocked \<and> linked k' (Suspend (sem_id sem)) =
          enqueued (sem_flag sem) (prio_of k) (current k) (linked k (Suspend (sem_id sem)))))"
proof -
  have k: "kernel_inv k" and f: "sem_flag sem \<le> 1" using i by (auto simp: sem_inv_def)
  consider (avail) "sem_value sem > 0" | (no) "sem_value sem = 0" "time = 0" | (wait) "sem_value sem = 0" "time \<noteq> 0"
    by (metis word_gt_0)
  then show ?thesis
  proof cases
    case wait
    obtain k' where "wait_on (Suspend (sem_id sem)) (sem_flag sem) time k = Some k'" "kernel_inv k'"
      "linked k' (Suspend (sem_id sem)) = enqueued (sem_flag sem) (prio_of k) (current k) (linked k (Suspend (sem_id sem)))"
      using wait_on_ok [OF k run _ f time, of "Suspend (sem_id sem)" "sem_id sem"] by auto
    then show ?thesis using wait f by (auto simp: rt_sem_take_def sem_inv_def)
  qed (use i in \<open>auto simp: rt_sem_take_def sem_inv_def word_gt_0\<close>)
qed

lemma sem_release_ok:
  assumes i: "sem_inv sem k"
  shows "\<exists>sem' k'. rt_sem_release sem k = Some (RT_EOK, sem', k') \<and> sem_inv sem' k' \<and> sem_id sem' = sem_id sem \<and>
    (case linked k (Suspend (sem_id sem)) of
       [] \<Rightarrow> k' = k \<and> sem_value sem' = sem_value sem + 1
     | t # ts \<Rightarrow> sem' = sem \<and> linked k' (Suspend (sem_id sem)) = ts \<and> stat_of k' t \<noteq> RT_THREAD_SUSPEND \<and>
         (\<forall>u. thread_error (threads k' u) = thread_error (threads k u)))"
proof (cases "linked k (Suspend (sem_id sem))")
  case Nil
  then show ?thesis using i by (auto simp: rt_sem_release_def sem_inv_def)
next
  case (Cons t ts)
  have k: "kernel_inv k" using i by (simp add: sem_inv_def)
  obtain k1 where r: "ipc_list_resume (Suspend (sem_id sem)) k = Some k1" and k1: "kernel_inv k1"
    and l: "linked k1 (Suspend (sem_id sem)) = ts"
    and th: "threads k1 = (threads k)(t := (threads k t)\<lparr>thread_timer := None,
      stat := if t = current k then RT_THREAD_RUNNING else RT_THREAD_READY\<rparr>)"
    using resume_head [OF k, of "Suspend (sem_id sem)" "sem_id sem" t ts] Cons by auto
  obtain k' where s: "rt_schedule k1 = Some k'" and k': "kernel_inv k'" using schedule_ok [OF k1] by blast
  show ?thesis
    using Cons r s k' i schedule_frameD(1,8,9) [OF k1 s] l
    by (auto simp: rt_sem_release_def sem_inv_def th)
qed

lemma sem_reset_ok:
  assumes i: "sem_inv sem k"
  shows "\<exists>sem' k'. rt_sem_control sem RT_IPC_CMD_RESET arg k = Some (RT_EOK, sem', k') \<and> sem_inv sem' k' \<and>
    sem_id sem' = sem_id sem \<and> sem_value sem' = word_of_nat arg \<and> linked k' (Suspend (sem_id sem)) = [] \<and>
    (\<forall>t \<in> set (linked k (Suspend (sem_id sem))). thread_error (threads k' t) = - RT_ERROR \<and>
       stat_of k' t \<noteq> RT_THREAD_SUSPEND)"
proof -
  have k: "kernel_inv k" using i by (simp add: sem_inv_def)
  obtain k1 where r: "ipc_list_resume_all (Suspend (sem_id sem)) k = Some k1" and k1: "kernel_inv k1"
    and l: "linked k1 (Suspend (sem_id sem)) = []"
    and th: "\<And>t. t \<in> set (linked k (Suspend (sem_id sem))) \<Longrightarrow> threads k1 t = (threads k t)\<lparr>thread_error := - RT_ERROR,
      thread_timer := None, stat := if t = current k then RT_THREAD_RUNNING else RT_THREAD_READY\<rparr>"
    using ipc_list_resume_all_ok [OF k, of "Suspend (sem_id sem)" "sem_id sem"] by auto
  obtain k' where s: "rt_schedule k1 = Some k'" and k': "kernel_inv k'" using schedule_ok [OF k1] by blast
  show ?thesis
    using r s k' i l schedule_frameD(1,8,9) [OF k1 s] by (auto simp: rt_sem_control_def sem_inv_def th)
qed

section \<open>Histories of one semaphore\<close>

text \<open>What a call did, from the point of view of the tokens: a thread took a stored one, was
  refused, went to wait; a release stored a token or handed it to the first waiter; or something
  else happened in the kernel (timeouts, deletions, other objects), which can only shorten the
  waiting list.\<close>

datatype sem_event = Took tid | Refused tid | Waits tid | Stored | Handed tid | Elsewhere

inductive sem_step :: "semaphore \<times> kernel \<Rightarrow> sem_event \<Rightarrow> semaphore \<times> kernel \<Rightarrow> bool" where
  take: "rt_sem_take sem time k = Some (out, sem', k') \<Longrightarrow> stat_of k (current k) = RT_THREAD_RUNNING \<Longrightarrow>
    time < 2147483647 \<Longrightarrow>
    sem_step (sem, k) (case out of Returned r \<Rightarrow> if r = RT_EOK then Took (current k) else Refused (current k)
                                 | Blocked \<Rightarrow> Waits (current k)) (sem', k')"
| release: "rt_sem_release sem k = Some (r, sem', k') \<Longrightarrow>
    sem_step (sem, k) (case linked k (Suspend (sem_id sem)) of [] \<Rightarrow> Stored | t # _ \<Rightarrow> Handed t) (sem', k')"
| elsewhere: "kernel_step k k' \<Longrightarrow> set (linked k' (Suspend (sem_id sem))) \<subseteq> set (linked k (Suspend (sem_id sem))) \<Longrightarrow>
    sem_step (sem, k) Elsewhere (sem, k')"

inductive sem_run :: "semaphore \<times> kernel \<Rightarrow> sem_event list \<Rightarrow> semaphore \<times> kernel \<Rightarrow> bool" where
  start: "sem_run s [] s"
| more: "sem_step s e s' \<Longrightarrow> sem_run s' es s'' \<Longrightarrow> sem_run s (e # es) s''"

inductive_cases sem_runE: "sem_run s (e # es) s'"

fun is_release :: "sem_event \<Rightarrow> bool" where
  "is_release Stored = True" | "is_release (Handed t) = True" | "is_release _ = False"

fun is_grant :: "sem_event \<Rightarrow> bool" where
  "is_grant (Took t) = True" | "is_grant (Handed t) = True" | "is_grant _ = False"

definition releases :: "sem_event list \<Rightarrow> nat" where
  "releases es = length (filter is_release es)"

definition grants :: "sem_event list \<Rightarrow> nat" where
  "grants es = length (filter is_grant es)"

lemma sem_step_ok:
  assumes "sem_step (sem, k) e (sem', k')" and i: "sem_inv sem k"
  shows "sem_inv sem' k' \<and>
    (unat (sem_value sem) + releases [e] < 65536 \<longrightarrow>
       unat (sem_value sem') + grants [e] = unat (sem_value sem) + releases [e])"
  using assms(1)
proof (cases rule: sem_step.cases)
  case (take time out)
  obtain out' sem1 k1 where r: "rt_sem_take sem time k = Some (out', sem1, k1)" "sem_inv sem1 k1"
    and c: "if sem_value sem > 0
     then out' = Returned RT_EOK \<and> sem_value sem1 = sem_value sem - 1 \<and> k1 = k
     else sem1 = sem \<and> (if time = 0 then out' = Returned (- RT_ETIMEOUT) \<and> k1 = k
        else out' = Blocked \<and> linked k1 (Suspend (sem_id sem)) =
          enqueued (sem_flag sem) (prio_of k) (current k) (linked k (Suspend (sem_id sem))))"
    using sem_take_ok [OF i take(3,4)] by blast
  have e: "out' = out" "sem1 = sem'" "k1 = k'" using r take(2) by auto
  show ?thesis
  proof (cases "sem_value sem > 0")
    case True
    then have "unat (sem_value sem - 1) + 1 = unat (sem_value sem)"
      by (simp add: unat_minus_one word_gt_0 unat_gt_0)
    then show ?thesis using c e r(2) take(1) True by (auto simp: releases_def grants_def)
  next
    case False
    then show ?thesis using c e r(2) take(1) by (auto simp: releases_def grants_def split: if_splits)
  qed
next
  case (release r)
  obtain sem1 k1 where q: "rt_sem_release sem k = Some (RT_EOK, sem1, k1)" "sem_inv sem1 k1"
    and c: "case linked k (Suspend (sem_id sem)) of
       [] \<Rightarrow> k1 = k \<and> sem_value sem1 = sem_value sem + 1
     | t # ts \<Rightarrow> sem1 = sem \<and> linked k1 (Suspend (sem_id sem)) = ts \<and> stat_of k1 t \<noteq> RT_THREAD_SUSPEND \<and>
         (\<forall>u. thread_error (threads k1 u) = thread_error (threads k u))"
    using sem_release_ok [OF i] by blast
  have e: "sem1 = sem'" "k1 = k'" using q release(2) by auto
  have inc: "unat (sem_value sem + 1) = unat (sem_value sem) + 1" if "unat (sem_value sem) + 1 < 65536"
    using that by (subst unat_add_lem [THEN iffD1]) simp_all
  show ?thesis
    using c e q(2) release(1) inc by (auto simp: releases_def grants_def split: list.splits)
next
  case elsewhere
  have "kernel_inv k'" using elsewhere(3) i kernel_step_inv by (auto simp: sem_inv_def)
  then show ?thesis using elsewhere i by (auto simp: sem_inv_def releases_def grants_def)
qed

lemma releases_Cons: "releases (e # es) = releases [e] + releases es"
  by (simp add: releases_def)

lemma grants_Cons: "grants (e # es) = grants [e] + grants es"
  by (simp add: grants_def)

lemma sem_run_ok:
  assumes "sem_run (sem, k) es (sem', k')" and "sem_inv sem k"
  shows "sem_inv sem' k' \<and> (unat (sem_value sem) + releases es < 65536 \<longrightarrow>
     unat (sem_value sem') + grants es = unat (sem_value sem) + releases es)"
  using assms
proof (induction es arbitrary: sem k)
  case Nil
  then show ?case by (auto elim: sem_run.cases simp: releases_def grants_def)
next
  case (Cons e es)
  obtain sem1 k1 where s: "sem_step (sem, k) e (sem1, k1)" and r: "sem_run (sem1, k1) es (sem', k')"
    using Cons.prems(1) by (auto elim!: sem_runE)
  have a: "sem_inv sem1 k1" "unat (sem_value sem) + releases [e] < 65536 \<Longrightarrow>
      unat (sem_value sem1) + grants [e] = unat (sem_value sem) + releases [e]"
    using sem_step_ok [OF s Cons.prems(2)] by auto
  show ?case using Cons.IH [OF r a(1)] a(2) releases_Cons [of e es] grants_Cons [of e es] by linarith
qed

section \<open>A waiting thread\<close>

text \<open>The idle thread (0) runs while the main thread (1) waits for object 9.\<close>

definition waiting_kernel :: kernel where
  "waiting_kernel = (boot_kernel (\<lambda>_. 25))
     \<lparr>threads := (\<lambda>t. if t = 0 then (new_thread 31 32)\<lparr>stat := RT_THREAD_RUNNING, number_mask := push_bit 31 1\<rparr>
                     else if t = 1 then (new_thread 10 20)\<lparr>stat := RT_THREAD_SUSPEND, number_mask := push_bit 10 1\<rparr>
                     else new_thread 25 10),
      linked := (\<lambda>q. if q = Suspend 9 then [1] else []), ready_group := 0, current := 0\<rparr>"

lemma waiting_kernel_inv: "kernel_inv waiting_kernel"
proof -
  have "bitmap_ok waiting_kernel" "links_ok waiting_kernel"
    by (auto simp: bitmap_ok_def links_ok_def waiting_kernel_def)
  moreover have "stats_ok waiting_kernel"
    by (auto simp: stats_ok_def waiting_kernel_def boot_kernel_def thread_ok_def new_thread_def)
  ultimately show ?thesis by (simp add: kernel_inv_def)
qed

section \<open>Properties\<close>


definition example_sem :: semaphore where
  "example_sem = \<lparr>sem_id = 7, sem_value = 0, sem_flag = 1\<rparr>"

lemma example_sem_inv: "sem_inv example_sem (boot_kernel (\<lambda>_. 25))"
  using boot_kernel_inv [of "\<lambda>_. 25"] by (simp add: sem_inv_def example_sem_def boot_kernel_def)

lemma example_sem_run:
  "sem_run (example_sem, boot_kernel (\<lambda>_. 25)) [Stored, Took 1, Refused 1]
     (example_sem, boot_kernel (\<lambda>_. 25))"
proof -
  let ?k = "boot_kernel (\<lambda>_. 25)" and ?s = "example_sem\<lparr>sem_value := 1\<rparr>"
  have cur: "current ?k = 1" "stat_of ?k 1 = RT_THREAD_RUNNING" by (simp_all add: boot_kernel_def)
  have empty: "linked ?k (Suspend i) = []" for i by (simp add: boot_kernel_def)
  have "rt_sem_release example_sem ?k = Some (RT_EOK, ?s, ?k)"
    by (simp add: rt_sem_release_def empty example_sem_def)
  from sem_step.release [OF this] have 1: "sem_step (example_sem, ?k) Stored (?s, ?k)" by (simp add: empty)
  have "rt_sem_take ?s 0 ?k = Some (Returned RT_EOK, example_sem, ?k)"
    by (simp add: rt_sem_take_def example_sem_def)
  from sem_step.take [OF this] have 2: "sem_step (?s, ?k) (Took 1) (example_sem, ?k)" using cur by simp
  have "rt_sem_take example_sem 0 ?k = Some (Returned (- RT_ETIMEOUT), example_sem, ?k)"
    by (simp add: rt_sem_take_def example_sem_def)
  from sem_step.take [OF this] have 3: "sem_step (example_sem, ?k) (Refused 1) (example_sem, ?k)" using cur by simp
  show ?thesis using 1 2 3 by (blast intro: sem_run.intros)
qed


text \<open>A release with waiters resumes exactly the head of the waiting list: that thread can
  run again, the others stay suspended in their order, no token is stored, and no thread's error
  changes, so the resumed one returns with the \<open>RT_EOK\<close> it set before it waited.\<close>

theorem release_wakes_first:
  assumes "sem_inv sem k" and "linked k (Suspend (sem_id sem)) = t # ts"
  shows "\<exists>k'. rt_sem_release sem k = Some (RT_EOK, sem, k') \<and> linked k' (Suspend (sem_id sem)) = ts \<and>
    stat_of k t = RT_THREAD_SUSPEND \<and> stat_of k' t \<in> {RT_THREAD_READY, RT_THREAD_RUNNING} \<and>
    (\<forall>u \<in> set ts. stat_of k' u = RT_THREAD_SUSPEND) \<and> thread_error (threads k' t) = thread_error (threads k t)"
proof -
  have k: "kernel_inv k" using assms(1) by (simp add: sem_inv_def)
  obtain sem' k' where r: "rt_sem_release sem k = Some (RT_EOK, sem', k')" "sem_inv sem' k'" "sem_id sem' = sem_id sem"
    and c: "sem' = sem" "linked k' (Suspend (sem_id sem)) = ts"
    and e: "\<And>u. thread_error (threads k' u) = thread_error (threads k u)"
    using sem_release_ok [OF assms(1)] assms(2) by auto
  have k': "kernel_inv k'" using r(2) by (simp add: sem_inv_def)
  have st: "stat_of k t = RT_THREAD_SUSPEND" using suspended_in [OF k, of "Suspend (sem_id sem)"] assms(2) by auto
  obtain k1 where k1: "ipc_list_resume (Suspend (sem_id sem)) k = Some k1" "kernel_inv k1"
    "stat_of k1 t \<in> {RT_THREAD_READY, RT_THREAD_RUNNING}" and s: "rt_schedule k1 = Some k'"
  proof -
    obtain k1 where a: "ipc_list_resume (Suspend (sem_id sem)) k = Some k1" "kernel_inv k1"
      "threads k1 = (threads k)(t := (threads k t)\<lparr>thread_timer := None,
        stat := if t = current k then RT_THREAD_RUNNING else RT_THREAD_READY\<rparr>)"
      using resume_head [OF k, of "Suspend (sem_id sem)" "sem_id sem" t ts] assms(2) by auto
    then show thesis using that r(1) assms(2) by (auto simp: rt_sem_release_def bind_eq_Some_conv)
  qed
  have "stat_of k' t \<in> {RT_THREAD_READY, RT_THREAD_RUNNING}"
    using k1(3) schedule_runnable [OF k1(2) s] by blast
  moreover have "\<forall>u \<in> set ts. stat_of k' u = RT_THREAD_SUSPEND"
    using suspended_in [OF k', of "Suspend (sem_id sem)"] c(2) by auto
  ultimately show ?thesis using r(1) c st e by blast
qed

theorem release_wakes_first_witness:
  "\<exists>k'. rt_sem_release (example_sem\<lparr>sem_id := 9\<rparr>) waiting_kernel = Some (RT_EOK, example_sem\<lparr>sem_id := 9\<rparr>, k') \<and>
    stat_of k' 1 \<in> {RT_THREAD_READY, RT_THREAD_RUNNING}"
proof -
  have "sem_inv (example_sem\<lparr>sem_id := 9\<rparr>) waiting_kernel"
    using waiting_kernel_inv by (simp add: sem_inv_def example_sem_def)
  moreover have "linked waiting_kernel (Suspend (sem_id (example_sem\<lparr>sem_id := 9\<rparr>))) = [1]"
    by (simp add: waiting_kernel_def)
  ultimately show ?thesis using release_wakes_first [of "example_sem\<lparr>sem_id := 9\<rparr>" waiting_kernel 1 "[]"] by auto
qed

text \<open>Nothing checks the counter against its 16 bits: the release at 65535 reports
  success and drops all 65536 tokens, after which a take is refused.\<close>

theorem release_overflow_loses_tokens:
  assumes "sem_inv sem k" and "sem_value sem = 65535"
  shows "\<exists>sem'. rt_sem_release sem k = Some (RT_EOK, sem', k) \<and> sem_value sem' = 0 \<and>
    rt_sem_trytake sem' k = Some (Returned (- RT_ETIMEOUT), sem', k)"
proof -
  have "linked k (Suspend (sem_id sem)) = []" using assms by (simp add: sem_inv_def)
  then show ?thesis using assms(2) by (auto simp: rt_sem_release_def rt_sem_trytake_def rt_sem_take_def)
qed

theorem release_overflow_loses_tokens_witness:
  "\<exists>sem'. rt_sem_release (example_sem\<lparr>sem_value := 65535\<rparr>) (boot_kernel (\<lambda>_. 25)) =
     Some (RT_EOK, sem', boot_kernel (\<lambda>_. 25)) \<and> sem_value sem' = 0"
proof -
  have "sem_inv (example_sem\<lparr>sem_value := 65535\<rparr>) (boot_kernel (\<lambda>_. 25))"
    using example_sem_inv by (simp add: sem_inv_def example_sem_def boot_kernel_def)
  from release_overflow_loses_tokens [OF this] show ?thesis by auto
qed

end
