(* ===== verification/Fifo.thy ===== *)
theory Fifo
  imports Prelude
begin

text \<open>
  The contract of the bounded first-in-first-out queues of the system, as their clients use them
  without waiting: a \<open>put\<close> that is refused when the queue is full and a \<open>get\<close> that finds nothing
  when it is empty; \<open>fits\<close> says which elements the queue can hold.  The histories of a queue are lists of these two operations; what the locale
  proves about them holds for every queue that is shown to keep the contract (the ring buffer's
  character operations, the mailbox and the message queue).
\<close>

datatype 'a fifo_op = Put 'a | Get

locale bounded_fifo =
  fixes contents :: "'q \<Rightarrow> 'a list"
    and valid :: "'q \<Rightarrow> bool"
    and capacity :: "'q \<Rightarrow> nat"
    and fits :: "'q \<Rightarrow> 'a \<Rightarrow> bool"
    and put :: "'a \<Rightarrow> 'q \<Rightarrow> (bool \<times> 'q) option"
    and get :: "'q \<Rightarrow> ('a option \<times> 'q) option"
  assumes within: "valid q \<Longrightarrow> length (contents q) \<le> capacity q"
    and put_law: "valid q \<Longrightarrow> fits q x \<Longrightarrow> \<exists>q'. put x q = Some (length (contents q) < capacity q, q') \<and> valid q' \<and>
      capacity q' = capacity q \<and> fits q' = fits q \<and>
      contents q' = (if length (contents q) < capacity q then contents q @ [x] else contents q)"
    and get_law: "valid q \<Longrightarrow> \<exists>q'. get q = Some (case contents q of [] \<Rightarrow> None | x # _ \<Rightarrow> Some x, q') \<and>
      valid q' \<and> capacity q' = capacity q \<and> fits q' = fits q \<and> contents q' = tl (contents q)"
begin

text \<open>A history gives the elements that were accepted and those that were taken out.\<close>

fun history :: "'a fifo_op list \<Rightarrow> 'q \<Rightarrow> ('a list \<times> 'a list \<times> 'q) option" where
  "history [] q = Some ([], [], q)"
| "history (Put x # ops) q =
     do { (ok, q1) \<leftarrow> put x q;
          (acc, out, q2) \<leftarrow> history ops q1;
          Some (if ok then x # acc else acc, out, q2) }"
| "history (Get # ops) q =
     do { (r, q1) \<leftarrow> get q;
          (acc, out, q2) \<leftarrow> history ops q1;
          Some (acc, case r of None \<Rightarrow> out | Some x \<Rightarrow> x # out, q2) }"

text \<open>Order is kept and nothing is lost or duplicated: what was there and what was accepted is,
  in this order, what came out followed by what is still there.\<close>

lemma history_fifo:
  assumes "valid q" and "\<forall>x. Put x \<in> set ops \<longrightarrow> fits q x"
  shows "\<exists>acc out q'. history ops q = Some (acc, out, q') \<and> valid q' \<and> capacity q' = capacity q \<and>
    contents q @ acc = out @ contents q'"
  using assms
proof (induction ops arbitrary: q)
  case Nil
  then show ?case by simp
next
  case (Cons op ops)
  show ?case
  proof (cases op)
    case (Put x)
    obtain q1 where p: "put x q = Some (length (contents q) < capacity q, q1)" "valid q1" "capacity q1 = capacity q"
      "contents q1 = (if length (contents q) < capacity q then contents q @ [x] else contents q)" "fits q1 = fits q"
      using put_law [OF Cons.prems(1), of x] Cons.prems(2) Put by auto
    obtain acc out q2 where h: "history ops q1 = Some (acc, out, q2)" "valid q2" "capacity q2 = capacity q1"
      "contents q1 @ acc = out @ contents q2"
      using Cons.IH [OF p(2)] Cons.prems(2) p(5) by auto
    show ?thesis using Put p h by (cases "length (contents q) < capacity q") simp_all
  next
    case Get
    obtain q1 where p: "get q = Some (case contents q of [] \<Rightarrow> None | x # _ \<Rightarrow> Some x, q1)" "valid q1"
      "capacity q1 = capacity q" "contents q1 = tl (contents q)" "fits q1 = fits q"
      using get_law [OF Cons.prems(1)] by blast
    obtain acc out q2 where h: "history ops q1 = Some (acc, out, q2)" "valid q2" "capacity q2 = capacity q1"
      "contents q1 @ acc = out @ contents q2"
      using Cons.IH [OF p(2)] Cons.prems(2) p(5) by auto
    show ?thesis using Get p h by (cases "contents q") simp_all
  qed
qed

text \<open>With room for all of them, a run of puts is accepted whole.\<close>

lemma history_puts:
  assumes "valid q" and "length (contents q) + length xs \<le> capacity q" and "list_all (fits q) xs"
  shows "\<exists>q'. history (map Put xs) q = Some (xs, [], q') \<and> valid q' \<and> contents q' = contents q @ xs"
  using assms
proof (induction xs arbitrary: q)
  case Nil
  then show ?case by simp
next
  case (Cons x xs)
  obtain q1 where p: "put x q = Some (length (contents q) < capacity q, q1)" "valid q1" "capacity q1 = capacity q"
    "contents q1 = (if length (contents q) < capacity q then contents q @ [x] else contents q)" "fits q1 = fits q"
    using put_law [OF Cons.prems(1), of x] Cons.prems(3) by auto
  have room: "length (contents q) < capacity q" using Cons.prems(2) by simp
  have "length (contents q1) + length xs \<le> capacity q1" using Cons.prems(2) p(3,4) room by simp
  from Cons.IH [OF p(2) this] show ?case using p room Cons.prems(3) by auto
qed

text \<open>As many gets as there are elements take them all, in order.\<close>

lemma history_gets:
  assumes "valid q"
  shows "\<exists>q'. history (replicate n Get) q = Some ([], take n (contents q), q') \<and> valid q' \<and>
    contents q' = drop n (contents q)"
  using assms
proof (induction n arbitrary: q)
  case 0
  then show ?case by simp
next
  case (Suc n)
  obtain q1 where p: "get q = Some (case contents q of [] \<Rightarrow> None | x # _ \<Rightarrow> Some x, q1)" "valid q1"
    "contents q1 = tl (contents q)"
    using get_law [OF Suc.prems] by blast
  obtain q2 where h: "history (replicate n Get) q1 = Some ([], take n (contents q1), q2)" "valid q2"
    "contents q2 = drop n (contents q1)"
    using Suc.IH [OF p(2)] by blast
  show ?case using p h by (cases "contents q") simp_all
qed

end

end
