(* ===== verification/Mailbox.thy ===== *)
theory Mailbox
  imports Semaphore RingBuffer Fifo
begin

text \<open>
  Mailboxes: \<open>rt-thread/src/ipc.c\<close>, \<open>rt_mb_init\<close> to \<open>rt_mb_control\<close>.  Receivers wait in the kernel's
  list \<open>Suspend (mb_id mb)\<close>, senders in \<open>Sender (mb_id mb)\<close>.  The retry loops of the code are cut
  at \<open>rt_schedule\<close>: one pass is \<open>send_pass\<close> or \<open>recv_pass\<close>, and a call that was blocked goes on
  with \<open>send_resumed\<close> or \<open>recv_resumed\<close>, given the ticks it slept.  Offsets and counts are 16 bit
  in the code and at most \<open>mb_size\<close> by the invariant, so they are naturals here.
\<close>

section \<open>State and operations\<close>

record mailbox =
  mb_id :: nat
  mb_flag :: nat
  msg_pool :: "u32 list"
  mb_size :: nat
  entry :: nat
  in_offset :: nat
  out_offset :: nat

definition rt_mb_init :: "nat \<Rightarrow> u32 list \<Rightarrow> nat \<Rightarrow> nat \<Rightarrow> mailbox" where
  "rt_mb_init oid msgpool sz flag =
     \<lparr>mb_id = oid, mb_flag = flag, msg_pool = msgpool, mb_size = sz, entry = 0, in_offset = 0, out_offset = 0\<rparr>"

text \<open>\<open>rt_mb_create\<close> with the results of its two allocations, the object and the pool.\<close>

definition rt_mb_create :: "nat option \<Rightarrow> u32 list option \<Rightarrow> nat \<Rightarrow> nat \<Rightarrow> mailbox option" where
  "rt_mb_create alloc pool sz flag =
     do { oid \<leftarrow> alloc; p \<leftarrow> pool; Some (rt_mb_init oid p sz flag) }"

text \<open>The tail of both calls: let one thread of the other side go on.\<close>

definition wake_one :: "qid \<Rightarrow> kernel \<Rightarrow> kernel option" where
  "wake_one q k =
     (if linked k q \<noteq> [] then do { k1 \<leftarrow> ipc_list_resume q k; rt_schedule k1 } else Some k)"

definition send_pass ::
  "mailbox \<Rightarrow> u32 \<Rightarrow> int \<Rightarrow> kernel \<Rightarrow> (outcome \<times> mailbox \<times> kernel) option" where
  "send_pass mb value timeout k =
     (if entry mb = mb_size mb
      then if timeout = 0
           then Some (Returned (- RT_EFULL), mb, upd_thread (current k) (thread_error_update (\<lambda>_. RT_EOK)) k)
           else do { k' \<leftarrow> wait_on (Sender (mb_id mb)) (mb_flag mb) timeout k; Some (Blocked, mb, k') }
      else do { p \<leftarrow> mem_store (in_offset mb) [value] (msg_pool mb);
                let mb' = mb\<lparr>msg_pool := p,
                             in_offset := (if in_offset mb + 1 \<ge> mb_size mb then 0 else in_offset mb + 1),
                             entry := entry mb + 1\<rparr>;
                k' \<leftarrow> wake_one (Suspend (mb_id mb)) k;
                Some (Returned RT_EOK, mb', k') })"

definition rt_mb_send_wait ::
  "mailbox \<Rightarrow> u32 \<Rightarrow> int \<Rightarrow> kernel \<Rightarrow> (outcome \<times> mailbox \<times> kernel) option" where
  "rt_mb_send_wait mb value timeout k =
     (if entry mb = mb_size mb \<and> timeout = 0 then Some (Returned (- RT_EFULL), mb, k)
      else send_pass mb value timeout k)"

text \<open>What is left of a bounded wait after \<open>slept\<close> ticks.\<close>

definition time_left :: "int \<Rightarrow> nat \<Rightarrow> int" where
  "time_left timeout slept =
     (if timeout > 0 then (if timeout - int slept < 0 then 0 else timeout - int slept) else timeout)"

definition send_resumed ::
  "mailbox \<Rightarrow> u32 \<Rightarrow> int \<Rightarrow> nat \<Rightarrow> kernel \<Rightarrow> (outcome \<times> mailbox \<times> kernel) option" where
  "send_resumed mb value timeout slept k =
     (if thread_error (threads k (current k)) \<noteq> RT_EOK
      then Some (Returned (thread_error (threads k (current k))), mb, k)
      else send_pass mb value (time_left timeout slept) k)"

definition rt_mb_send :: "mailbox \<Rightarrow> u32 \<Rightarrow> kernel \<Rightarrow> (outcome \<times> mailbox \<times> kernel) option" where
  "rt_mb_send mb value k = rt_mb_send_wait mb value 0 k"

text \<open>The second component of a receive is what it stored in \<open>*value\<close>, if it did.\<close>

definition recv_pass ::
  "mailbox \<Rightarrow> int \<Rightarrow> kernel \<Rightarrow> (outcome \<times> u32 option \<times> mailbox \<times> kernel) option" where
  "recv_pass mb timeout k =
     (if entry mb = 0
      then if timeout = 0
           then Some (Returned (- RT_ETIMEOUT), None, mb,
                      upd_thread (current k) (thread_error_update (\<lambda>_. - RT_ETIMEOUT)) k)
           else do { k' \<leftarrow> wait_on (Suspend (mb_id mb)) (mb_flag mb) timeout k; Some (Blocked, None, mb, k') }
      else do { xs \<leftarrow> mem_load (out_offset mb) 1 (msg_pool mb);
                let mb' = mb\<lparr>out_offset := (if out_offset mb + 1 \<ge> mb_size mb then 0 else out_offset mb + 1),
                             entry := entry mb - 1\<rparr>;
                k' \<leftarrow> wake_one (Sender (mb_id mb)) k;
                Some (Returned RT_EOK, Some (hd xs), mb', k') })"

definition rt_mb_recv ::
  "mailbox \<Rightarrow> int \<Rightarrow> kernel \<Rightarrow> (outcome \<times> u32 option \<times> mailbox \<times> kernel) option" where
  "rt_mb_recv mb timeout k =
     (if entry mb = 0 \<and> timeout = 0 then Some (Returned (- RT_ETIMEOUT), None, mb, k)
      else recv_pass mb timeout k)"

definition recv_resumed ::
  "mailbox \<Rightarrow> int \<Rightarrow> nat \<Rightarrow> kernel \<Rightarrow> (outcome \<times> u32 option \<times> mailbox \<times> kernel) option" where
  "recv_resumed mb timeout slept k =
     (if thread_error (threads k (current k)) \<noteq> RT_EOK
      then Some (Returned (thread_error (threads k (current k))), None, mb, k)
      else recv_pass mb (time_left timeout slept) k)"

definition wake_both :: "nat \<Rightarrow> kernel \<Rightarrow> kernel option" where
  "wake_both oid k = do { k1 \<leftarrow> ipc_list_resume_all (Suspend oid) k; ipc_list_resume_all (Sender oid) k1 }"

definition rt_mb_control :: "mailbox \<Rightarrow> nat \<Rightarrow> kernel \<Rightarrow> (rt_err \<times> mailbox \<times> kernel) option" where
  "rt_mb_control mb cmd k =
     (if cmd = RT_IPC_CMD_RESET
      then do { k1 \<leftarrow> wake_both (mb_id mb) k;
                k2 \<leftarrow> rt_schedule k1;
                Some (RT_EOK, mb\<lparr>entry := 0, in_offset := 0, out_offset := 0\<rparr>, k2) }
      else Some (- RT_ERROR, mb, k))"

definition rt_mb_detach :: "mailbox \<Rightarrow> kernel \<Rightarrow> (rt_err \<times> kernel) option" where
  "rt_mb_detach mb k = do { k1 \<leftarrow> wake_both (mb_id mb) k; Some (RT_EOK, k1) }"

definition rt_mb_delete :: "mailbox \<Rightarrow> kernel \<Rightarrow> (rt_err \<times> kernel) option" where
  "rt_mb_delete mb k = do { k1 \<leftarrow> wake_both (mb_id mb) k; Some (RT_EOK, k1) }"

section \<open>Invariant and abstraction\<close>

definition mb_ok :: "mailbox \<Rightarrow> bool" where
  "mb_ok mb \<longleftrightarrow> mb_flag mb \<le> 1 \<and> length (msg_pool mb) = mb_size mb \<and> 0 < mb_size mb \<and> mb_size mb < 65536 \<and>
     entry mb \<le> mb_size mb \<and> out_offset mb < mb_size mb \<and>
     in_offset mb = (out_offset mb + entry mb) mod mb_size mb"

definition mb_abs :: "mailbox \<Rightarrow> u32 list" where
  "mb_abs mb = ring_slice (out_offset mb) (entry mb) (msg_pool mb)"

lemma length_mb_abs [simp]: "length (mb_abs mb) = entry mb"
  by (simp add: mb_abs_def)

text \<open>The next offset, as the code steps it, is the next one modulo the size.\<close>

lemma step_offset: "i < n \<Longrightarrow> (if i + 1 \<ge> n then 0 else i + 1) = (i + 1) mod n" for i n :: nat
  by (auto simp: mod_if)

lemma mb_store:
  assumes mb: "mb_ok mb" and room: "entry mb < mb_size mb"
  shows "\<exists>p. mem_store (in_offset mb) [v] (msg_pool mb) = Some p \<and>
    (let mb' = mb\<lparr>msg_pool := p, in_offset := (if in_offset mb + 1 \<ge> mb_size mb then 0 else in_offset mb + 1),
                  entry := entry mb + 1\<rparr>
     in mb_ok mb' \<and> mb_abs mb' = mb_abs mb @ [v])"
proof -
  let ?S = "mb_size mb" and ?i = "in_offset mb" and ?o = "out_offset mb" and ?n = "entry mb"
  have i: "?i < ?S" and ie: "?i = (?o + ?n) mod ?S" and len: "length (msg_pool mb) = ?S" and o: "?o < ?S"
    using mb by (auto simp: mb_ok_def)
  let ?p = "(msg_pool mb)[?i := v]"
  have p: "mem_store ?i [v] (msg_pool mb) = Some ?p"
    using i len by (simp add: mem_store_def upd_conv_take_nth_drop)
  let ?mb = "mb\<lparr>msg_pool := ?p, in_offset := (if ?i + 1 \<ge> ?S then 0 else ?i + 1), entry := ?n + 1\<rparr>"
  have "(?i + 1) mod ?S = (?o + (?n + 1)) mod ?S"
    unfolding ie by (simp add: mod_simps)
  then have "(if ?i + 1 \<ge> ?S then 0 else ?i + 1) = (?o + (?n + 1)) mod ?S"
    by (simp only: step_offset [OF i])
  then have "mb_ok ?mb" using mb room by (auto simp: mb_ok_def)
  moreover have "mb_abs ?mb = mb_abs mb @ [v]"
  proof -
    have "ring_slice ?o ?n ?p = ring_slice ?o ?n (msg_pool mb)"
    proof (rule nth_equalityI)
      fix j assume j: "j < length (ring_slice ?o ?n ?p)"
      then have jn: "j < ?n" by simp
      have "(?o + j) mod ?S \<noteq> (?o + ?n) mod ?S"
        using o jn room by (auto simp: mod_if)
      then show "ring_slice ?o ?n ?p ! j = ring_slice ?o ?n (msg_pool mb) ! j"
        using jn len ie by (simp add: nth_list_update_neq)
    qed simp
    moreover have "ring_slice ?i 1 ?p = [v]"
      using i len by (simp add: ring_slice_def)
    ultimately show ?thesis
      using ring_slice_append [of ?o ?n 1 ?p] len ie by (simp add: mb_abs_def)
  qed
  ultimately show ?thesis using p by (auto simp: Let_def)
qed

lemma mb_load:
  assumes mb: "mb_ok mb" and some: "entry mb \<noteq> 0"
  shows "\<exists>v. mem_load (out_offset mb) 1 (msg_pool mb) = Some [v] \<and> mb_abs mb = v # tl (mb_abs mb) \<and>
    (let mb' = mb\<lparr>out_offset := (if out_offset mb + 1 \<ge> mb_size mb then 0 else out_offset mb + 1), entry := entry mb - 1\<rparr>
     in mb_ok mb' \<and> mb_abs mb' = tl (mb_abs mb))"
proof -
  let ?S = "mb_size mb" and ?o = "out_offset mb" and ?n = "entry mb" and ?p = "msg_pool mb"
  have ie: "in_offset mb = (?o + ?n) mod ?S" and len: "length ?p = ?S" and o: "?o < ?S"
    using mb by (auto simp: mb_ok_def)
  obtain m where m: "?n = Suc m" using some by (cases ?n) auto
  have one: "ring_slice ?o 1 ?p = [?p ! ?o]" using o len by (simp add: ring_slice_def)
  have abs: "mb_abs mb = ?p ! ?o # ring_slice ((?o + 1) mod ?S) m ?p"
    using ring_slice_append [of ?o 1 m ?p] one m len by (simp add: mb_abs_def)
  have "mem_load ?o 1 ?p = Some [?p ! ?o]"
    using o len by (simp add: mem_load_def take_Suc_conv_app_nth hd_drop_conv_nth take_Suc)
  moreover have "mb_ok (mb\<lparr>out_offset := (if ?o + 1 \<ge> ?S then 0 else ?o + 1), entry := ?n - 1\<rparr>)"
  proof -
    have "in_offset mb = ((?o + 1) mod ?S + m) mod ?S" using ie m by (simp add: mod_simps)
    then show ?thesis using mb m o unfolding step_offset [OF o] by (simp add: mb_ok_def)
  qed
  moreover have "mb_abs (mb\<lparr>out_offset := (if ?o + 1 \<ge> ?S then 0 else ?o + 1), entry := ?n - 1\<rparr>) = tl (mb_abs mb)"
    unfolding step_offset [OF o] using abs m by (simp add: mb_abs_def)
  ultimately show ?thesis using abs by (auto simp: Let_def)
qed

section \<open>The calls\<close>

lemma wake_one_ok:
  assumes k: "kernel_inv k" and q: "q = Suspend i \<or> q = Sender i"
  shows "\<exists>k'. wake_one q k = Some k' \<and> kernel_inv k' \<and> linked k' q = tl (linked k q) \<and>
    (\<forall>q'. q' \<noteq> q \<longrightarrow> (\<forall>p. q' \<noteq> Ready p) \<longrightarrow> linked k' q' = linked k q') \<and>
    (\<forall>t. thread_error (threads k' t) = thread_error (threads k t) \<and> prio_of k' t = prio_of k t) \<and>
    lock_nest k' = lock_nest k"
proof (cases "linked k q")
  case Nil
  then show ?thesis using k by (simp add: wake_one_def)
next
  case (Cons t ts)
  obtain k1 where r: "ipc_list_resume q k = Some k1" and k1: "kernel_inv k1" and l: "linked k1 q = ts"
    and o: "\<And>q'. q' \<noteq> q \<Longrightarrow> (\<forall>p. q' \<noteq> Ready p) \<Longrightarrow> linked k1 q' = linked k q'"
    and th: "threads k1 = (threads k)(t := (threads k t)\<lparr>thread_timer := None,
      stat := if t = current k then RT_THREAD_RUNNING else RT_THREAD_READY\<rparr>)" and c: "lock_nest k1 = lock_nest k"
    using resume_head [OF k q Cons] by auto
  obtain k' where s: "rt_schedule k1 = Some k'" and k': "kernel_inv k'" using schedule_ok [OF k1] by blast
  have f: "\<And>q'. (\<forall>p. q' \<noteq> Ready p) \<Longrightarrow> linked k' q' = linked k1 q'" using schedule_frame [OF k1 s] by blast
  have w: "wake_one q k = Some k'" using Cons r s by (simp add: wake_one_def)
  have "linked k' q = tl (linked k q)" using f [of q] q l Cons by auto
  moreover have "\<forall>q'. q' \<noteq> q \<longrightarrow> (\<forall>p. q' \<noteq> Ready p) \<longrightarrow> linked k' q' = linked k q'"
    using f o by metis
  moreover have "\<forall>t. thread_error (threads k' t) = thread_error (threads k t) \<and> prio_of k' t = prio_of k t"
    using schedule_frameD(1,2) [OF k1 s] by (auto simp: th)
  ultimately show ?thesis using w k' schedule_frameD(7) [OF k1 s] c by simp
qed

lemma send_ok:
  assumes mb: "mb_ok mb" and k: "kernel_inv k" and room: "entry mb < mb_size mb"
  shows "\<exists>mb' k'. rt_mb_send_wait mb v timeout k = Some (Returned RT_EOK, mb', k') \<and> mb_ok mb' \<and> kernel_inv k' \<and>
    mb_abs mb' = mb_abs mb @ [v] \<and> mb_size mb' = mb_size mb \<and> mb_id mb' = mb_id mb \<and>
    wake_one (Suspend (mb_id mb)) k = Some k'"
proof -
  obtain p where p: "mem_store (in_offset mb) [v] (msg_pool mb) = Some p"
    and m: "let mb' = mb\<lparr>msg_pool := p, in_offset := (if in_offset mb + 1 \<ge> mb_size mb then 0 else in_offset mb + 1),
                  entry := entry mb + 1\<rparr>
     in mb_ok mb' \<and> mb_abs mb' = mb_abs mb @ [v]"
    using mb_store [OF mb room] by blast
  obtain k' where w: "wake_one (Suspend (mb_id mb)) k = Some k'" "kernel_inv k'"
    using wake_one_ok [OF k, of "Suspend (mb_id mb)" "mb_id mb"] by auto
  have "send_pass mb v timeout k = Some (Returned RT_EOK, mb\<lparr>msg_pool := p,
      in_offset := (if in_offset mb + 1 \<ge> mb_size mb then 0 else in_offset mb + 1), entry := entry mb + 1\<rparr>, k')"
    using room p w(1) unfolding send_pass_def Let_def by (simp del: not_less)
  then show ?thesis using m w room unfolding Let_def by (auto simp: rt_mb_send_wait_def)
qed

lemma recv_ok:
  assumes mb: "mb_ok mb" and k: "kernel_inv k" and some: "entry mb \<noteq> 0"
  shows "\<exists>mb' k'. recv_pass mb timeout k = Some (Returned RT_EOK, Some (hd (mb_abs mb)), mb', k') \<and>
    mb_ok mb' \<and> kernel_inv k' \<and> mb_abs mb' = tl (mb_abs mb) \<and> mb_size mb' = mb_size mb \<and> mb_id mb' = mb_id mb \<and>
    wake_one (Sender (mb_id mb)) k = Some k'"
proof -
  obtain v where v: "mem_load (out_offset mb) 1 (msg_pool mb) = Some [v]" "mb_abs mb = v # tl (mb_abs mb)"
    and m: "let mb' = mb\<lparr>out_offset := (if out_offset mb + 1 \<ge> mb_size mb then 0 else out_offset mb + 1), entry := entry mb - 1\<rparr>
     in mb_ok mb' \<and> mb_abs mb' = tl (mb_abs mb)"
    using mb_load [OF mb some] by blast
  have hd: "hd (mb_abs mb) = v" using v(2) by (metis list.sel(1))
  obtain k' where w: "wake_one (Sender (mb_id mb)) k = Some k'" "kernel_inv k'"
    using wake_one_ok [OF k, of "Sender (mb_id mb)" "mb_id mb"] by auto
  have "recv_pass mb timeout k = Some (Returned RT_EOK, Some v,
      mb\<lparr>out_offset := (if out_offset mb + 1 \<ge> mb_size mb then 0 else out_offset mb + 1), entry := entry mb - 1\<rparr>, k')"
    using some v(1) w(1) unfolding recv_pass_def Let_def by simp
  then show ?thesis using m w hd unfolding Let_def by auto
qed

section \<open>The mailbox as a bounded queue\<close>

definition mb_put :: "u32 \<Rightarrow> mailbox \<times> kernel \<Rightarrow> (bool \<times> mailbox \<times> kernel) option" where
  "mb_put v s = do { (r, mb, k) \<leftarrow> rt_mb_send (fst s) v (snd s); Some (r = Returned RT_EOK, mb, k) }"

definition mb_get :: "mailbox \<times> kernel \<Rightarrow> (u32 option \<times> mailbox \<times> kernel) option" where
  "mb_get s = do { (r, v, mb, k) \<leftarrow> rt_mb_recv (fst s) 0 (snd s); Some (v, mb, k) }"

definition mb_valid :: "mailbox \<times> kernel \<Rightarrow> bool" where
  "mb_valid s \<longleftrightarrow> mb_ok (fst s) \<and> kernel_inv (snd s)"

interpretation mailbox_fifo: bounded_fifo "\<lambda>s. mb_abs (fst s)" mb_valid "\<lambda>s. mb_size (fst s)" "\<lambda>_ _. True" mb_put mb_get
proof unfold_locales
  fix s :: "mailbox \<times> kernel" and v
  obtain mb k where s: "s = (mb, k)" by (cases s)
  assume valid: "mb_valid s"
  then have mb: "mb_ok mb" and k: "kernel_inv k" by (auto simp: mb_valid_def s)
  show "length (mb_abs (fst s)) \<le> mb_size (fst s)" using mb by (simp add: s mb_ok_def)
  show "\<exists>s'. mb_put v s = Some (length (mb_abs (fst s)) < mb_size (fst s), s') \<and> mb_valid s' \<and>
      mb_size (fst s') = mb_size (fst s) \<and> (\<lambda>_. True) = (\<lambda>_. True) \<and>
      mb_abs (fst s') = (if length (mb_abs (fst s)) < mb_size (fst s) then mb_abs (fst s) @ [v] else mb_abs (fst s))"
  proof (cases "entry mb < mb_size mb")
    case True
    then show ?thesis using send_ok [OF mb k True, of v 0] by (auto simp: s mb_put_def mb_valid_def rt_mb_send_def)
  next
    case False
    then have "entry mb = mb_size mb" using mb by (simp add: mb_ok_def)
    then show ?thesis using valid by (simp add: s mb_put_def mb_valid_def rt_mb_send_def rt_mb_send_wait_def)
  qed
  show "\<exists>s'. mb_get s = Some (case mb_abs (fst s) of [] \<Rightarrow> None | x # _ \<Rightarrow> Some x, s') \<and> mb_valid s' \<and>
      mb_size (fst s') = mb_size (fst s) \<and> (\<lambda>_. True) = (\<lambda>_. True) \<and> mb_abs (fst s') = tl (mb_abs (fst s))"
  proof (cases "entry mb = 0")
    case True
    then have "mb_abs mb = []" by (simp flip: length_0_conv)
    then show ?thesis using valid True by (simp add: s mb_get_def mb_valid_def rt_mb_recv_def)
  next
    case False
    then obtain x xs where "mb_abs mb = x # xs" by (cases "mb_abs mb") (auto simp flip: length_0_conv)
    then show ?thesis
      using recv_ok [OF mb k False, of 0] False by (auto simp: s mb_get_def mb_valid_def rt_mb_recv_def)
  qed
qed

section \<open>Properties\<close>

text \<open>Property C27. A mailbox used without waiting is a bounded first-in-first-out queue: over any
  history of sends and receives no call faults, and the messages that were there followed by
  the accepted ones are, in order, the received ones followed by those still there.\<close>

theorem mailbox_history:
  assumes "mb_ok mb" and "kernel_inv k"
  shows "\<exists>accepted received mb' k'.
    mailbox_fifo.history ops (mb, k) = Some (accepted, received, mb', k') \<and> mb_ok mb' \<and> kernel_inv k' \<and>
    mb_abs mb @ accepted = received @ mb_abs mb'"
  using mailbox_fifo.history_fifo [of "(mb, k)" ops] assms by (auto simp: mb_valid_def)

definition example_mb :: mailbox where
  "example_mb = rt_mb_init 9 [0, 0] 2 1"

lemma example_mb_ok: "mb_ok example_mb" "mb_abs example_mb = []" "mb_id example_mb = 9"
  by (simp_all add: mb_ok_def example_mb_def rt_mb_init_def mb_abs_def ring_slice_def)

theorem mailbox_history_witness:
  "\<exists>accepted received mb' k'.
    mailbox_fifo.history [Put 5, Put 6, Get, Put 7] (example_mb, boot_kernel (\<lambda>_. 25)) =
      Some (accepted, received, mb', k') \<and> accepted = received @ mb_abs mb'"
  using mailbox_history [OF example_mb_ok(1) boot_kernel_inv [of "\<lambda>_. 25"], of "[Put 5, Put 6, Get, Put 7]"]
  by (auto simp: example_mb_ok(2) simp del: mailbox_fifo.history.simps)

text \<open>A message for a waiting thread arrives: sending to an empty mailbox with a waiting
  receiver that is better than every other runnable thread switches to it, and its receive,
  whatever time it had left, returns that message.\<close>

theorem mailbox_handoff:
  assumes "mb_ok mb" and "kernel_inv k" and "entry mb = 0" and "linked k (Suspend (mb_id mb)) = t # ts"
    and "lock_nest k = 0" and "stat_of k (current k) = RT_THREAD_RUNNING" and "thread_error (threads k t) = RT_EOK"
    and "\<forall>u. stat_of k u \<in> {RT_THREAD_READY, RT_THREAD_RUNNING} \<longrightarrow> prio_of k t < prio_of k u"
  shows "\<exists>mb' k'. rt_mb_send mb v k = Some (Returned RT_EOK, mb', k') \<and> current k' = t \<and>
    (\<exists>mb'' k''. recv_resumed mb' timeout slept k' = Some (Returned RT_EOK, Some v, mb'', k'') \<and> mb_abs mb'' = [])"
proof -
  let ?q = "Suspend (mb_id mb)"
  have k: "kernel_inv k" by fact
  have "entry mb < mb_size mb" using assms(1,3) by (simp add: mb_ok_def)
  then obtain mb' k' where s: "rt_mb_send mb v k = Some (Returned RT_EOK, mb', k')" and mb': "mb_ok mb'"
    and k': "kernel_inv k'" and abs: "mb_abs mb' = mb_abs mb @ [v]" and w: "wake_one ?q k = Some k'"
    using send_ok [OF assms(1) k] unfolding rt_mb_send_def by blast
  have abs': "mb_abs mb' = [v]" using abs assms(3) by (simp flip: length_0_conv)
  have tsusp: "stat_of k t = RT_THREAD_SUSPEND" using suspended_in [OF k, of ?q] assms(4) by auto
  then have tc: "t \<noteq> current k" using assms(6) by auto
  obtain k1 where r: "ipc_list_resume ?q k = Some k1" and k1: "kernel_inv k1"
    and th: "threads k1 = (threads k)(t := (threads k t)\<lparr>thread_timer := None,
      stat := if t = current k then RT_THREAD_RUNNING else RT_THREAD_READY\<rparr>)"
    and c: "current k1 = current k" "lock_nest k1 = lock_nest k"
    using resume_head [OF k, of ?q "mb_id mb" t ts] assms(4) by auto
  have sch: "rt_schedule k1 = Some k'" using w r assms(4) by (simp add: wake_one_def)
  have "current k' = t"
  proof (rule ccontr)
    assume ne: "current k' \<noteq> t"
    have best: "stat_of k' (current k') = RT_THREAD_RUNNING"
      "\<And>u. stat_of k' u = RT_THREAD_READY \<Longrightarrow> prio_of k' (current k') \<le> prio_of k' u"
      using schedule_best [OF k1 sch, of t] assms(5) c tc by (auto simp: th)
    have "stat_of k' t = RT_THREAD_READY"
      using schedule_runnable [OF k1 sch, of t] tc kernel_invD(6) [OF k', of t] ne by (auto simp: th)
    then have "prio_of k (current k') \<le> prio_of k t"
      using best(2) [of t] schedule_frameD(2) [OF k1 sch] by (simp add: th split: if_splits)
    moreover have "prio_of k t < prio_of k (current k')"
      using schedule_runnable [OF k1 sch, of "current k'"] best(1) ne assms(8) by (auto simp: th)
    ultimately show False by simp
  qed
  moreover have "thread_error (threads k' t) = RT_EOK"
    using schedule_frameD(1) [OF k1 sch, of t] assms(7) by (simp add: th)
  moreover have "entry mb' \<noteq> 0" using length_mb_abs [of mb'] abs' by auto
  ultimately show ?thesis
    using s recv_ok [OF mb' k', of "time_left timeout slept"] abs' by (fastforce simp: recv_resumed_def)
qed

theorem mailbox_handoff_witness:
  "\<exists>mb' k'. rt_mb_send example_mb 42 waiting_kernel = Some (Returned RT_EOK, mb', k') \<and> current k' = 1 \<and>
    (\<exists>mb'' k''. recv_resumed mb' (-1) 100 k' = Some (Returned RT_EOK, Some 42, mb'', k'') \<and> mb_abs mb'' = [])"
proof (rule mailbox_handoff [OF example_mb_ok(1) waiting_kernel_inv])
  show "entry example_mb = 0" by (simp add: example_mb_def rt_mb_init_def)
  show "linked waiting_kernel (Suspend (mb_id example_mb)) = [1]"
    by (simp add: waiting_kernel_def example_mb_ok)
qed (auto simp: waiting_kernel_def boot_kernel_def new_thread_def split: if_splits)

section \<open>Bounded waiting\<close>

text \<open>A receive that is woken again and again, each time to find the mailbox as another thread left
  it: the result of the first pass that returns, \<open>Some None\<close> while it still waits.\<close>

fun recv_wakeups :: "int \<Rightarrow> (nat \<times> mailbox \<times> kernel) list \<Rightarrow> (rt_err \<times> u32 option) option option" where
  "recv_wakeups timeout [] = Some None"
| "recv_wakeups timeout ((slept, mb, k) # ws) =
     (case recv_resumed mb timeout slept k of
        None \<Rightarrow> None
      | Some (Returned r, v, _) \<Rightarrow> Some (Some (r, v))
      | Some (Blocked, _) \<Rightarrow> recv_wakeups (time_left timeout slept) ws)"

definition wakeup_ok :: "nat \<times> mailbox \<times> kernel \<Rightarrow> bool" where
  "wakeup_ok w \<longleftrightarrow> (case w of (slept, mb, k) \<Rightarrow>
     mb_ok mb \<and> kernel_inv k \<and> stat_of k (current k) = RT_THREAD_RUNNING)"

lemma recv_resumed_total:
  assumes "wakeup_ok (slept, mb, k)" and "timeout < 2147483647"
  shows "\<exists>out v mb' k'. recv_resumed mb timeout slept k = Some (out, v, mb', k') \<and>
    (out = Blocked \<longrightarrow> time_left timeout slept \<noteq> 0) \<and>
    (\<forall>r. out = Returned r \<longrightarrow> (case v of Some x \<Rightarrow> r = RT_EOK \<and> mb_abs mb = x # mb_abs mb'
        | None \<Rightarrow> (thread_error (threads k (current k)) \<noteq> RT_EOK \<and> r = thread_error (threads k (current k))) \<or>
             (r = - RT_ETIMEOUT \<and> mb_abs mb = [])))"
proof -
  have mb: "mb_ok mb" and k: "kernel_inv k" and run: "stat_of k (current k) = RT_THREAD_RUNNING"
    using assms(1) by (auto simp: wakeup_ok_def)
  let ?T = "time_left timeout slept"
  have T: "?T < 2147483647" using assms(2) by (auto simp: time_left_def)
  consider (err) "thread_error (threads k (current k)) \<noteq> RT_EOK"
    | (mail) "thread_error (threads k (current k)) = RT_EOK" "entry mb \<noteq> 0"
    | (empty) "thread_error (threads k (current k)) = RT_EOK" "entry mb = 0" by blast
  then show ?thesis
  proof cases
    case err
    then show ?thesis by (simp add: recv_resumed_def)
  next
    case mail
    have "mb_abs mb \<noteq> []" using mail(2) by (simp flip: length_0_conv)
    then show ?thesis
      using recv_ok [OF mb k mail(2), of ?T] mail(1) by (fastforce simp: recv_resumed_def)
  next
    case empty
    have "mb_abs mb = []" using empty(2) by (simp flip: length_0_conv)
    moreover obtain k' where "wait_on (Suspend (mb_id mb)) (mb_flag mb) ?T k = Some k'"
      using wait_on_ok [OF k run _ _ T, of "Suspend (mb_id mb)" "mb_id mb" "mb_flag mb"] mb
      by (auto simp: mb_ok_def)
    ultimately show ?thesis using empty by (cases "?T = 0") (auto simp: recv_resumed_def recv_pass_def)
  qed
qed

text \<open>A bounded receive ends: however often it is woken to find its message taken by
  another thread, once the ticks it slept add up to its timeout it has returned.\<close>

theorem bounded_receive_returns:
  assumes "list_all wakeup_ok ws" and "0 < timeout" and "timeout < 2147483647"
    and "timeout \<le> int (sum_list (map fst ws))"
  shows "\<exists>r v. recv_wakeups timeout ws = Some (Some (r, v))"
  using assms
proof (induction ws arbitrary: timeout)
  case Nil
  then show ?case by simp
next
  case (Cons w ws)
  obtain slept mb k where w: "w = (slept, mb, k)" by (cases w)
  let ?T = "time_left timeout slept"
  obtain out v mb' k' where r: "recv_resumed mb timeout slept k = Some (out, v, mb', k')"
    and b: "out = Blocked \<longrightarrow> ?T \<noteq> 0"
    using recv_resumed_total [of slept mb k timeout] Cons.prems(1,3) w by auto
  show ?case
  proof (cases out)
    case (Returned r)
    then show ?thesis using r w by simp
  next
    case Blocked
    have T: "0 < ?T" "?T < 2147483647" "?T \<le> int (sum_list (map fst ws))"
      using b Blocked Cons.prems(2-4) w by (auto simp: time_left_def split: if_splits)
    have "list_all wakeup_ok ws" using Cons.prems(1) by simp
    from Cons.IH [OF this T] show ?thesis using r w Blocked by simp
  qed
qed

theorem bounded_receive_returns_witness:
  "\<exists>r v. recv_wakeups 5 [(5, example_mb, boot_kernel (\<lambda>_. 25))] = Some (Some (r, v))"
  by (rule bounded_receive_returns)
    (use example_mb_ok boot_kernel_inv [of "\<lambda>_. 25"] in \<open>auto simp: wakeup_ok_def boot_kernel_def\<close>)

end
