(* ===== verification/Mutex.thy ===== *)
theory Mutex
  imports Semaphore
begin

text \<open>
  Mutexes with recursive holding and priority inheritance: \<open>rt-thread/src/ipc.c\<close>,
  \<open>rt_mutex_init\<close> to \<open>rt_mutex_control\<close>.  Waiters are in \<open>Suspend (mtx_id m)\<close>; a blocked take
  goes on with \<open>mutex_resumed\<close>.  The hold count is the 8-bit counter of the code.
\<close>

section \<open>State and operations\<close>

record mutex =
  mtx_id :: nat
  mtx_flag :: nat
  mtx_value :: u16
  original_priority :: nat
  hold :: u8
  owner :: "tid option"

definition rt_mutex_init :: "nat \<Rightarrow> nat \<Rightarrow> mutex" where
  "rt_mutex_init oid flag =
     \<lparr>mtx_id = oid, mtx_flag = flag, mtx_value = 1, original_priority = 0xFF, hold = 0, owner = None\<rparr>"

definition rt_mutex_create :: "nat option \<Rightarrow> nat \<Rightarrow> mutex option" where
  "rt_mutex_create alloc flag = map_option (\<lambda>oid. rt_mutex_init oid flag) alloc"

text \<open>From the label \<open>__again\<close>: the caller is not the owner.\<close>

definition take_pass :: "mutex \<Rightarrow> int \<Rightarrow> kernel \<Rightarrow> (outcome \<times> mutex \<times> kernel) option" where
  "take_pass m time k =
     (if mtx_value m > 0
      then Some (Returned RT_EOK,
                 m\<lparr>mtx_value := mtx_value m - 1, owner := Some (current k),
                   original_priority := prio_of k (current k), hold := hold m + 1\<rparr>, k)
      else if time = 0
      then Some (Returned (- RT_ETIMEOUT), m, upd_thread (current k) (thread_error_update (\<lambda>_. - RT_ETIMEOUT)) k)
      else do { t \<leftarrow> owner m;
                let k1 = (if prio_of k (current k) < prio_of k t
                          then rt_thread_change_priority t (prio_of k (current k)) k else k);
                k2 \<leftarrow> suspend_on (Suspend (mtx_id m)) (mtx_flag m) time k1;
                Some (Blocked, m, k2) })"

definition rt_mutex_take :: "mutex \<Rightarrow> int \<Rightarrow> kernel \<Rightarrow> (outcome \<times> mutex \<times> kernel) option" where
  "rt_mutex_take m time k =
     (let k0 = upd_thread (current k) (thread_error_update (\<lambda>_. RT_EOK)) k
      in if owner m = Some (current k) then Some (Returned RT_EOK, m\<lparr>hold := hold m + 1\<rparr>, k0)
         else take_pass m time k0)"

abbreviation (input) RT_EINTR :: rt_err where "RT_EINTR \<equiv> 9"

definition mutex_resumed :: "mutex \<Rightarrow> int \<Rightarrow> kernel \<Rightarrow> (outcome \<times> mutex \<times> kernel) option" where
  "mutex_resumed m time k =
     (let e = thread_error (threads k (current k))
      in if e \<noteq> RT_EOK then if e = - RT_EINTR then take_pass m time k else Some (Returned e, m, k)
         else Some (Returned RT_EOK, m, k))"

definition rt_mutex_release :: "mutex \<Rightarrow> kernel \<Rightarrow> (rt_err \<times> mutex \<times> kernel) option" where
  "rt_mutex_release m k =
     (if owner m \<noteq> Some (current k)
      then Some (- RT_ERROR, m, upd_thread (current k) (thread_error_update (\<lambda>_. - RT_ERROR)) k)
      else let m1 = m\<lparr>hold := hold m - 1\<rparr>
           in if hold m1 \<noteq> 0 then Some (RT_EOK, m1, k)
              else let k1 = (if original_priority m1 \<noteq> prio_of k (current k)
                             then rt_thread_change_priority (current k) (original_priority m1) k else k)
                   in case linked k1 (Suspend (mtx_id m1)) of
                        [] \<Rightarrow> Some (RT_EOK, m1\<lparr>mtx_value := mtx_value m1 + 1, owner := None, original_priority := 0xFF\<rparr>, k1)
                      | t # _ \<Rightarrow>
                          do { k2 \<leftarrow> ipc_list_resume (Suspend (mtx_id m1)) k1;
                               k3 \<leftarrow> rt_schedule k2;
                               Some (RT_EOK, m1\<lparr>owner := Some t, original_priority := prio_of k1 t, hold := hold m1 + 1\<rparr>, k3) })"

definition rt_mutex_control :: "mutex \<Rightarrow> nat \<Rightarrow> rt_err" where
  "rt_mutex_control m cmd = - RT_ERROR"

definition rt_mutex_detach :: "mutex \<Rightarrow> kernel \<Rightarrow> (rt_err \<times> kernel) option" where
  "rt_mutex_detach m k = do { k1 \<leftarrow> ipc_list_resume_all (Suspend (mtx_id m)) k; Some (RT_EOK, k1) }"

definition rt_mutex_delete :: "mutex \<Rightarrow> kernel \<Rightarrow> (rt_err \<times> kernel) option" where
  "rt_mutex_delete m k = do { k1 \<leftarrow> ipc_list_resume_all (Suspend (mtx_id m)) k; Some (RT_EOK, k1) }"

section \<open>Invariant\<close>

text \<open>Free or owned; threads wait only for an owned mutex, and never its owner.\<close>

definition mutex_inv :: "mutex \<Rightarrow> kernel \<Rightarrow> bool" where
  "mutex_inv m k \<longleftrightarrow> kernel_inv k \<and> mtx_flag m \<le> 1 \<and>
     (case owner m of
        None \<Rightarrow> mtx_value m = 1 \<and> hold m = 0 \<and> linked k (Suspend (mtx_id m)) = []
      | Some t \<Rightarrow> mtx_value m = 0 \<and> hold m \<noteq> 0 \<and> original_priority m < 32 \<and>
          t \<notin> set (linked k (Suspend (mtx_id m))))"

lemma change_priority_simps:
  assumes "kernel_inv k" and "\<forall>p. q \<noteq> Ready p"
  shows "linked (rt_thread_change_priority t p k) q = linked k q"
    and "current (rt_thread_change_priority t p k) = current k"
    and "prio_of (rt_thread_change_priority t p k) u = (if u = t then p else prio_of k u)"
    and "thread_error (threads (rt_thread_change_priority t p k) u) = thread_error (threads k u)"
    and "stat_of (rt_thread_change_priority t p k) u = stat_of k u"
    and "lock_nest (rt_thread_change_priority t p k) = lock_nest k"
proof -
  have "removeAll t (linked k q) = linked k q" if "stat_of k t = RT_THREAD_READY"
    using kernel_invD(4) [OF assms(1), of t q] that assms(2) by (intro removeAll_id) (cases q; auto)
  then show "linked (rt_thread_change_priority t p k) q = linked k q"
    using assms(2) by (auto simp: rt_thread_change_priority_def schedule_insert_lists)
  show "current (rt_thread_change_priority t p k) = current k"
    "lock_nest (rt_thread_change_priority t p k) = lock_nest k"
    by (simp_all add: rt_thread_change_priority_def)
  show "prio_of (rt_thread_change_priority t p k) u = (if u = t then p else prio_of k u)"
    "thread_error (threads (rt_thread_change_priority t p k) u) = thread_error (threads k u)"
    by (simp_all add: rt_thread_change_priority_def set_priority_def)
  show "stat_of (rt_thread_change_priority t p k) u = stat_of k u"
    using kernel_invD(8) [OF assms(1)] by (auto simp: rt_thread_change_priority_def set_priority_def)
qed

lemma running_prio: "kernel_inv k \<Longrightarrow> stat_of k t \<noteq> RT_THREAD_INIT \<Longrightarrow> prio_of k t < 32"
  using kernel_invD(7) [of k t] by (simp add: thread_ok_def)

lemma mutex_take_ok:
  assumes i: "mutex_inv m k" and run: "stat_of k (current k) = RT_THREAD_RUNNING" and time: "time < 2147483647"
  shows "\<exists>out m' k'. rt_mutex_take m time k = Some (out, m', k') \<and> kernel_inv k' \<and> mtx_id m' = mtx_id m \<and>
    mtx_flag m' = mtx_flag m \<and>
    (case owner m of
       None \<Rightarrow> out = Returned RT_EOK \<and> owner m' = Some (current k) \<and> hold m' = 1 \<and> mtx_value m' = 0 \<and>
         original_priority m' = prio_of k (current k) \<and> linked k' (Suspend (mtx_id m)) = []
     | Some t \<Rightarrow>
         if t = current k
         then out = Returned RT_EOK \<and> m' = m\<lparr>hold := hold m + 1\<rparr> \<and>
           linked k' (Suspend (mtx_id m)) = linked k (Suspend (mtx_id m))
         else m' = m \<and>
           (if time = 0 then out = Returned (- RT_ETIMEOUT) \<and>
              linked k' (Suspend (mtx_id m)) = linked k (Suspend (mtx_id m))
            else out = Blocked \<and> prio_of k' t = min (prio_of k t) (prio_of k (current k)) \<and>
              (\<forall>u. u \<noteq> t \<longrightarrow> prio_of k' u = prio_of k u) \<and>
              set (linked k' (Suspend (mtx_id m))) = insert (current k) (set (linked k (Suspend (mtx_id m))))))"
proof -
  let ?c = "current k" and ?q = "Suspend (mtx_id m)"
  let ?k0 = "upd_thread ?c (thread_error_update (\<lambda>_. RT_EOK)) k"
  have k: "kernel_inv k" and f: "mtx_flag m \<le> 1" using i by (auto simp: mutex_inv_def)
  have k0: "kernel_inv ?k0" by (rule inv_upd [OF k]) simp
  show ?thesis
  proof (cases "owner m")
    case None
    then have "mtx_value m = 1" "hold m = 0" "linked k ?q = []" using i by (auto simp: mutex_inv_def)
    then show ?thesis using None k0 by (simp add: rt_mutex_take_def take_pass_def Let_def)
  next
    case (Some t)
    then have v: "mtx_value m = 0" using i by (simp add: mutex_inv_def)
    consider (self) "t = ?c" | (no) "t \<noteq> ?c" "time = 0" | (wait) "t \<noteq> ?c" "time \<noteq> 0" by blast
    then show ?thesis
    proof cases
      case self
      then show ?thesis using Some k0 by (simp add: rt_mutex_take_def)
    next
      case no
      have "kernel_inv (upd_thread ?c (thread_error_update (\<lambda>_. - RT_ETIMEOUT)) ?k0)" by (rule inv_upd [OF k0]) simp
      then show ?thesis using Some v no by (simp add: rt_mutex_take_def take_pass_def)
    next
      case wait
      let ?k1 = "if prio_of k ?c < prio_of k t then rt_thread_change_priority t (prio_of k ?c) ?k0 else ?k0"
      have p: "prio_of k ?c < 32" using running_prio [OF k, of ?c] run by simp
      have k1: "kernel_inv ?k1" using change_priority_ok [OF k0 p] k0 by auto
      note cs = change_priority_simps [OF k0, of ?q]
      have r1: "stat_of ?k1 (current ?k1) = RT_THREAD_RUNNING" and c1: "current ?k1 = ?c"
        using run cs(2,5) by auto
      have p1: "prio_of ?k1 u = (if u = t then min (prio_of k t) (prio_of k ?c) else prio_of k u)" for u
        using cs(3) by auto
      have l1: "linked ?k1 ?q = linked k ?q" using cs(1) by auto
      obtain k' where s: "suspend_on ?q (mtx_flag m) time ?k1 = Some k'" and k': "kernel_inv k'"
        and l': "linked k' ?q = enqueued (mtx_flag m) (prio_of ?k1) ?c (linked k ?q)"
        and p': "\<And>u. prio_of k' u = prio_of ?k1 u"
        using suspend_on_ok [OF k1 r1 _ f time, of ?q "mtx_id m"] unfolding l1 c1 by blast
      have "rt_mutex_take m time k = Some (Blocked, m, k')"
        using Some v wait s by (simp add: rt_mutex_take_def take_pass_def Let_def cong: if_cong)
      moreover have "set (linked k' ?q) = insert ?c (set (linked k ?q))"
        unfolding l' by (auto simp: enqueued_def)
      ultimately show ?thesis using Some k' p' p1 wait by auto
    qed
  qed
qed

lemma mutex_release_ok:
  assumes i: "mutex_inv m k" and run: "stat_of k (current k) = RT_THREAD_RUNNING" and o: "owner m = Some (current k)"
  shows "\<exists>m' k'. rt_mutex_release m k = Some (RT_EOK, m', k') \<and> kernel_inv k' \<and> mtx_id m' = mtx_id m \<and>
    mtx_flag m' = mtx_flag m \<and>
    (if hold m \<noteq> 1 then m' = m\<lparr>hold := hold m - 1\<rparr> \<and> k' = k
     else prio_of k' (current k) = original_priority m \<and> (\<forall>u. u \<noteq> current k \<longrightarrow> prio_of k' u = prio_of k u) \<and>
       (case linked k (Suspend (mtx_id m)) of
          [] \<Rightarrow> owner m' = None \<and> hold m' = 0 \<and> mtx_value m' = 1 \<and> linked k' (Suspend (mtx_id m)) = []
        | t # ts \<Rightarrow> owner m' = Some t \<and> hold m' = 1 \<and> mtx_value m' = 0 \<and> original_priority m' = prio_of k t \<and>
            linked k' (Suspend (mtx_id m)) = ts \<and> stat_of k' t \<in> {RT_THREAD_READY, RT_THREAD_RUNNING}))"
proof -
  let ?c = "current k" and ?q = "Suspend (mtx_id m)"
  have k: "kernel_inv k" and v: "mtx_value m = 0" and op: "original_priority m < 32" and nc: "?c \<notin> set (linked k ?q)"
    using i o by (auto simp: mutex_inv_def)
  have h1: "hold m - 1 = 0 \<longleftrightarrow> hold m = 1" by (simp add: right_minus_eq)
  show ?thesis
  proof (cases "hold m = 1")
    case False
    then show ?thesis using o k h1 by (simp add: rt_mutex_release_def)
  next
    case True
    let ?k1 = "if original_priority m \<noteq> prio_of k ?c then rt_thread_change_priority ?c (original_priority m) k else k"
    have k1: "kernel_inv ?k1" using change_priority_ok [OF k op] k by auto
    note cs = change_priority_simps [OF k, of ?q]
    have l1: "linked ?k1 ?q = linked k ?q" using cs(1) by auto
    have p1: "prio_of ?k1 u = (if u = ?c then original_priority m else prio_of k u)" for u using cs(3) by auto
    show ?thesis
    proof (cases "linked k ?q")
      case Nil
      then have l0: "linked ?k1 ?q = []" using l1 by simp
      have "rt_mutex_release m k = Some (RT_EOK, m\<lparr>hold := 0, mtx_value := 1, owner := None, original_priority := 0xFF\<rparr>, ?k1)"
        using o True v l0 by (simp add: rt_mutex_release_def Let_def cong: if_cong)
      then show ?thesis using k1 p1 l0 Nil True by auto
    next
      case (Cons t ts)
      then have l0: "linked ?k1 ?q = t # ts" using l1 by simp
      have tc: "t \<noteq> ?c" using nc Cons by auto
      obtain k2 where r: "ipc_list_resume ?q ?k1 = Some k2" and k2: "kernel_inv k2" and l2: "linked k2 ?q = ts"
        and th: "threads k2 = (threads ?k1)(t := (threads ?k1 t)\<lparr>thread_timer := None,
          stat := if t = current ?k1 then RT_THREAD_RUNNING else RT_THREAD_READY\<rparr>)"
        using resume_head [OF k1 _ l0, of "mtx_id m"] by auto
      obtain k3 where s: "rt_schedule k2 = Some k3" and k3: "kernel_inv k3" using schedule_ok [OF k2] by blast
      have e: "rt_mutex_release m k = Some (RT_EOK, m\<lparr>hold := 1, owner := Some t, original_priority := prio_of ?k1 t\<rparr>, k3)"
        using o True l0 r s by (simp add: rt_mutex_release_def Let_def cong: if_cong)
      have "stat_of k3 t \<in> {RT_THREAD_READY, RT_THREAD_RUNNING}"
        unfolding schedule_runnable [OF k2 s] by (simp add: th)
      moreover have "prio_of k3 u = prio_of ?k1 u" for u using schedule_frameD(2) [OF k2 s] by (simp add: th)
      moreover have "linked k3 ?q = ts" using schedule_frameD(9) [OF k2 s] l2 by simp
      ultimately show ?thesis using e k3 p1 tc Cons True v by auto
    qed
  qed
qed

section \<open>The abstract lock\<close>

text \<open>What a recursive lock promises: free, or held by one thread a number of times.\<close>

datatype lock_event = Locked tid | Again tid | Partly tid | Unlocked tid | Passed tid tid | Unchanged

fun lock_next :: "lock_event \<Rightarrow> (tid \<times> nat) option \<Rightarrow> (tid \<times> nat) option option" where
  "lock_next (Locked t) s = (if s = None then Some (Some (t, 1)) else None)"
| "lock_next (Again t) s = (case s of Some (u, n) \<Rightarrow> if u = t then Some (Some (t, n + 1)) else None | None \<Rightarrow> None)"
| "lock_next (Partly t) s =
     (case s of Some (u, n) \<Rightarrow> if u = t \<and> 1 < n then Some (Some (t, n - 1)) else None | None \<Rightarrow> None)"
| "lock_next (Unlocked t) s = (if s = Some (t, 1) then Some None else None)"
| "lock_next (Passed t u) s = (if s = Some (t, 1) \<and> u \<noteq> t then Some (Some (u, 1)) else None)"
| "lock_next Unchanged s = Some s"

fun lock_run :: "lock_event list \<Rightarrow> (tid \<times> nat) option \<Rightarrow> (tid \<times> nat) option option" where
  "lock_run [] s = Some s"
| "lock_run (e # es) s = do { s' \<leftarrow> lock_next e s; lock_run es s' }"

definition mutex_abs :: "mutex \<Rightarrow> (tid \<times> nat) option" where
  "mutex_abs m = map_option (\<lambda>t. (t, unat (hold m))) (owner m)"

text \<open>The calls of the current thread on one mutex, with at most 255 nested takes, and anything
  else that happens in the kernel meanwhile.\<close>

inductive mutex_step :: "mutex \<times> kernel \<Rightarrow> lock_event \<Rightarrow> mutex \<times> kernel \<Rightarrow> bool" where
  take: "rt_mutex_take m time k = Some (out, m', k') \<Longrightarrow> stat_of k (current k) = RT_THREAD_RUNNING \<Longrightarrow>
    time < 2147483647 \<Longrightarrow> hold m \<noteq> 255 \<Longrightarrow>
    mutex_step (m, k) (if out = Returned RT_EOK
      then if owner m = Some (current k) then Again (current k) else Locked (current k) else Unchanged) (m', k')"
| release: "rt_mutex_release m k = Some (r, m', k') \<Longrightarrow> stat_of k (current k) = RT_THREAD_RUNNING \<Longrightarrow>
    mutex_step (m, k) (if r \<noteq> RT_EOK then Unchanged else if hold m \<noteq> 1 then Partly (current k)
      else case linked k (Suspend (mtx_id m)) of [] \<Rightarrow> Unlocked (current k) | t # _ \<Rightarrow> Passed (current k) t) (m', k')"
| elsewhere: "kernel_step k k' \<Longrightarrow> set (linked k' (Suspend (mtx_id m))) \<subseteq> set (linked k (Suspend (mtx_id m))) \<Longrightarrow>
    mutex_step (m, k) Unchanged (m, k')"

inductive mutex_run :: "mutex \<times> kernel \<Rightarrow> lock_event list \<Rightarrow> mutex \<times> kernel \<Rightarrow> bool" where
  start: "mutex_run s [] s"
| more: "mutex_step s e s' \<Longrightarrow> mutex_run s' es s'' \<Longrightarrow> mutex_run s (e # es) s''"

inductive_cases mutex_runE: "mutex_run s (e # es) s'"

lemma unat_eq_iff_255: "unat (w :: u8) = 255 \<longleftrightarrow> w = 255"
  by (simp add: word_unat_eq_iff)

lemma mutex_take_step:
  assumes i: "mutex_inv m k" and run: "stat_of k (current k) = RT_THREAD_RUNNING" and time: "time < 2147483647"
    and t: "rt_mutex_take m time k = Some (out, m', k')" and h: "hold m \<noteq> 255"
  shows "mutex_inv m' k' \<and> lock_next (if out = Returned RT_EOK
      then if owner m = Some (current k) then Again (current k) else Locked (current k) else Unchanged) (mutex_abs m)
    = Some (mutex_abs m')"
proof -
  have inc: "unat (hold m + 1) = unat (hold m) + 1"
  proof -
    have "unat (hold m) \<noteq> 255" using h by (auto simp: unat_eq_iff_255)
    then have "unat (hold m) + 1 < 256" using unat_u8 [of "hold m"] by simp
    then show ?thesis by (subst unat_add_lem [THEN iffD1]) simp_all
  qed
  have ne: "hold m + 1 \<noteq> 0" using inc by (metis add_is_0 one_neq_zero unat_0)
  have p: "prio_of k (current k) < 32" using i run running_prio by (auto simp: mutex_inv_def)
  note ok = mutex_take_ok [OF i run time]
  show ?thesis
  proof (cases "owner m")
    case None
    then show ?thesis using ok t i p by (auto simp: mutex_inv_def mutex_abs_def)
  next
    case (Some u)
    then show ?thesis
      using ok t i ne inc by (cases "u = current k"; cases "time = 0") (auto simp: mutex_inv_def mutex_abs_def)
  qed
qed

lemma mutex_release_step:
  assumes i: "mutex_inv m k" and run: "stat_of k (current k) = RT_THREAD_RUNNING"
    and t: "rt_mutex_release m k = Some (r, m', k')"
  shows "mutex_inv m' k' \<and> lock_next (if r \<noteq> RT_EOK then Unchanged else if hold m \<noteq> 1 then Partly (current k)
      else case linked k (Suspend (mtx_id m)) of [] \<Rightarrow> Unlocked (current k) | t # _ \<Rightarrow> Passed (current k) t) (mutex_abs m)
    = Some (mutex_abs m')"
proof (cases "owner m = Some (current k)")
  case False
  then have "m' = m" "r = - RT_ERROR" "k' = upd_thread (current k) (thread_error_update (\<lambda>_. - RT_ERROR)) k"
    using t by (auto simp: rt_mutex_release_def)
  then show ?thesis using i by (auto simp: mutex_inv_def intro: inv_upd split: option.splits)
next
  case o: True
  have k: "kernel_inv k" and h0: "hold m \<noteq> 0" and nc: "current k \<notin> set (linked k (Suspend (mtx_id m)))"
    using i o by (auto simp: mutex_inv_def)
  obtain r: "r = RT_EOK" and k': "kernel_inv k'" and ids: "mtx_id m' = mtx_id m" "mtx_flag m' = mtx_flag m"
    and c: "if hold m \<noteq> 1 then m' = m\<lparr>hold := hold m - 1\<rparr> \<and> k' = k
     else prio_of k' (current k) = original_priority m \<and> (\<forall>u. u \<noteq> current k \<longrightarrow> prio_of k' u = prio_of k u) \<and>
       (case linked k (Suspend (mtx_id m)) of
          [] \<Rightarrow> owner m' = None \<and> hold m' = 0 \<and> mtx_value m' = 1 \<and> linked k' (Suspend (mtx_id m)) = []
        | t # ts \<Rightarrow> owner m' = Some t \<and> hold m' = 1 \<and> mtx_value m' = 0 \<and> original_priority m' = prio_of k t \<and>
            linked k' (Suspend (mtx_id m)) = ts \<and> stat_of k' t \<in> {RT_THREAD_READY, RT_THREAD_RUNNING})"
    using mutex_release_ok [OF i run o] t by auto
  show ?thesis
  proof (cases "hold m = 1")
    case False
    have u: "unat (hold m - 1) = unat (hold m) - 1" "0 < unat (hold m)" using h0 by (simp_all add: unat_minus_one unat_gt_0)
    have "unat (hold m) \<noteq> 1" using False by (metis unat_1 word_unat_eq_iff)
    moreover have "hold m - 1 \<noteq> 0" using False by (simp add: right_minus_eq)
    ultimately show ?thesis
      using c False o r i u by (auto simp: mutex_inv_def mutex_abs_def)
  next
    case True
    then show ?thesis
    proof (cases "linked k (Suspend (mtx_id m))")
      case Nil
      then show ?thesis using c True o r i k' ids by (auto simp: mutex_inv_def mutex_abs_def)
    next
      case (Cons t ts)
      have d: "t \<notin> set ts" using kernel_invD(2) [OF k, of "Suspend (mtx_id m)"] Cons by simp
      have "stat_of k t = RT_THREAD_SUSPEND" using suspended_in [OF k, of "Suspend (mtx_id m)"] Cons by auto
      then have "prio_of k t < 32" using running_prio [OF k, of t] by simp
      then show ?thesis using c True o r i k' ids Cons d nc by (auto simp: mutex_inv_def mutex_abs_def)
    qed
  qed
qed

lemma mutex_step_ok:
  assumes s: "mutex_step (m, k) e (m', k')" and i: "mutex_inv m k"
  shows "mutex_inv m' k' \<and> lock_next e (mutex_abs m) = Some (mutex_abs m')"
  using s
proof (cases rule: mutex_step.cases)
  case (take time out)
  then show ?thesis using mutex_take_step [OF i take(3,4,2,5)] by simp
next
  case (release r)
  then show ?thesis using mutex_release_step [OF i release(3,2)] by simp
next
  case elsewhere
  have "kernel_inv k'" using elsewhere i kernel_step_inv by (auto simp: mutex_inv_def)
  then show ?thesis using elsewhere i by (auto simp: mutex_inv_def split: option.splits)
qed

section \<open>Properties\<close>

text \<open>Property C24. A mutex is a recursive lock: every history of takes, releases and other kernel
  activity, with at most 255 nested takes, is a run of the abstract lock. So it is taken only
  when free or by its owner, released only by its owner, passed from the owner to a waiter in
  one step, and as many releases as takes free it.\<close>

theorem mutex_refines_lock:
  assumes "mutex_run (m, k) es (m', k')" and "mutex_inv m k"
  shows "mutex_inv m' k' \<and> lock_run es (mutex_abs m) = Some (mutex_abs m')"
  using assms
proof (induction es arbitrary: m k)
  case Nil
  then show ?case by (auto elim: mutex_run.cases)
next
  case (Cons e es)
  obtain m1 k1 where s: "mutex_step (m, k) e (m1, k1)" and r: "mutex_run (m1, k1) es (m', k')"
    using Cons.prems(1) by (auto elim!: mutex_runE)
  show ?case
    using mutex_step_ok [OF s Cons.prems(2)] Cons.IH [OF r] by simp
qed

lemma boot_mutex_inv: "mutex_inv (rt_mutex_init 3 1) (boot_kernel (\<lambda>_. 25))"
  using boot_kernel_inv [of "\<lambda>_. 25"] by (simp add: mutex_inv_def rt_mutex_init_def) (simp add: boot_kernel_def)

lemma boot_current: "current (boot_kernel pr) = 1" "stat_of (boot_kernel pr) (current (boot_kernel pr)) = RT_THREAD_RUNNING"
  by (simp_all add: boot_kernel_def)

lemma boot_mutex_step:
  "\<exists>m' k'. mutex_step (rt_mutex_init 3 1, boot_kernel (\<lambda>_. 25)) (Locked 1) (m', k')"
proof -
  let ?m = "rt_mutex_init 3 1" and ?k = "boot_kernel (\<lambda>_. 25)"
  obtain m' k' where t: "rt_mutex_take ?m 0 ?k = Some (Returned RT_EOK, m', k')"
    using mutex_take_ok [OF boot_mutex_inv boot_current(2), of 0] by (auto simp: rt_mutex_init_def)
  from mutex_step.take [OF this boot_current(2)] show ?thesis
    by (auto simp: rt_mutex_init_def boot_current(1))
qed

theorem mutex_refines_lock_witness:
  "\<exists>m' k'. mutex_run (rt_mutex_init 3 1, boot_kernel (\<lambda>_. 25)) [Locked 1] (m', k') \<and> mutex_abs m' = Some (1, 1)"
proof -
  obtain m' k' where s: "mutex_step (rt_mutex_init 3 1, boot_kernel (\<lambda>_. 25)) (Locked 1) (m', k')"
    using boot_mutex_step by blast
  then have r: "mutex_run (rt_mutex_init 3 1, boot_kernel (\<lambda>_. 25)) [Locked 1] (m', k')"
    by (blast intro: mutex_run.intros)
  show ?thesis
    using r mutex_refines_lock [OF r boot_mutex_inv] by (auto simp: mutex_abs_def rt_mutex_init_def)
qed


definition held_mutex :: mutex where
  "held_mutex = \<lparr>mtx_id = 3, mtx_flag = 1, mtx_value = 0, original_priority = 31, hold = 1, owner = Some 0\<rparr>"


text \<open>Releasing two mutexes in the order they were taken makes a borrowed priority
  permanent: a thread that was boosted through its first mutex takes a second one, which notes
  the boosted priority as the original; the release of the first restores the thread's own
  priority, and the release of the second, whenever the thread comes to it, sets the boosted
  priority again, with no mutex left to take it back.\<close>

theorem nested_release_keeps_boost:
  assumes "mutex_inv m1 k" and "mutex_inv m2 k" and "mtx_id m2 \<noteq> mtx_id m1"
    and "stat_of k c = RT_THREAD_RUNNING" and "c = current k"
    and "owner m1 = Some c" and "hold m1 = 1" and "owner m2 = None"
  shows "\<exists>m2' k1 m1' k2. rt_mutex_take m2 time k = Some (Returned RT_EOK, m2', k1) \<and>
    rt_mutex_release m1 k1 = Some (RT_EOK, m1', k2) \<and> prio_of k2 c = original_priority m1 \<and>
    (\<forall>k3. mutex_inv m2' k3 \<longrightarrow> current k3 = c \<longrightarrow> stat_of k3 c = RT_THREAD_RUNNING \<longrightarrow>
       (\<exists>m2'' k4. rt_mutex_release m2' k3 = Some (RT_EOK, m2'', k4) \<and> prio_of k4 c = prio_of k c))"
proof -
  let ?k1 = "upd_thread c (thread_error_update (\<lambda>_. RT_EOK)) k"
  let ?m2 = "m2\<lparr>mtx_value := mtx_value m2 - 1, owner := Some c, original_priority := prio_of k c, hold := hold m2 + 1\<rparr>"
  have m2: "mtx_value m2 = 1" "hold m2 = 0" using assms(2,8) by (auto simp: mutex_inv_def)
  then have t: "rt_mutex_take m2 time k = Some (Returned RT_EOK, ?m2, ?k1)"
    using assms(5,8) by (simp add: rt_mutex_take_def take_pass_def Let_def)
  have i1: "mutex_inv m1 ?k1"
    using assms(1) by (auto simp: mutex_inv_def intro: inv_upd split: option.splits)
  obtain m1' k2 where r: "rt_mutex_release m1 ?k1 = Some (RT_EOK, m1', k2)" "prio_of k2 c = original_priority m1"
    using mutex_release_ok [OF i1] assms(4-7) by auto
  have "\<exists>m2'' k4. rt_mutex_release ?m2 k3 = Some (RT_EOK, m2'', k4) \<and> prio_of k4 c = prio_of k c"
    if "mutex_inv ?m2 k3" "current k3 = c" "stat_of k3 c = RT_THREAD_RUNNING" for k3
    using mutex_release_ok [OF that(1)] that(2,3) m2 by auto
  then show ?thesis using t r by blast
qed

theorem nested_release_keeps_boost_witness:
  "\<exists>m2' k1 m1' k2. rt_mutex_take (rt_mutex_init 4 1) 0 (boot_kernel (\<lambda>_. 25)) = Some (Returned RT_EOK, m2', k1) \<and>
    rt_mutex_release (held_mutex\<lparr>owner := Some 1, original_priority := 20\<rparr>) k1 = Some (RT_EOK, m1', k2) \<and>
    prio_of k2 1 = 20"
proof -
  have 1: "mutex_inv (held_mutex\<lparr>owner := Some 1, original_priority := 20\<rparr>) (boot_kernel (\<lambda>_. 25))"
    using boot_kernel_inv [of "\<lambda>_. 25"] by (simp add: mutex_inv_def held_mutex_def) (simp add: boot_kernel_def)
  have 2: "mutex_inv (rt_mutex_init 4 1) (boot_kernel (\<lambda>_. 25))"
    using boot_kernel_inv [of "\<lambda>_. 25"] by (simp add: mutex_inv_def rt_mutex_init_def) (simp add: boot_kernel_def)
  show ?thesis
    using nested_release_keeps_boost [OF 1 2, of 1 0] boot_current [of "\<lambda>_. 25"]
    by (auto simp: held_mutex_def rt_mutex_init_def)
qed

end
