(* ===== verification/Event.thy ===== *)
theory Event
  imports Semaphore
begin

text \<open>
  Event sets: \<open>rt-thread/src/ipc.c\<close>, \<open>rt_event_init\<close> to \<open>rt_event_control\<close>.  A waiter leaves its
  request (the bits it wants and how) in its own thread structure; the sender serves the
  waiters in the order of the list \<open>Suspend (evt_id e)\<close>.
\<close>

section \<open>State and operations\<close>

record event =
  evt_id :: nat
  evt_flag :: nat
  evt_set :: u32

abbreviation (input) RT_EVENT_FLAG_AND :: u8 where "RT_EVENT_FLAG_AND \<equiv> 1"
abbreviation (input) RT_EVENT_FLAG_OR :: u8 where "RT_EVENT_FLAG_OR \<equiv> 2"
abbreviation (input) RT_EVENT_FLAG_CLEAR :: u8 where "RT_EVENT_FLAG_CLEAR \<equiv> 4"

definition has_flag :: "u8 \<Rightarrow> u8 \<Rightarrow> bool" where
  "has_flag opt flag \<longleftrightarrow> opt AND flag \<noteq> 0"

definition rt_event_init :: "nat \<Rightarrow> nat \<Rightarrow> event" where
  "rt_event_init oid flag = \<lparr>evt_id = oid, evt_flag = flag, evt_set = 0\<rparr>"

definition rt_event_create :: "nat option \<Rightarrow> nat \<Rightarrow> event option" where
  "rt_event_create alloc flag = map_option (\<lambda>oid. rt_event_init oid flag) alloc"

text \<open>The test both calls make; AND has precedence when both flags are given.\<close>

definition satisfied :: "u8 \<Rightarrow> u32 \<Rightarrow> u32 \<Rightarrow> bool" where
  "satisfied opt want have_set =
     (if has_flag opt RT_EVENT_FLAG_AND then want AND have_set = want
      else if has_flag opt RT_EVENT_FLAG_OR then want AND have_set \<noteq> 0 else False)"

text \<open>The loop of \<open>rt_event_send\<close> over the waiting list; it moves on before it unlinks the thread.\<close>

fun send_scan :: "tid list \<Rightarrow> u32 \<Rightarrow> kernel \<Rightarrow> u32 \<times> kernel \<times> bool" where
  "send_scan [] es k = (es, k, False)"
| "send_scan (t # ts) es k =
     (let th = threads k t
      in if satisfied (event_info th) (event_set th) es
         then let got = (if has_flag (event_info th) RT_EVENT_FLAG_AND then event_set th else event_set th AND es);
                  k1 = upd_thread t (event_set_update (\<lambda>_. got)) k;
                  es1 = (if has_flag (event_info th) RT_EVENT_FLAG_CLEAR then es AND NOT got else es);
                  (es2, k2, _) = send_scan ts es1 (snd (rt_thread_resume t k1))
              in (es2, k2, True)
         else send_scan ts es k)"

definition rt_event_send :: "event \<Rightarrow> u32 \<Rightarrow> kernel \<Rightarrow> (rt_err \<times> event \<times> kernel) option" where
  "rt_event_send ev bits k =
     (if bits = 0 then Some (- RT_ERROR, ev, k)
      else let (es, k1, need_schedule) = send_scan (linked k (Suspend (evt_id ev))) (evt_set ev OR bits) k
           in do { k2 \<leftarrow> (if need_schedule then rt_schedule k1 else Some k1);
                   Some (RT_EOK, ev\<lparr>evt_set := es\<rparr>, k2) })"

text \<open>The second component is what is stored in \<open>*recved\<close>.\<close>

definition rt_event_recv ::
  "event \<Rightarrow> u32 \<Rightarrow> u8 \<Rightarrow> int \<Rightarrow> kernel \<Rightarrow> (outcome \<times> u32 option \<times> event \<times> kernel) option" where
  "rt_event_recv ev bits opt timeout k =
     (if bits = 0 then Some (Returned (- RT_ERROR), None, ev, k)
      else let k0 = upd_thread (current k) (thread_error_update (\<lambda>_. RT_EOK)) k
           in if \<not> has_flag opt RT_EVENT_FLAG_AND \<and> \<not> has_flag opt RT_EVENT_FLAG_OR then None
              else if satisfied opt bits (evt_set ev)
              then Some (Returned RT_EOK, Some (evt_set ev AND bits),
                         if has_flag opt RT_EVENT_FLAG_CLEAR then ev\<lparr>evt_set := evt_set ev AND NOT bits\<rparr> else ev, k0)
              else if timeout = 0
              then Some (Returned (- RT_ETIMEOUT), None, ev,
                         upd_thread (current k) (thread_error_update (\<lambda>_. - RT_ETIMEOUT)) k0)
              else do { k1 \<leftarrow> suspend_on (Suspend (evt_id ev)) (evt_flag ev) timeout
                              (upd_thread (current k) (\<lambda>th. th\<lparr>event_set := bits, event_info := opt\<rparr>) k0);
                        Some (Blocked, None, ev, k1) })"

definition event_resumed :: "kernel \<Rightarrow> rt_err \<times> u32 option" where
  "event_resumed k =
     (let th = threads k (current k)
      in if thread_error th \<noteq> RT_EOK then (thread_error th, None) else (RT_EOK, Some (event_set th)))"

definition rt_event_control :: "event \<Rightarrow> nat \<Rightarrow> kernel \<Rightarrow> (rt_err \<times> event \<times> kernel) option" where
  "rt_event_control ev cmd k =
     (if cmd = RT_IPC_CMD_RESET
      then do { k1 \<leftarrow> ipc_list_resume_all (Suspend (evt_id ev)) k;
                k2 \<leftarrow> rt_schedule k1;
                Some (RT_EOK, ev\<lparr>evt_set := 0\<rparr>, k2) }
      else Some (- RT_ERROR, ev, k))"

definition rt_event_detach :: "event \<Rightarrow> kernel \<Rightarrow> (rt_err \<times> kernel) option" where
  "rt_event_detach ev k = do { k1 \<leftarrow> ipc_list_resume_all (Suspend (evt_id ev)) k; Some (RT_EOK, k1) }"

definition rt_event_delete :: "event \<Rightarrow> kernel \<Rightarrow> (rt_err \<times> kernel) option" where
  "rt_event_delete ev k = do { k1 \<leftarrow> ipc_list_resume_all (Suspend (evt_id ev)) k; Some (RT_EOK, k1) }"

section \<open>Serving the waiters\<close>

text \<open>Fewer bits satisfy fewer requests.\<close>

definition subset_bits :: "u32 \<Rightarrow> u32 \<Rightarrow> bool" where
  "subset_bits a b \<longleftrightarrow> (\<forall>i. bit a i \<longrightarrow> bit b i)"

lemma subset_bits_refl [simp]: "subset_bits a a"
  by (simp add: subset_bits_def)

lemma subset_bits_trans: "subset_bits a b \<Longrightarrow> subset_bits b c \<Longrightarrow> subset_bits a c"
  by (simp add: subset_bits_def)

lemma subset_bits_simps [simp]:
  "subset_bits (a AND b) a" "subset_bits (a AND b) b" "subset_bits (a AND NOT b) a" "subset_bits a (a OR b)"
  by (auto simp: subset_bits_def bit_simps)

lemma and_eq_iff: "a AND b = a \<longleftrightarrow> subset_bits a b" for a :: u32
proof
  assume "a AND b = a"
  then show "subset_bits a b" unfolding subset_bits_def by (metis bit_and_iff)
next
  assume "subset_bits a b"
  then show "a AND b = a" by (auto simp: subset_bits_def bit_and_iff intro!: bit_eqI)
qed

lemma satisfied_mono: "satisfied opt want es \<Longrightarrow> subset_bits es es' \<Longrightarrow> satisfied opt want es'"
proof -
  assume s: "satisfied opt want es" and sub: "subset_bits es es'"
  show ?thesis
  proof (cases "has_flag opt RT_EVENT_FLAG_AND")
    case True
    then show ?thesis using s sub by (auto simp: satisfied_def and_eq_iff intro: subset_bits_trans)
  next
    case False
    then have "want AND es \<noteq> 0" and o: "has_flag opt RT_EVENT_FLAG_OR" using s by (auto simp: satisfied_def split: if_splits)
    then obtain i where "bit (want AND es) i" by (auto simp: bit_eq_iff)
    then have "bit (want AND es') i" using sub by (auto simp: subset_bits_def bit_simps)
    then have "want AND es' \<noteq> 0" by auto
    then show ?thesis using False o by (simp add: satisfied_def)
  qed
qed

definition got_bits :: "thread \<Rightarrow> u32 \<Rightarrow> u32" where
  "got_bits th es = (if has_flag (event_info th) RT_EVENT_FLAG_AND then event_set th else event_set th AND es)"

lemma send_scan_ok:
  assumes "kernel_inv k" and "distinct ts" and "set ts \<subseteq> set (linked k (Suspend i))"
    and "send_scan ts es k = (es', k', woken)"
  shows "kernel_inv k' \<and> subset_bits es' es \<and> current k' = current k \<and>
    set (linked k' (Suspend i)) \<subseteq> set (linked k (Suspend i)) \<and>
    (\<forall>t. t \<notin> set ts \<longrightarrow> threads k' t = threads k t \<and>
       (t \<in> set (linked k' (Suspend i)) \<longleftrightarrow> t \<in> set (linked k (Suspend i)))) \<and>
    (\<forall>t \<in> set ts. thread_error (threads k' t) = thread_error (threads k t) \<and>
       (if t \<in> set (linked k' (Suspend i))
        then threads k' t = threads k t \<and> \<not> satisfied (event_info (threads k t)) (event_set (threads k t)) es'
        else stat_of k' t \<in> {RT_THREAD_READY, RT_THREAD_RUNNING} \<and>
          (\<exists>s. subset_bits s es \<and> satisfied (event_info (threads k t)) (event_set (threads k t)) s \<and>
             event_set (threads k' t) = got_bits (threads k t) s)))"
  using assms
proof (induction ts arbitrary: es k es' k' woken)
  case Nil
  then show ?case by simp
next
  case (Cons t ts)
  let ?q = "Suspend i" and ?th = "threads k t"
  have tin: "t \<in> set (linked k ?q)" and nt: "t \<notin> set ts" using Cons.prems(2,3) by auto
  show ?case
  proof (cases "satisfied (event_info ?th) (event_set ?th) es")
    case False
    then have r: "send_scan ts es k = (es', k', woken)" using Cons.prems(4) by (simp add: Let_def)
    have ih: "kernel_inv k' \<and> subset_bits es' es \<and> current k' = current k \<and>
      set (linked k' ?q) \<subseteq> set (linked k ?q) \<and>
      (\<forall>t. t \<notin> set ts \<longrightarrow> threads k' t = threads k t \<and> (t \<in> set (linked k' ?q) \<longleftrightarrow> t \<in> set (linked k ?q))) \<and>
      (\<forall>t \<in> set ts. thread_error (threads k' t) = thread_error (threads k t) \<and>
       (if t \<in> set (linked k' ?q)
        then threads k' t = threads k t \<and> \<not> satisfied (event_info (threads k t)) (event_set (threads k t)) es'
        else stat_of k' t \<in> {RT_THREAD_READY, RT_THREAD_RUNNING} \<and>
          (\<exists>s. subset_bits s es \<and> satisfied (event_info (threads k t)) (event_set (threads k t)) s \<and>
             event_set (threads k' t) = got_bits (threads k t) s)))"
      by (rule Cons.IH [OF Cons.prems(1) _ _ r]) (use Cons.prems(2,3) in auto)
    have "\<not> satisfied (event_info ?th) (event_set ?th) es'" using False satisfied_mono ih by blast
    then show ?thesis using ih nt tin by auto
  next
    case True
    let ?k1 = "upd_thread t (event_set_update (\<lambda>_. got_bits ?th es)) k"
    let ?es1 = "if has_flag (event_info ?th) RT_EVENT_FLAG_CLEAR then es AND NOT (got_bits ?th es) else es"
    have k1: "kernel_inv ?k1" by (rule inv_upd [OF Cons.prems(1)]) simp
    obtain k2 where r: "rt_thread_resume t ?k1 = (RT_EOK, k2)" and k2: "kernel_inv k2"
      and l2: "linked k2 ?q = removeAll t (linked k ?q)" and c2: "current k2 = current k"
      and th2: "threads k2 = (threads ?k1)(t := (threads ?k1 t)\<lparr>thread_timer := None,
        stat := if t = current ?k1 then RT_THREAD_RUNNING else RT_THREAD_READY\<rparr>)"
      using resume_member [OF k1, of ?q i t] tin by auto
    obtain w where s: "send_scan ts ?es1 k2 = (es', k', w)"
      using Cons.prems(4) True r unfolding got_bits_def by (auto simp: Let_def split: prod.splits)
    have sub: "set ts \<subseteq> set (linked k2 ?q)" using Cons.prems(3) nt l2 by auto
    have ih: "kernel_inv k' \<and> subset_bits es' ?es1 \<and> current k' = current k2 \<and>
      set (linked k' ?q) \<subseteq> set (linked k2 ?q) \<and>
      (\<forall>t. t \<notin> set ts \<longrightarrow> threads k' t = threads k2 t \<and> (t \<in> set (linked k' ?q) \<longleftrightarrow> t \<in> set (linked k2 ?q))) \<and>
      (\<forall>t \<in> set ts. thread_error (threads k' t) = thread_error (threads k2 t) \<and>
       (if t \<in> set (linked k' ?q)
        then threads k' t = threads k2 t \<and> \<not> satisfied (event_info (threads k2 t)) (event_set (threads k2 t)) es'
        else stat_of k' t \<in> {RT_THREAD_READY, RT_THREAD_RUNNING} \<and>
          (\<exists>s. subset_bits s ?es1 \<and> satisfied (event_info (threads k2 t)) (event_set (threads k2 t)) s \<and>
             event_set (threads k' t) = got_bits (threads k2 t) s)))"
      by (rule Cons.IH [OF k2 _ sub s]) (use Cons.prems(2) in simp)
    have e1: "subset_bits ?es1 es" by simp
    have same: "threads k2 u = threads k u" if "u \<noteq> t" for u using that by (simp add: th2)
    have me: "threads k' t = threads k2 t" "t \<notin> set (linked k' ?q)" using ih nt l2 by auto
    show ?thesis
    proof (intro conjI)
      show "kernel_inv k'" "subset_bits es' es" "current k' = current k" "set (linked k' ?q) \<subseteq> set (linked k ?q)"
        using ih e1 c2 l2 subset_bits_trans by auto
      show "\<forall>u. u \<notin> set (t # ts) \<longrightarrow> threads k' u = threads k u \<and> (u \<in> set (linked k' ?q) \<longleftrightarrow> u \<in> set (linked k ?q))"
        using ih same l2 by auto
      show "\<forall>u \<in> set (t # ts). thread_error (threads k' u) = thread_error (threads k u) \<and>
       (if u \<in> set (linked k' ?q)
        then threads k' u = threads k u \<and> \<not> satisfied (event_info (threads k u)) (event_set (threads k u)) es'
        else stat_of k' u \<in> {RT_THREAD_READY, RT_THREAD_RUNNING} \<and>
          (\<exists>s. subset_bits s es \<and> satisfied (event_info (threads k u)) (event_set (threads k u)) s \<and>
             event_set (threads k' u) = got_bits (threads k u) s))"
      proof
        fix u assume u: "u \<in> set (t # ts)"
        show "thread_error (threads k' u) = thread_error (threads k u) \<and>
         (if u \<in> set (linked k' ?q)
          then threads k' u = threads k u \<and> \<not> satisfied (event_info (threads k u)) (event_set (threads k u)) es'
          else stat_of k' u \<in> {RT_THREAD_READY, RT_THREAD_RUNNING} \<and>
            (\<exists>s. subset_bits s es \<and> satisfied (event_info (threads k u)) (event_set (threads k u)) s \<and>
               event_set (threads k' u) = got_bits (threads k u) s))"
        proof (cases "u = t")
          case ut: True
          have "\<exists>s. subset_bits s es \<and> satisfied (event_info ?th) (event_set ?th) s \<and> got_bits ?th es = got_bits ?th s"
            by (rule exI [of _ es]) (use True in simp)
          then show ?thesis using me unfolding ut by (simp add: th2)
        next
          case False
          then have uts: "u \<in> set ts" using u by simp
          from ih uts have "thread_error (threads k' u) = thread_error (threads k2 u) \<and>
           (if u \<in> set (linked k' ?q)
            then threads k' u = threads k2 u \<and> \<not> satisfied (event_info (threads k2 u)) (event_set (threads k2 u)) es'
            else stat_of k' u \<in> {RT_THREAD_READY, RT_THREAD_RUNNING} \<and>
              (\<exists>s. subset_bits s ?es1 \<and> satisfied (event_info (threads k2 u)) (event_set (threads k2 u)) s \<and>
                 event_set (threads k' u) = got_bits (threads k2 u) s))" by blast
          moreover have "subset_bits s es" if "subset_bits s ?es1" for s
            using that e1 subset_bits_trans by blast
          ultimately show ?thesis unfolding same [OF False]
            by (cases "u \<in> set (linked k' ?q)") (simp, simp only: if_False, blast)
        qed
      qed
    qed
  qed
qed

section \<open>No wakeup is lost\<close>

text \<open>No thread waits for bits that are there.\<close>

definition event_inv :: "event \<Rightarrow> kernel \<Rightarrow> bool" where
  "event_inv ev k \<longleftrightarrow> kernel_inv k \<and> evt_flag ev \<le> 1 \<and>
     (\<forall>t \<in> set (linked k (Suspend (evt_id ev))).
        \<not> satisfied (event_info (threads k t)) (event_set (threads k t)) (evt_set ev))"

lemma event_send_ok:
  assumes i: "event_inv ev k" and b: "bits \<noteq> 0"
  shows "\<exists>ev' k'. rt_event_send ev bits k = Some (RT_EOK, ev', k') \<and> event_inv ev' k' \<and> evt_id ev' = evt_id ev \<and>
    subset_bits (evt_set ev') (evt_set ev OR bits) \<and>
    set (linked k' (Suspend (evt_id ev))) \<subseteq> set (linked k (Suspend (evt_id ev))) \<and>
    (\<forall>t \<in> set (linked k (Suspend (evt_id ev))). thread_error (threads k' t) = thread_error (threads k t) \<and>
       (t \<notin> set (linked k' (Suspend (evt_id ev))) \<longrightarrow> stat_of k' t \<in> {RT_THREAD_READY, RT_THREAD_RUNNING} \<and>
          (\<exists>s. subset_bits s (evt_set ev OR bits) \<and> satisfied (event_info (threads k t)) (event_set (threads k t)) s \<and>
             event_set (threads k' t) = got_bits (threads k t) s)))"
proof -
  let ?q = "Suspend (evt_id ev)"
  have k: "kernel_inv k" and f: "evt_flag ev \<le> 1" using i by (auto simp: event_inv_def)
  obtain es k1 w where s: "send_scan (linked k ?q) (evt_set ev OR bits) k = (es, k1, w)" by (metis prod_cases3)
  note ok = send_scan_ok [OF k kernel_invD(2) [OF k] subset_refl s]
  have k1: "kernel_inv k1" using ok by simp
  obtain k2 where r: "(if w then rt_schedule k1 else Some k1) = Some k2" using schedule_ok [OF k1] by (cases w) auto
  have fr: "kernel_inv k2" "linked k2 ?q = linked k1 ?q" "\<And>t. event_set (threads k2 t) = event_set (threads k1 t)"
    "\<And>t. event_info (threads k2 t) = event_info (threads k1 t)"
    "\<And>t. thread_error (threads k2 t) = thread_error (threads k1 t)"
    "\<And>t. stat_of k2 t \<in> {RT_THREAD_READY, RT_THREAD_RUNNING} \<longleftrightarrow> stat_of k1 t \<in> {RT_THREAD_READY, RT_THREAD_RUNNING}"
    using r k1 schedule_inv [OF k1] schedule_frameD(1,4,5,9) [OF k1] schedule_runnable [OF k1]
    by (cases w; simp)+
  have e: "rt_event_send ev bits k = Some (RT_EOK, ev\<lparr>evt_set := es\<rparr>, k2)"
    using b s r by (simp add: rt_event_send_def)
  have "event_inv (ev\<lparr>evt_set := es\<rparr>) k2"
    unfolding event_inv_def using fr ok f by (auto split: if_splits)
  moreover have "\<forall>t \<in> set (linked k ?q). thread_error (threads k2 t) = thread_error (threads k t) \<and>
       (t \<notin> set (linked k2 ?q) \<longrightarrow> stat_of k2 t \<in> {RT_THREAD_READY, RT_THREAD_RUNNING} \<and>
          (\<exists>s. subset_bits s (evt_set ev OR bits) \<and> satisfied (event_info (threads k t)) (event_set (threads k t)) s \<and>
             event_set (threads k2 t) = got_bits (threads k t) s))"
    unfolding fr using ok by (simp only: if_False split: if_splits) blast
  ultimately show ?thesis using e fr(2) ok by auto
qed

lemma event_recv_ok:
  assumes i: "event_inv ev k" and b: "bits \<noteq> 0" and run: "stat_of k (current k) = RT_THREAD_RUNNING"
    and opt: "has_flag opt RT_EVENT_FLAG_AND \<or> has_flag opt RT_EVENT_FLAG_OR" and time: "timeout < 2147483647"
  shows "\<exists>out r ev' k'. rt_event_recv ev bits opt timeout k = Some (out, r, ev', k') \<and> event_inv ev' k' \<and>
    evt_id ev' = evt_id ev \<and>
    (if satisfied opt bits (evt_set ev)
     then out = Returned RT_EOK \<and> r = Some (evt_set ev AND bits) \<and>
       evt_set ev' = (if has_flag opt RT_EVENT_FLAG_CLEAR then evt_set ev AND NOT bits else evt_set ev)
     else ev' = ev \<and> r = None \<and> out = (if timeout = 0 then Returned (- RT_ETIMEOUT) else Blocked))"
proof -
  let ?q = "Suspend (evt_id ev)" and ?c = "current k"
  let ?k0 = "upd_thread ?c (thread_error_update (\<lambda>_. RT_EOK)) k"
  have k: "kernel_inv k" and f: "evt_flag ev \<le> 1" using i by (auto simp: event_inv_def)
  have k0: "kernel_inv ?k0" by (rule inv_upd [OF k]) simp
  have inv0: "event_inv (ev\<lparr>evt_set := s\<rparr>) (upd_thread ?c (thread_error_update (\<lambda>_. e)) k)"
    if "subset_bits s (evt_set ev)" for s e
    using i that satisfied_mono inv_upd [OF k] by (fastforce simp: event_inv_def)
  consider (now) "satisfied opt bits (evt_set ev)" | (no) "\<not> satisfied opt bits (evt_set ev)" "timeout = 0"
    | (wait) "\<not> satisfied opt bits (evt_set ev)" "timeout \<noteq> 0" by blast
  then show ?thesis
  proof cases
    case now
    have "rt_event_recv ev bits opt timeout k = Some (Returned RT_EOK, Some (evt_set ev AND bits),
        ev\<lparr>evt_set := if has_flag opt RT_EVENT_FLAG_CLEAR then evt_set ev AND NOT bits else evt_set ev\<rparr>, ?k0)"
      using now b opt by (auto simp: rt_event_recv_def)
    moreover have "event_inv (ev\<lparr>evt_set := if has_flag opt RT_EVENT_FLAG_CLEAR then evt_set ev AND NOT bits else evt_set ev\<rparr>) ?k0"
      by (rule inv0) simp
    ultimately show ?thesis using now by auto
  next
    case no
    have "rt_event_recv ev bits opt timeout k = Some (Returned (- RT_ETIMEOUT), None, ev,
        upd_thread ?c (thread_error_update (\<lambda>_. - RT_ETIMEOUT)) k)"
      using no b opt by (auto simp: rt_event_recv_def upd_thread_def)
    then show ?thesis using no inv0 [of "evt_set ev"] by simp
  next
    case wait
    let ?k1 = "upd_thread ?c (\<lambda>th. th\<lparr>event_set := bits, event_info := opt\<rparr>) ?k0"
    have k1: "kernel_inv ?k1" by (rule inv_upd [OF k0]) (simp add: same_role_def)
    have r1: "stat_of ?k1 (current ?k1) = RT_THREAD_RUNNING" using run by simp
    obtain k' where s: "suspend_on ?q (evt_flag ev) timeout ?k1 = Some k'" and k': "kernel_inv k'"
      and l: "linked k' ?q = enqueued (evt_flag ev) (prio_of ?k1) ?c (linked k ?q)"
      and es: "\<And>t. event_set (threads k' t) = event_set (threads ?k1 t) \<and> event_info (threads k' t) = event_info (threads ?k1 t)"
      using suspend_on_ok [OF k1 r1 _ f time, of ?q "evt_id ev"] by auto
    have "event_inv ev k'"
      unfolding event_inv_def
    proof (intro conjI ballI k' f)
      fix t assume "t \<in> set (linked k' ?q)"
      then have "t = ?c \<or> t \<in> set (linked k ?q)" by (auto simp: l enqueued_def split: if_splits)
      then show "\<not> satisfied (event_info (threads k' t)) (event_set (threads k' t)) (evt_set ev)"
        using i wait(1) es by (auto simp: event_inv_def)
    qed
    then show ?thesis using wait b opt s by (auto simp: rt_event_recv_def Let_def)
  qed
qed

section \<open>Properties\<close>


definition example_event :: event where
  "example_event = rt_event_init 5 0"


text \<open>Receiving keeps the same invariant on every branch: bits that are there are taken at
  once (and cleared on request), otherwise the call times out or waits with its request noted,
  and the set is left alone.\<close>

theorem event_recv_keeps_invariant:
  assumes "event_inv ev k" and "bits \<noteq> 0" and "stat_of k (current k) = RT_THREAD_RUNNING"
    and "has_flag opt RT_EVENT_FLAG_AND \<or> has_flag opt RT_EVENT_FLAG_OR" and "timeout < 2147483647"
  shows "\<exists>out r ev' k'. rt_event_recv ev bits opt timeout k = Some (out, r, ev', k') \<and> event_inv ev' k' \<and>
    (if satisfied opt bits (evt_set ev)
     then out = Returned RT_EOK \<and> r = Some (evt_set ev AND bits) \<and>
       evt_set ev' = (if has_flag opt RT_EVENT_FLAG_CLEAR then evt_set ev AND NOT bits else evt_set ev)
     else ev' = ev \<and> r = None \<and> out = (if timeout = 0 then Returned (- RT_ETIMEOUT) else Blocked))"
  using event_recv_ok [OF assms] by blast

theorem event_recv_keeps_invariant_witness:
  "\<exists>out r ev' k'. rt_event_recv (example_event\<lparr>evt_set := 3\<rparr>) 1 6 (-1) (boot_kernel (\<lambda>_. 25)) = Some (out, r, ev', k') \<and>
    out = Returned RT_EOK \<and> r = Some 1 \<and> evt_set ev' = 2"
proof -
  have "event_inv (example_event\<lparr>evt_set := 3\<rparr>) (boot_kernel (\<lambda>_. 25))"
    using boot_kernel_inv [of "\<lambda>_. 25"]
    by (simp add: event_inv_def example_event_def rt_event_init_def) (simp add: boot_kernel_def)
  moreover have "stat_of (boot_kernel (\<lambda>_. 25)) (current (boot_kernel (\<lambda>_. 25))) = RT_THREAD_RUNNING"
    by (simp add: boot_kernel_def)
  ultimately show ?thesis
    using event_recv_keeps_invariant [of "example_event\<lparr>evt_set := 3\<rparr>" "boot_kernel (\<lambda>_. 25)" 1 6 "-1"]
    by (auto simp: has_flag_def satisfied_def)
qed

end
