(* ===== verification/MessageQueue.thy ===== *)
theory MessageQueue
  imports Mailbox
begin

text \<open>
  Message queues: \<open>rt-thread/src/ipc.c\<close>, \<open>rt_mq_init\<close> to \<open>rt_mq_control\<close>.  A message is a node of
  the pool, here its number, with a \<open>next\<close> pointer and \<open>msg_size\<close> bytes; the nodes are linked
  into the list of queued messages (head and tail) or the free list.  Sender and receiver copy
  the bytes with interrupts on, while their node is in neither list, so each call is three
  steps, and the invariant carries the nodes in such hands.
\<close>

section \<open>State\<close>

record mqueue =
  mq_id :: nat
  mq_flag :: nat
  msg_size :: nat
  max_msgs :: nat
  mq_entry :: nat
  mq_head :: "nat option"
  mq_tail :: "nat option"
  mq_free :: "nat option"
  mq_next :: "nat \<Rightarrow> nat option"
  mq_slot :: "nat \<Rightarrow> u8 list"

definition set_next :: "nat \<Rightarrow> nat option \<Rightarrow> mqueue \<Rightarrow> mqueue" where
  "set_next i p mq = mq\<lparr>mq_next := (mq_next mq)(i := p)\<rparr>"

section \<open>Operations\<close>

text \<open>Putting a node on the free list: the loop body of the initialisation and the end of a receive.\<close>

definition give_back :: "nat \<Rightarrow> mqueue \<Rightarrow> mqueue" where
  "give_back i mq = (set_next i (mq_free mq) mq)\<lparr>mq_free := Some i\<rparr>"

definition rt_align :: "nat \<Rightarrow> nat" where
  "rt_align n = (n + 3) div 4 * 4"

definition mq_format :: "nat \<Rightarrow> nat \<Rightarrow> nat \<Rightarrow> nat \<Rightarrow> (nat \<Rightarrow> u8 list) \<Rightarrow> mqueue" where
  "mq_format oid sz msgs flag pool =
     fold give_back [0..<msgs]
       \<lparr>mq_id = oid, mq_flag = flag, msg_size = rt_align sz, max_msgs = msgs, mq_entry = 0,
        mq_head = None, mq_tail = None, mq_free = None, mq_next = (\<lambda>_. None), mq_slot = pool\<rparr>"

text \<open>\<open>rt_mq_init\<close> computes how many messages of that size, each with its \<open>next\<close> pointer of four
  bytes, the pool holds; \<open>rt_mq_create\<close> is told and allocates.\<close>

definition rt_mq_init :: "nat \<Rightarrow> nat \<Rightarrow> nat \<Rightarrow> nat \<Rightarrow> (nat \<Rightarrow> u8 list) \<Rightarrow> mqueue" where
  "rt_mq_init oid sz pool_size flag pool = mq_format oid sz (pool_size div (rt_align sz + 4)) flag pool"

definition rt_mq_create :: "nat option \<Rightarrow> (nat \<Rightarrow> u8 list) option \<Rightarrow> nat \<Rightarrow> nat \<Rightarrow> nat \<Rightarrow> mqueue option" where
  "rt_mq_create alloc pool sz msgs flag = do { oid \<leftarrow> alloc; p \<leftarrow> pool; Some (mq_format oid sz msgs flag p) }"

text \<open>The steps of a send: take a free node, fill it, link it at the tail (or, urgent, at the head).\<close>

definition take_node :: "mqueue \<Rightarrow> (nat \<times> mqueue) option" where
  "take_node mq = do { i \<leftarrow> mq_free mq; Some (i, mq\<lparr>mq_free := mq_next mq i\<rparr>) }"

definition fill_node :: "nat \<Rightarrow> u8 list \<Rightarrow> mqueue \<Rightarrow> mqueue option" where
  "fill_node i buf mq =
     do { d \<leftarrow> mem_store 0 buf (mq_slot mq i); Some (mq\<lparr>mq_slot := (mq_slot mq)(i := d)\<rparr>) }"

definition link_tail :: "nat \<Rightarrow> mqueue \<Rightarrow> mqueue" where
  "link_tail i mq =
     (let mq1 = (case mq_tail mq of None \<Rightarrow> mq | Some t \<Rightarrow> set_next t (Some i) mq);
          mq2 = mq1\<lparr>mq_tail := Some i\<rparr>;
          mq3 = (if mq_head mq2 = None then mq2\<lparr>mq_head := Some i\<rparr> else mq2)
      in mq3\<lparr>mq_entry := mq_entry mq3 + 1\<rparr>)"

definition link_head :: "nat \<Rightarrow> mqueue \<Rightarrow> mqueue" where
  "link_head i mq =
     (let mq1 = (set_next i (mq_head mq) mq)\<lparr>mq_head := Some i\<rparr>;
          mq2 = (if mq_tail mq1 = None then mq1\<lparr>mq_tail := Some i\<rparr> else mq1)
      in mq2\<lparr>mq_entry := mq_entry mq2 + 1\<rparr>)"

definition unlink_head :: "mqueue \<Rightarrow> (nat \<times> mqueue) option" where
  "unlink_head mq =
     do { i \<leftarrow> mq_head mq;
          let mq1 = mq\<lparr>mq_head := mq_next mq i\<rparr>;
          let mq2 = (if mq_tail mq1 = Some i then mq1\<lparr>mq_tail := None\<rparr> else mq1);
          Some (i, mq2\<lparr>mq_entry := mq_entry mq2 - 1\<rparr>) }"

definition mq_send_pass ::
  "mqueue \<Rightarrow> u8 list \<Rightarrow> int \<Rightarrow> kernel \<Rightarrow> (outcome \<times> mqueue \<times> kernel) option" where
  "mq_send_pass mq buf timeout k =
     (if mq_free mq = None
      then if timeout = 0
           then Some (Returned (- RT_EFULL), mq, upd_thread (current k) (thread_error_update (\<lambda>_. RT_EOK)) k)
           else do { k' \<leftarrow> wait_on (Sender (mq_id mq)) (mq_flag mq) timeout k; Some (Blocked, mq, k') }
      else do { (i, mq1) \<leftarrow> take_node mq;
                mq2 \<leftarrow> fill_node i buf (set_next i None mq1);
                k' \<leftarrow> wake_one (Suspend (mq_id mq)) k;
                Some (Returned RT_EOK, link_tail i mq2, k') })"

definition rt_mq_send_wait ::
  "mqueue \<Rightarrow> u8 list \<Rightarrow> int \<Rightarrow> kernel \<Rightarrow> (outcome \<times> mqueue \<times> kernel) option" where
  "rt_mq_send_wait mq buf timeout k =
     (if buf = [] then None
      else if length buf > msg_size mq then Some (Returned (- RT_ERROR), mq, k)
      else if mq_free mq = None \<and> timeout = 0 then Some (Returned (- RT_EFULL), mq, k)
      else mq_send_pass mq buf timeout k)"

definition rt_mq_send :: "mqueue \<Rightarrow> u8 list \<Rightarrow> kernel \<Rightarrow> (outcome \<times> mqueue \<times> kernel) option" where
  "rt_mq_send mq buf k = rt_mq_send_wait mq buf 0 k"

definition mq_send_resumed ::
  "mqueue \<Rightarrow> u8 list \<Rightarrow> int \<Rightarrow> nat \<Rightarrow> kernel \<Rightarrow> (outcome \<times> mqueue \<times> kernel) option" where
  "mq_send_resumed mq buf timeout slept k =
     (if thread_error (threads k (current k)) \<noteq> RT_EOK
      then Some (Returned (thread_error (threads k (current k))), mq, k)
      else mq_send_pass mq buf (time_left timeout slept) k)"

definition rt_mq_urgent :: "mqueue \<Rightarrow> u8 list \<Rightarrow> kernel \<Rightarrow> (outcome \<times> mqueue \<times> kernel) option" where
  "rt_mq_urgent mq buf k =
     (if buf = [] then None
      else if length buf > msg_size mq then Some (Returned (- RT_ERROR), mq, k)
      else if mq_free mq = None then Some (Returned (- RT_EFULL), mq, k)
      else do { (i, mq1) \<leftarrow> take_node mq;
                mq2 \<leftarrow> fill_node i buf mq1;
                k' \<leftarrow> wake_one (Suspend (mq_id mq)) k;
                Some (Returned RT_EOK, link_head i mq2, k') })"

text \<open>A receive into a buffer of \<open>sz\<close> bytes; the bytes it stores there are the second component.\<close>

definition mq_recv_pass ::
  "mqueue \<Rightarrow> nat \<Rightarrow> int \<Rightarrow> kernel \<Rightarrow> (outcome \<times> u8 list option \<times> mqueue \<times> kernel) option" where
  "mq_recv_pass mq sz timeout k =
     (if mq_entry mq = 0
      then if timeout = 0
           then Some (Returned (- RT_ETIMEOUT), None, mq,
                      upd_thread (current k) (thread_error_update (\<lambda>_. - RT_ETIMEOUT)) k)
           else do { k' \<leftarrow> wait_on (Suspend (mq_id mq)) (mq_flag mq) timeout k; Some (Blocked, None, mq, k') }
      else do { (i, mq1) \<leftarrow> unlink_head mq;
                bs \<leftarrow> mem_load 0 (if sz > msg_size mq1 then msg_size mq1 else sz) (mq_slot mq1 i);
                k' \<leftarrow> wake_one (Sender (mq_id mq)) k;
                Some (Returned RT_EOK, Some bs, give_back i mq1, k') })"

definition rt_mq_recv ::
  "mqueue \<Rightarrow> nat \<Rightarrow> int \<Rightarrow> kernel \<Rightarrow> (outcome \<times> u8 list option \<times> mqueue \<times> kernel) option" where
  "rt_mq_recv mq sz timeout k =
     (if sz = 0 then None
      else if mq_entry mq = 0 \<and> timeout = 0 then Some (Returned (- RT_ETIMEOUT), None, mq, k)
      else mq_recv_pass mq sz timeout k)"

definition mq_recv_resumed ::
  "mqueue \<Rightarrow> nat \<Rightarrow> int \<Rightarrow> nat \<Rightarrow> kernel \<Rightarrow> (outcome \<times> u8 list option \<times> mqueue \<times> kernel) option" where
  "mq_recv_resumed mq sz timeout slept k =
     (if thread_error (threads k (current k)) \<noteq> RT_EOK
      then Some (Returned (thread_error (threads k (current k))), None, mq, k)
      else mq_recv_pass mq sz (time_left timeout slept) k)"

text \<open>The loop of the reset; it leaves \<open>entry\<close> alone, the caller clears it.\<close>

partial_function (option) mq_drain :: "mqueue \<Rightarrow> mqueue option" where
  "mq_drain mq =
     (case mq_head mq of
        None \<Rightarrow> Some mq
      | Some i \<Rightarrow>
          let mq1 = mq\<lparr>mq_head := mq_next mq i\<rparr>;
              mq2 = (if mq_tail mq1 = Some i then mq1\<lparr>mq_tail := None\<rparr> else mq1)
          in mq_drain (give_back i mq2))"

definition rt_mq_control :: "mqueue \<Rightarrow> nat \<Rightarrow> kernel \<Rightarrow> (rt_err \<times> mqueue \<times> kernel) option" where
  "rt_mq_control mq cmd k =
     (if cmd = RT_IPC_CMD_RESET
      then do { k1 \<leftarrow> wake_both (mq_id mq) k;
                mq1 \<leftarrow> mq_drain mq;
                k2 \<leftarrow> rt_schedule k1;
                Some (RT_EOK, mq1\<lparr>mq_entry := 0\<rparr>, k2) }
      else Some (- RT_ERROR, mq, k))"

definition rt_mq_detach :: "mqueue \<Rightarrow> kernel \<Rightarrow> (rt_err \<times> kernel) option" where
  "rt_mq_detach mq k = do { k1 \<leftarrow> wake_both (mq_id mq) k; Some (RT_EOK, k1) }"

definition rt_mq_delete :: "mqueue \<Rightarrow> kernel \<Rightarrow> (rt_err \<times> kernel) option" where
  "rt_mq_delete mq k = do { k1 \<leftarrow> wake_both (mq_id mq) k; Some (RT_EOK, k1) }"

section \<open>Chains\<close>

text \<open>\<open>chain n p xs\<close>: from \<open>p\<close> the pointers \<open>n\<close> lead through exactly the nodes \<open>xs\<close> to the end.\<close>

fun chain :: "(nat \<Rightarrow> nat option) \<Rightarrow> nat option \<Rightarrow> nat list \<Rightarrow> bool" where
  "chain n p [] \<longleftrightarrow> p = None"
| "chain n p (x # xs) \<longleftrightarrow> p = Some x \<and> chain n (n x) xs"

lemma chain_upd [simp]: "x \<notin> set xs \<Longrightarrow> chain (n(x := v)) p xs = chain n p xs"
  by (induction xs arbitrary: p) auto

lemma chain_None: "chain n None xs \<longleftrightarrow> xs = []"
  by (cases xs) auto

lemma chain_Some: "chain n (Some x) xs \<longleftrightarrow> (\<exists>ys. xs = x # ys \<and> chain n (n x) ys)"
  by (cases xs) auto

lemma chain_snoc:
  "chain n p (xs @ [t]) \<Longrightarrow> i \<notin> set (xs @ [t]) \<Longrightarrow> n i = None \<Longrightarrow> distinct (xs @ [t]) \<Longrightarrow>
    chain (n(t := Some i)) p (xs @ [t, i])"
  by (induction xs arbitrary: p) auto

fun walk :: "(nat \<Rightarrow> nat option) \<Rightarrow> nat option \<Rightarrow> nat \<Rightarrow> nat list" where
  "walk n (Some x) (Suc m) = x # walk n (n x) m"
| "walk n p m = []"

lemma chain_walk: "chain n p xs \<Longrightarrow> walk n p (length xs) = xs"
  by (induction xs arbitrary: p) auto

section \<open>Invariant and abstraction\<close>

text \<open>Queued, free and handed-out nodes (\<open>xs\<close>, \<open>ys\<close>, \<open>rs\<close>) share out the pool.\<close>

definition mq_links :: "mqueue \<Rightarrow> nat list \<Rightarrow> nat list \<Rightarrow> nat list \<Rightarrow> bool" where
  "mq_links mq xs ys rs \<longleftrightarrow>
     chain (mq_next mq) (mq_head mq) xs \<and> chain (mq_next mq) (mq_free mq) ys \<and>
     distinct (xs @ ys @ rs) \<and> set (xs @ ys @ rs) = {..<max_msgs mq} \<and>
     mq_tail mq = (if xs = [] then None else Some (last xs)) \<and>
     (\<forall>i < max_msgs mq. length (mq_slot mq i) = msg_size mq) \<and> mq_flag mq \<le> 1"

definition mq_shape :: "mqueue \<Rightarrow> nat list \<Rightarrow> nat list \<Rightarrow> nat list \<Rightarrow> bool" where
  "mq_shape mq xs ys rs \<longleftrightarrow> mq_links mq xs ys rs \<and> mq_entry mq = length xs"

definition mq_abs :: "mqueue \<Rightarrow> u8 list list" where
  "mq_abs mq = map (mq_slot mq) (walk (mq_next mq) (mq_head mq) (mq_entry mq))"

lemma mq_shape_abs: "mq_shape mq xs ys rs \<Longrightarrow> mq_abs mq = map (mq_slot mq) xs"
  by (auto simp: mq_shape_def mq_links_def mq_abs_def chain_walk)

lemma mq_shape_count: "mq_shape mq xs ys rs \<Longrightarrow> length xs + length ys + length rs = max_msgs mq"
proof -
  assume s: "mq_shape mq xs ys rs"
  then have "card (set (xs @ ys @ rs)) = length (xs @ ys @ rs)" by (intro distinct_card) (simp add: mq_shape_def mq_links_def)
  moreover have "card (set (xs @ ys @ rs)) = max_msgs mq" using s by (simp only: mq_shape_def mq_links_def card_lessThan)
  ultimately show ?thesis by simp
qed

lemma take_node_ok:
  assumes "mq_shape mq xs (y # ys) rs"
  shows "take_node mq = Some (y, mq\<lparr>mq_free := mq_next mq y\<rparr>)"
    and "mq_shape (mq\<lparr>mq_free := mq_next mq y\<rparr>) xs ys (y # rs)"
  using assms by (auto simp: mq_shape_def mq_links_def take_node_def)

lemma set_next_reserved: "mq_shape mq xs ys (y # rs) \<Longrightarrow> mq_shape (set_next y p mq) xs ys (y # rs)"
  by (simp add: mq_shape_def mq_links_def set_next_def)

lemma fill_node_ok:
  assumes s: "mq_shape mq xs ys (y # rs)" and len: "length buf \<le> msg_size mq"
  shows "\<exists>mq'. fill_node y buf mq = Some mq' \<and> mq_shape mq' xs ys (y # rs) \<and>
    mq' = mq\<lparr>mq_slot := (mq_slot mq)(y := buf @ drop (length buf) (mq_slot mq y))\<rparr>"
proof -
  have "y < max_msgs mq" using s by (auto simp: mq_shape_def mq_links_def)
  then have "length (mq_slot mq y) = msg_size mq" using s by (simp add: mq_shape_def mq_links_def)
  then show ?thesis using s len by (auto simp: fill_node_def mem_store_def mq_shape_def mq_links_def)
qed

lemma link_tail_ok:
  assumes s: "mq_shape mq xs ys (y # rs)" and n: "mq_next mq y = None"
  shows "mq_shape (link_tail y mq) (xs @ [y]) ys rs"
proof (cases xs rule: rev_cases)
  case Nil
  then show ?thesis using s n by (auto simp: mq_shape_def mq_links_def link_tail_def set_next_def Let_def)
next
  case (snoc zs t)
  have "mq_head mq \<noteq> None" using s snoc by (cases zs) (auto simp: mq_shape_def mq_links_def)
  moreover have "chain ((mq_next mq)(t := Some y)) (mq_head mq) (zs @ [t, y])"
    using s n snoc by (intro chain_snoc) (auto simp: mq_shape_def mq_links_def)
  moreover have "t \<notin> set ys" using s snoc by (auto simp: mq_shape_def mq_links_def)
  ultimately show ?thesis
    using s snoc by (auto simp: mq_shape_def mq_links_def link_tail_def set_next_def Let_def)
qed

lemma link_head_ok:
  assumes s: "mq_shape mq xs ys (y # rs)"
  shows "mq_shape (link_head y mq) (y # xs) ys rs"
  using s by (auto simp: mq_shape_def mq_links_def link_head_def set_next_def Let_def)

lemma unlink_head_ok:
  assumes s: "mq_shape mq (x # xs) ys rs"
  shows "\<exists>mq'. unlink_head mq = Some (x, mq') \<and> mq_shape mq' xs ys (x # rs) \<and> mq_slot mq' = mq_slot mq \<and>
    msg_size mq' = msg_size mq \<and> max_msgs mq' = max_msgs mq \<and> mq_id mq' = mq_id mq"
proof -
  have "last (x # xs) = x \<longleftrightarrow> xs = []" using s by (auto simp: mq_shape_def mq_links_def)
  then show ?thesis using s by (auto simp: mq_shape_def mq_links_def unlink_head_def Let_def)
qed

lemma give_back_ok:
  assumes "mq_shape mq xs ys (y # rs)"
  shows "mq_shape (give_back y mq) xs (y # ys) rs"
  using assms by (auto simp: mq_shape_def mq_links_def give_back_def set_next_def)

section \<open>Initialisation and reset\<close>

lemma give_back_all:
  "mq_shape mq xs ys (rs @ rs') \<Longrightarrow> mq_shape (fold give_back rs mq) xs (rev rs @ ys) rs' \<and>
    msg_size (fold give_back rs mq) = msg_size mq \<and> max_msgs (fold give_back rs mq) = max_msgs mq"
proof (induction rs arbitrary: mq ys)
  case (Cons r rs)
  have "mq_shape (give_back r mq) xs (r # ys) (rs @ rs')" using give_back_ok Cons.prems by simp
  from Cons.IH [OF this] show ?case by (simp add: give_back_def set_next_def)
qed simp

lemma mq_format_ok:
  assumes "flag \<le> 1" and "\<forall>i < msgs. length (pool i) = rt_align sz"
  shows "mq_shape (mq_format oid sz msgs flag pool) [] (rev [0..<msgs]) [] \<and>
    msg_size (mq_format oid sz msgs flag pool) = rt_align sz \<and> max_msgs (mq_format oid sz msgs flag pool) = msgs"
proof -
  let ?mq = "\<lparr>mq_id = oid, mq_flag = flag, msg_size = rt_align sz, max_msgs = msgs, mq_entry = 0,
        mq_head = None, mq_tail = None, mq_free = None, mq_next = (\<lambda>_. None), mq_slot = pool\<rparr>"
  have "mq_shape ?mq [] [] ([0..<msgs] @ [])" using assms by (auto simp: mq_shape_def mq_links_def)
  from give_back_all [OF this] show ?thesis by (simp add: mq_format_def)
qed

text \<open>The drain returns and moves every queued node to the free list.\<close>

lemma mq_drain_ok:
  "mq_links mq xs ys rs \<Longrightarrow> \<exists>mq'. mq_drain mq = Some mq' \<and> mq_links mq' [] (rev xs @ ys) rs \<and>
    msg_size mq' = msg_size mq \<and> max_msgs mq' = max_msgs mq \<and> mq_id mq' = mq_id mq"
proof (induction xs arbitrary: mq ys)
  case Nil
  then show ?case by (subst mq_drain.simps) (simp add: mq_links_def)
next
  case (Cons x xs)
  define mq1 where "mq1 = (let mq1 = mq\<lparr>mq_head := mq_next mq x\<rparr>
    in (if mq_tail mq1 = Some x then mq1\<lparr>mq_tail := None\<rparr> else mq1))"
  have h: "mq_head mq = Some x" using Cons.prems by (simp add: mq_links_def)
  have "last (x # xs) = x \<longleftrightarrow> xs = []" using Cons.prems by (auto simp: mq_links_def)
  then have "mq_links (give_back x mq1) xs (x # ys) rs"
    using Cons.prems by (auto simp: mq_links_def mq1_def give_back_def set_next_def Let_def)
  from Cons.IH [OF this] obtain mq' where d: "mq_drain (give_back x mq1) = Some mq'"
    and r: "mq_links mq' [] (rev (x # xs) @ ys) rs" "msg_size mq' = msg_size mq" "max_msgs mq' = max_msgs mq" "mq_id mq' = mq_id mq"
    by (auto simp: give_back_def set_next_def Let_def mq1_def)
  have "mq_drain mq = mq_drain (give_back x mq1)"
    by (subst mq_drain.simps) (simp add: h mq1_def Let_def)
  then show ?case using d r by simp
qed

section \<open>The calls\<close>

definition padded :: "u8 list \<Rightarrow> u8 list \<Rightarrow> u8 list" where
  "padded buf old = buf @ drop (length buf) old"

lemma mq_send_ok:
  assumes s: "mq_shape mq xs (y # ys) rs" and k: "kernel_inv k" and b: "buf \<noteq> []" "length buf \<le> msg_size mq"
  shows "\<exists>mq' k'. rt_mq_send_wait mq buf timeout k = Some (Returned RT_EOK, mq', k') \<and> kernel_inv k' \<and>
    mq_shape mq' (xs @ [y]) ys rs \<and> mq_abs mq' = mq_abs mq @ [padded buf (mq_slot mq y)] \<and>
    msg_size mq' = msg_size mq \<and> max_msgs mq' = max_msgs mq \<and> wake_one (Suspend (mq_id mq)) k = Some k'"
proof -
  let ?m1 = "set_next y None (mq\<lparr>mq_free := mq_next mq y\<rparr>)"
  have t: "take_node mq = Some (y, mq\<lparr>mq_free := mq_next mq y\<rparr>)" and s1: "mq_shape ?m1 xs ys (y # rs)"
    using take_node_ok [OF s] set_next_reserved by auto
  obtain m2 where f: "fill_node y buf ?m1 = Some m2" and s2: "mq_shape m2 xs ys (y # rs)"
    and m2: "m2 = ?m1\<lparr>mq_slot := (mq_slot ?m1)(y := buf @ drop (length buf) (mq_slot ?m1 y))\<rparr>"
    using fill_node_ok [OF s1, of buf] b(2) by (auto simp: set_next_def)
  have s3: "mq_shape (link_tail y m2) (xs @ [y]) ys rs"
    by (rule link_tail_ok [OF s2]) (simp add: m2 set_next_def)
  have y: "y \<notin> set xs" using s by (auto simp: mq_shape_def mq_links_def)
  have sl: "mq_slot (link_tail y m2) = mq_slot m2" "msg_size (link_tail y m2) = msg_size m2" "max_msgs (link_tail y m2) = max_msgs m2"
    by (auto simp: link_tail_def set_next_def Let_def split: option.splits)
  obtain k' where w: "wake_one (Suspend (mq_id mq)) k = Some k'" "kernel_inv k'"
    using wake_one_ok [OF k, of "Suspend (mq_id mq)" "mq_id mq"] by auto
  have "mq_free mq = Some y" using s by (simp add: mq_shape_def mq_links_def)
  then have "rt_mq_send_wait mq buf timeout k = Some (Returned RT_EOK, link_tail y m2, k')"
    using b t f w(1) by (simp add: rt_mq_send_wait_def mq_send_pass_def)
  moreover have "mq_abs (link_tail y m2) = mq_abs mq @ [padded buf (mq_slot mq y)]"
    unfolding mq_shape_abs [OF s3] mq_shape_abs [OF s] sl using y by (auto simp: m2 padded_def set_next_def)
  ultimately show ?thesis using w s3 sl by (auto simp: m2 set_next_def)
qed

lemma mq_urgent_ok:
  assumes s: "mq_shape mq xs (y # ys) rs" and k: "kernel_inv k" and b: "buf \<noteq> []" "length buf \<le> msg_size mq"
  shows "\<exists>mq' k'. rt_mq_urgent mq buf k = Some (Returned RT_EOK, mq', k') \<and> kernel_inv k' \<and>
    mq_shape mq' (y # xs) ys rs \<and> mq_abs mq' = padded buf (mq_slot mq y) # mq_abs mq"
proof -
  let ?m1 = "mq\<lparr>mq_free := mq_next mq y\<rparr>"
  have t: "take_node mq = Some (y, ?m1)" and s1: "mq_shape ?m1 xs ys (y # rs)"
    using take_node_ok [OF s] by auto
  obtain m2 where f: "fill_node y buf ?m1 = Some m2" and s2: "mq_shape m2 xs ys (y # rs)"
    and m2: "m2 = ?m1\<lparr>mq_slot := (mq_slot ?m1)(y := buf @ drop (length buf) (mq_slot ?m1 y))\<rparr>"
    using fill_node_ok [OF s1, of buf] b(2) by auto
  have s3: "mq_shape (link_head y m2) (y # xs) ys rs" by (rule link_head_ok [OF s2])
  have y: "y \<notin> set xs" using s by (auto simp: mq_shape_def mq_links_def)
  have sl: "mq_slot (link_head y m2) = mq_slot m2"
    by (auto simp: link_head_def set_next_def Let_def)
  obtain k' where w: "wake_one (Suspend (mq_id mq)) k = Some k'" "kernel_inv k'"
    using wake_one_ok [OF k, of "Suspend (mq_id mq)" "mq_id mq"] by auto
  have "mq_free mq = Some y" using s by (simp add: mq_shape_def mq_links_def)
  then have "rt_mq_urgent mq buf k = Some (Returned RT_EOK, link_head y m2, k')"
    using b t f w(1) by (simp add: rt_mq_urgent_def)
  moreover have "mq_abs (link_head y m2) = padded buf (mq_slot mq y) # mq_abs mq"
    unfolding mq_shape_abs [OF s3] mq_shape_abs [OF s] sl using y by (auto simp: m2 padded_def)
  ultimately show ?thesis using w s3 by blast
qed

lemma mq_recv_ok:
  assumes s: "mq_shape mq (x # xs) ys rs" and k: "kernel_inv k" and sz: "sz \<noteq> 0"
  shows "\<exists>mq' k'. rt_mq_recv mq sz timeout k = Some (Returned RT_EOK, Some (take sz (mq_slot mq x)), mq', k') \<and>
    kernel_inv k' \<and> mq_shape mq' xs (x # ys) rs \<and> mq_abs mq = mq_slot mq x # mq_abs mq' \<and>
    msg_size mq' = msg_size mq \<and> max_msgs mq' = max_msgs mq \<and> wake_one (Sender (mq_id mq)) k = Some k'"
proof -
  obtain m1 where u: "unlink_head mq = Some (x, m1)" and s1: "mq_shape m1 xs ys (x # rs)"
    and f: "mq_slot m1 = mq_slot mq" "msg_size m1 = msg_size mq" "max_msgs m1 = max_msgs mq" "mq_id m1 = mq_id mq"
    using unlink_head_ok [OF s] by blast
  have s2: "mq_shape (give_back x m1) xs (x # ys) rs" by (rule give_back_ok [OF s1])
  have "x < max_msgs mq" using s by (auto simp: mq_shape_def mq_links_def)
  then have len: "length (mq_slot mq x) = msg_size mq" using s by (simp add: mq_shape_def mq_links_def)
  obtain k' where w: "wake_one (Sender (mq_id mq)) k = Some k'" "kernel_inv k'"
    using wake_one_ok [OF k, of "Sender (mq_id mq)" "mq_id mq"] by auto
  have "mq_entry mq \<noteq> 0" using s by (simp add: mq_shape_def)
  then have "rt_mq_recv mq sz timeout k = Some (Returned RT_EOK, Some (take sz (mq_slot mq x)), give_back x m1, k')"
    using sz u w(1) f len by (simp add: rt_mq_recv_def mq_recv_pass_def mem_load_def)
  moreover have "mq_slot (give_back x m1) = mq_slot mq" "msg_size (give_back x m1) = msg_size mq" "max_msgs (give_back x m1) = max_msgs mq"
    using f by (simp_all add: give_back_def set_next_def)
  ultimately show ?thesis
    using w s2 mq_shape_abs [OF s2] mq_shape_abs [OF s] by auto
qed

section \<open>The queue as a bounded queue\<close>

definition mq_put :: "u8 list \<Rightarrow> mqueue \<times> kernel \<Rightarrow> (bool \<times> mqueue \<times> kernel) option" where
  "mq_put buf s = do { (r, mq, k) \<leftarrow> rt_mq_send (fst s) buf (snd s); Some (r = Returned RT_EOK, mq, k) }"

definition mq_get :: "mqueue \<times> kernel \<Rightarrow> (u8 list option \<times> mqueue \<times> kernel) option" where
  "mq_get s = do { (r, v, mq, k) \<leftarrow> rt_mq_recv (fst s) (msg_size (fst s)) 0 (snd s); Some (v, mq, k) }"

definition mq_valid :: "mqueue \<times> kernel \<Rightarrow> bool" where
  "mq_valid s \<longleftrightarrow> (\<exists>xs ys. mq_shape (fst s) xs ys []) \<and> 0 < msg_size (fst s) \<and> kernel_inv (snd s)"

definition mq_fits :: "mqueue \<times> kernel \<Rightarrow> u8 list \<Rightarrow> bool" where
  "mq_fits s buf \<longleftrightarrow> length buf = msg_size (fst s)"

interpretation mq_fifo: bounded_fifo "\<lambda>s. mq_abs (fst s)" mq_valid "\<lambda>s. max_msgs (fst s)" mq_fits mq_put mq_get
proof unfold_locales
  fix s :: "mqueue \<times> kernel" and buf
  obtain mq k where e: "s = (mq, k)" by (cases s)
  assume valid: "mq_valid s"
  then obtain xs ys where sh: "mq_shape mq xs ys []" and pos: "0 < msg_size mq" and k: "kernel_inv k"
    by (auto simp: mq_valid_def e)
  have len: "length (mq_abs mq) = length xs" using mq_shape_abs [OF sh] by simp
  have cnt: "length xs + length ys = max_msgs mq" using mq_shape_count [OF sh] by simp
  show "length (mq_abs (fst s)) \<le> max_msgs (fst s)" using len cnt by (simp add: e)
  show "\<exists>s'. mq_put buf s = Some (length (mq_abs (fst s)) < max_msgs (fst s), s') \<and> mq_valid s' \<and>
      max_msgs (fst s') = max_msgs (fst s) \<and> mq_fits s' = mq_fits s \<and>
      mq_abs (fst s') = (if length (mq_abs (fst s)) < max_msgs (fst s) then mq_abs (fst s) @ [buf] else mq_abs (fst s))"
    if fits: "mq_fits s buf"
  proof (cases ys)
    case Nil
    have "mq_free mq = None" using sh Nil by (simp add: mq_shape_def mq_links_def)
    then have "rt_mq_send_wait mq buf 0 k = Some (Returned (- RT_EFULL), mq, k)"
      using fits pos by (auto simp: rt_mq_send_wait_def mq_fits_def e)
    then show ?thesis using Nil cnt len valid by (simp add: mq_put_def rt_mq_send_def e)
  next
    case (Cons y ys')
    have sh': "mq_shape mq xs (y # ys') []" using sh Cons by simp
    have b: "buf \<noteq> []" "length buf \<le> msg_size mq" using fits pos by (auto simp: mq_fits_def e)
    have "y < max_msgs mq" using sh' by (auto simp: mq_shape_def mq_links_def)
    then have "padded buf (mq_slot mq y) = buf"
      using fits sh by (simp add: padded_def mq_fits_def e mq_shape_def mq_links_def)
    then show ?thesis
      using mq_send_ok [OF sh' k b, of 0] Cons cnt len pos
      by (fastforce simp: mq_put_def rt_mq_send_def mq_valid_def mq_fits_def e fun_eq_iff)
  qed
  show "\<exists>s'. mq_get s = Some (case mq_abs (fst s) of [] \<Rightarrow> None | x # _ \<Rightarrow> Some x, s') \<and> mq_valid s' \<and>
      max_msgs (fst s') = max_msgs (fst s) \<and> mq_fits s' = mq_fits s \<and> mq_abs (fst s') = tl (mq_abs (fst s))"
  proof (cases xs)
    case Nil
    then have "mq_entry mq = 0" "mq_abs mq = []" using sh len by (auto simp: mq_shape_def)
    then show ?thesis using valid pos by (simp add: mq_get_def rt_mq_recv_def e)
  next
    case (Cons x xs')
    have sh': "mq_shape mq (x # xs') ys []" using sh Cons by simp
    have "x < max_msgs mq" using sh' by (auto simp: mq_shape_def mq_links_def)
    then have "take (msg_size mq) (mq_slot mq x) = mq_slot mq x" using sh by (simp add: mq_shape_def mq_links_def)
    then show ?thesis
      using mq_recv_ok [OF sh' k, of "msg_size mq" 0] pos
      by (fastforce simp: mq_get_def mq_valid_def mq_fits_def e fun_eq_iff)
  qed
qed

section \<open>Interleaved calls\<close>

text \<open>The steps of all calls in any order; a thread works only on nodes it holds (\<open>hands\<close>).\<close>

inductive mq_step :: "mqueue \<times> nat list \<Rightarrow> mqueue \<times> nat list \<Rightarrow> bool" where
  reserve: "take_node mq = Some (i, mq') \<Longrightarrow> mq_step (mq, hands) (mq', i # hands)"
| clear_next: "i \<in> set hands \<Longrightarrow> mq_step (mq, hands) (set_next i None mq, hands)"
| copy: "i \<in> set hands \<Longrightarrow> fill_node i buf mq = Some mq' \<Longrightarrow> mq_step (mq, hands) (mq', hands)"
| append: "i \<in> set hands \<Longrightarrow> mq_next mq i = None \<Longrightarrow> mq_step (mq, hands) (link_tail i mq, removeAll i hands)"
| prepend: "i \<in> set hands \<Longrightarrow> mq_step (mq, hands) (link_head i mq, removeAll i hands)"
| unlink: "mq_entry mq \<noteq> 0 \<Longrightarrow> unlink_head mq = Some (i, mq') \<Longrightarrow> mq_step (mq, hands) (mq', i # hands)"
| return: "i \<in> set hands \<Longrightarrow> mq_step (mq, hands) (give_back i mq, removeAll i hands)"

lemma hands_perm:
  "mq_shape mq xs ys rs \<Longrightarrow> mset rs = mset rs' \<Longrightarrow> mq_shape mq xs ys rs'"
  using mset_eq_setD [of rs rs'] mset_eq_imp_distinct_iff [of rs rs'] by (auto simp: mq_shape_def mq_links_def)

lemma hands_split:
  assumes "mq_shape mq xs ys hands" and "i \<in> set hands"
  shows "mq_shape mq xs ys (i # removeAll i hands)"
proof -
  have "distinct hands" using assms(1) by (simp add: mq_shape_def mq_links_def)
  then have "mset hands = mset (i # removeAll i hands)"
    using assms(2) by (simp add: distinct_remove1_removeAll [symmetric])
  then show ?thesis by (rule hands_perm [OF assms(1)])
qed

lemma mq_step_shape:
  assumes st: "mq_step (mq, hands) (mq', hands')" and s: "mq_shape mq xs ys hands"
  shows "\<exists>xs ys. mq_shape mq' xs ys hands'"
  using st
proof (cases rule: mq_step.cases)
  case (reserve i)
  obtain y ys' where ys: "ys = y # ys'"
    using reserve s by (cases ys) (auto simp: take_node_def mq_shape_def mq_links_def)
  then show ?thesis using reserve take_node_ok [of mq xs y ys' hands] s by auto
next
  case (clear_next i)
  have "mq_shape (set_next i None mq) xs ys (i # removeAll i hands)"
    by (rule set_next_reserved [OF hands_split [OF s clear_next(3)]])
  moreover have "mset hands = mset (i # removeAll i hands)"
    using clear_next s by (simp add: distinct_remove1_removeAll [symmetric] mq_shape_def mq_links_def)
  ultimately show ?thesis using clear_next hands_perm by (metis (no_types))
next
  case (copy i buf)
  have len: "length buf \<le> msg_size mq"
  proof -
    have "i < max_msgs mq" using s copy by (auto simp: mq_shape_def mq_links_def)
    then show ?thesis using s copy by (auto simp: fill_node_def mem_simps mq_shape_def mq_links_def bind_eq_Some_conv)
  qed
  have "mq_shape mq' xs ys (i # removeAll i hands)"
    using fill_node_ok [OF hands_split [OF s copy(2)] len] copy by auto
  moreover have "mset hands = mset (i # removeAll i hands)"
    using copy s by (simp add: distinct_remove1_removeAll [symmetric] mq_shape_def mq_links_def)
  ultimately show ?thesis using copy hands_perm by (metis (no_types))
next
  case (append i)
  then show ?thesis using link_tail_ok [OF hands_split [OF s append(3)]] by auto
next
  case (prepend i)
  then show ?thesis using link_head_ok [OF hands_split [OF s prepend(3)]] by auto
next
  case (unlink i)
  obtain x xs' where "xs = x # xs'" using unlink s by (cases xs) (auto simp: mq_shape_def)
  then show ?thesis using unlink unlink_head_ok [of mq x xs' ys hands] s by auto
next
  case (return i)
  then show ?thesis using give_back_ok [OF hands_split [OF s return(3)]] by auto
qed

section \<open>Properties\<close>

text \<open>Property C25. A message queue that threads use in any interleaving, with copies in progress on
  any number of nodes, never loses or duplicates a node: from its creation on, the queued nodes,
  the free ones and the ones in some thread's hands are distinct and together the whole pool,
  the lists end where they should, and \<open>entry\<close> is the length of the queue.\<close>

theorem mq_interleaving_safe:
  assumes "flag \<le> 1" and "\<forall>i < msgs. length (pool i) = rt_align sz"
    and "mq_step\<^sup>*\<^sup>* (mq_format oid sz msgs flag pool, []) (mq, hands)"
  shows "\<exists>queued free. chain (mq_next mq) (mq_head mq) queued \<and> chain (mq_next mq) (mq_free mq) free \<and>
    distinct (queued @ free @ hands) \<and> set (queued @ free @ hands) = {..<max_msgs mq} \<and>
    mq_tail mq = (if queued = [] then None else Some (last queued)) \<and> mq_entry mq = length queued"
proof -
  have "\<exists>xs ys. mq_shape (fst (mq, hands)) xs ys (snd (mq, hands))"
    using assms(3)
  proof (induction rule: rtranclp_induct)
    case base
    then show ?case using mq_format_ok [OF assms(1,2), of oid] by auto
  next
    case (step s s')
    then show ?case using mq_step_shape by (cases s; cases s') fastforce
  qed
  then show ?thesis unfolding fst_conv snd_conv mq_shape_def mq_links_def by blast
qed

lemma example_reserve:
  "mq_step\<^sup>*\<^sup>* (mq_format 6 4 2 0 (\<lambda>_. [0, 0, 0, 0]), []) (mq_format 6 4 2 0 (\<lambda>_. [0, 0, 0, 0])\<lparr>mq_free := Some 0\<rparr>, [1])"
  by (rule r_into_rtranclp, rule mq_step.reserve)
    (simp add: take_node_def mq_format_def give_back_def set_next_def upt_conv_Cons)

theorem mq_interleaving_safe_witness:
  "\<exists>queued free. distinct (queued @ free @ [1]) \<and>
    set (queued @ free @ [1]) = {..<max_msgs (mq_format 6 4 2 0 (\<lambda>_. [0, 0, 0, 0])\<lparr>mq_free := Some 0\<rparr>)}"
  using mq_interleaving_safe [OF _ _ example_reserve] by (auto simp: rt_align_def)



end
