(* ===== verification/Console.thy ===== *)
theory Console
  imports Semaphore RingBuffer
begin

text \<open>
  \<open>applications/device_config.c\<close>, the input side: the receive callback puts each character into a
  ring buffer of 256 bytes, dropping the oldest when it is full, and releases the semaphore
  \<open>rx_notice\<close> once per character; the configuration thread takes the semaphore and then reads the
  buffer.  Until the configuration has created them, and after it has destroyed them, buffer and
  semaphore are not there (\<open>None\<close>), and using them is a fault.
\<close>

section \<open>State and operations\<close>

record console =
  rx_fifo :: "char ringbuffer option"
  rx_notice :: "semaphore option"
  kern :: kernel

abbreviation (input) CONSOLE_FIFO_SIZE :: nat where "CONSOLE_FIFO_SIZE \<equiv> 256"

text \<open>\<open>console_rx_ind\<close> for the characters that \<open>rt_device_read\<close> delivers.\<close>

fun console_rx_ind :: "char list \<Rightarrow> console \<Rightarrow> console option" where
  "console_rx_ind [] con = Some con"
| "console_rx_ind (ch # cs) con =
     do { rb \<leftarrow> rx_fifo con;
          (rb', _) \<leftarrow> rb_put_force rb [ch];
          sem \<leftarrow> rx_notice con;
          (_, sem', k') \<leftarrow> rt_sem_release sem (kern con);
          console_rx_ind cs (con\<lparr>rx_fifo := Some rb', rx_notice := Some sem', kern := k'\<rparr>) }"

text \<open>The end of \<open>console_getchar\<close>: \<open>None\<close> as the character is the uninitialised local variable,
  left as it was because the buffer is empty.\<close>

definition read_fifo :: "console \<Rightarrow> (char option \<times> console) option" where
  "read_fifo con =
     do { rb \<leftarrow> rx_fifo con;
          (rb', c) \<leftarrow> rb_getchar rb;
          Some (c, con\<lparr>rx_fifo := Some rb'\<rparr>) }"

definition console_getchar :: "console \<Rightarrow> (outcome \<times> char option \<times> console) option" where
  "console_getchar con =
     do { sem \<leftarrow> rx_notice con;
          (out, sem', k') \<leftarrow> rt_sem_take sem (-1) (kern con);
          let con' = con\<lparr>rx_notice := Some sem', kern := k'\<rparr>;
          case out of
            Blocked \<Rightarrow> Some (Blocked, None, con')
          | Returned r \<Rightarrow> do { (c, con'') \<leftarrow> read_fifo con'; Some (Returned r, c, con'') } }"

text \<open>\<open>config_init\<close> up to its loop, and \<open>config_deinit\<close>.  The callback is installed first, with
  interrupts enabled again before the semaphore and the buffer exist; \<open>early\<close> and \<open>mid\<close> are the
  characters that arrive in the two gaps, \<open>pool\<close> the memory of the ring buffer.\<close>

definition console_open :: "char list \<Rightarrow> char list \<Rightarrow> nat \<Rightarrow> char list \<Rightarrow> console \<Rightarrow> console option" where
  "console_open early mid oid pool con =
     do { con1 \<leftarrow> console_rx_ind early con;
          sem \<leftarrow> rt_sem_init oid 0 0;
          con2 \<leftarrow> console_rx_ind mid (con1\<lparr>rx_notice := Some sem\<rparr>);
          rb \<leftarrow> rb_create CONSOLE_FIFO_SIZE True (Some pool);
          Some (con2\<lparr>rx_fifo := rb\<rparr>) }"

definition console_close :: "console \<Rightarrow> console option" where
  "console_close con =
     do { sem \<leftarrow> rx_notice con;
          (_, k') \<leftarrow> rt_sem_detach sem (kern con);
          Some (con\<lparr>rx_fifo := None, rx_notice := None, kern := k'\<rparr>) }"

section \<open>Invariant\<close>

text \<open>An open console nobody waits on: the buffer's text and the number of notices.\<close>

definition console_ok :: "console \<Rightarrow> char ringbuffer \<Rightarrow> semaphore \<Rightarrow> bool" where
  "console_ok con rb sem \<longleftrightarrow> rx_fifo con = Some rb \<and> rx_notice con = Some sem \<and> rb_inv rb \<and>
     buffer_size rb = CONSOLE_FIFO_SIZE \<and> sem_inv sem (kern con) \<and> linked (kern con) (Suspend (sem_id sem)) = []"

lemma rx_ind_ok:
  assumes "console_ok con rb sem" and "unat (sem_value sem) + length cs < 65536"
  shows "\<exists>rb' sem' con'. console_rx_ind cs con = Some con' \<and> console_ok con' rb' sem' \<and>
    rb_abs rb' = last_of CONSOLE_FIFO_SIZE (rb_abs rb @ cs) \<and>
    unat (sem_value sem') = unat (sem_value sem) + length cs \<and> kern con' = kern con"
  using assms
proof (induction cs arbitrary: con rb sem)
  case Nil
  then show ?case using rb_fifo.bounded [of rb] by (auto simp: console_ok_def last_of_def)
next
  case (Cons ch cs)
  have rb: "rb_inv rb" "buffer_size rb = CONSOLE_FIFO_SIZE" using Cons.prems(1) by (auto simp: console_ok_def)
  obtain rb1 where p: "fifo_push rb ch = Some rb1" and rb1: "rb_inv rb1" "buffer_size rb1 = CONSOLE_FIFO_SIZE"
    and a1: "rb_abs rb1 = last_of CONSOLE_FIFO_SIZE (rb_abs rb @ [ch])"
    using rb_fifo.push_ok [OF rb(1), of ch] rb(2) by auto
  then obtain n where f: "rb_put_force rb [ch] = Some (rb1, n)" by (auto simp: fifo_push_def)
  let ?sem = "sem\<lparr>sem_value := sem_value sem + 1\<rparr>"
  let ?con = "con\<lparr>rx_fifo := Some rb1, rx_notice := Some ?sem\<rparr>"
  have r: "rt_sem_release sem (kern con) = Some (RT_EOK, ?sem, kern con)"
    using Cons.prems(1) by (simp add: console_ok_def rt_sem_release_def)
  have v: "unat (sem_value ?sem) = unat (sem_value sem) + 1"
    using Cons.prems(2) by (simp, subst unat_add_lem [THEN iffD1]) simp_all
  have ok: "console_ok ?con rb1 ?sem"
    using Cons.prems(1) rb1 by (auto simp: console_ok_def sem_inv_def)
  have e: "console_rx_ind (ch # cs) con = console_rx_ind cs ?con"
    using Cons.prems(1) f r by (simp add: console_ok_def)
  obtain rb' sem' con' where i: "console_rx_ind cs ?con = Some con'" "console_ok con' rb' sem'"
    "rb_abs rb' = last_of CONSOLE_FIFO_SIZE (rb_abs rb1 @ cs)"
    "unat (sem_value sem') = unat (sem_value ?sem) + length cs" "kern con' = kern ?con"
    using Cons.IH [OF ok] Cons.prems(2) v by auto
  have "rb_abs rb' = last_of CONSOLE_FIFO_SIZE (rb_abs rb @ ch # cs)"
    using i(3) a1 rb_fifo.last_of_last_of [of CONSOLE_FIFO_SIZE "rb_abs rb @ [ch]" cs] by simp
  then show ?case using e i v by auto
qed

lemma getchar_ok:
  assumes "console_ok con rb sem" and "sem_value sem \<noteq> 0"
  shows "\<exists>rb' sem' con'. console_getchar con =
      Some (Returned RT_EOK, case rb_abs rb of [] \<Rightarrow> None | c # _ \<Rightarrow> Some c, con') \<and>
    console_ok con' rb' sem' \<and> rb_abs rb' = tl (rb_abs rb) \<and> unat (sem_value sem') = unat (sem_value sem) - 1 \<and>
    kern con' = kern con"
proof -
  have rb: "rb_inv rb" using assms(1) by (simp add: console_ok_def)
  obtain rb' where g: "rb_getchar rb = Some (rb', case rb_abs rb of [] \<Rightarrow> None | c # _ \<Rightarrow> Some c)"
    and rb': "rb_inv rb'" "buffer_size rb' = buffer_size rb" "rb_abs rb' = tl (rb_abs rb)"
    using rb_fifo.pop_ok [OF rb] by auto
  let ?sem = "sem\<lparr>sem_value := sem_value sem - 1\<rparr>"
  have t: "rt_sem_take sem (-1) (kern con) = Some (Returned RT_EOK, ?sem, kern con)"
    using assms(2) by (simp add: rt_sem_take_def word_gt_0)
  have "console_ok (con\<lparr>rx_notice := Some ?sem, kern := kern con, rx_fifo := Some rb'\<rparr>) rb' ?sem"
    using assms rb' by (auto simp: console_ok_def sem_inv_def)
  moreover have "unat (sem_value sem - 1) = unat (sem_value sem) - 1"
    using assms(2) by (rule unat_minus_one)
  ultimately show ?thesis
    using assms(1) g t rb'(3) by (auto simp: console_getchar_def console_ok_def read_fifo_def Let_def)
qed

text \<open>Reading \<open>n\<close> characters, one after the other, while there are notices.\<close>

fun console_read :: "nat \<Rightarrow> console \<Rightarrow> (char option list \<times> console) option" where
  "console_read 0 con = Some ([], con)"
| "console_read (Suc n) con =
     do { (out, c, con1) \<leftarrow> console_getchar con;
          if out = Blocked then Some ([], con1)
          else do { (cs, con2) \<leftarrow> console_read n con1; Some (c # cs, con2) } }"

lemma console_read_ok:
  assumes "console_ok con rb sem" and "n \<le> unat (sem_value sem)"
  shows "\<exists>con'. console_read n con =
    Some (map Some (take n (rb_abs rb)) @ replicate (n - length (rb_abs rb)) None, con')"
  using assms
proof (induction n arbitrary: con rb sem)
  case (Suc n)
  have ne: "sem_value sem \<noteq> 0" using Suc.prems(2) by auto
  obtain rb1 sem1 con1 where g: "console_getchar con =
      Some (Returned RT_EOK, case rb_abs rb of [] \<Rightarrow> None | c # _ \<Rightarrow> Some c, con1)" "console_ok con1 rb1 sem1"
    "rb_abs rb1 = tl (rb_abs rb)" "unat (sem_value sem1) = unat (sem_value sem) - 1"
    using getchar_ok [OF Suc.prems(1) ne] by blast
  have "n \<le> unat (sem_value sem1)" using Suc.prems(2) g(4) by simp
  from Suc.IH [OF g(2) this] show ?case using g by (cases "rb_abs rb") auto
qed simp

section \<open>Properties\<close>

text \<open>The configuration thread reads what arrives: after a burst of characters on an idle
  console, as many reads as there were characters return them in order, as long as they fit the
  256 bytes. A longer burst keeps its last 256 characters, but the notices of the dropped ones
  stay: the reads after those 256 return an uninitialised character each.\<close>

theorem console_burst:
  assumes "console_ok con rb sem" and "rb_abs rb = []" and "sem_value sem = 0" and "length cs < 65536"
  shows "\<exists>con1 con2. console_rx_ind cs con = Some con1 \<and>
    console_read (length cs) con1 =
      Some (map Some (last_of CONSOLE_FIFO_SIZE cs) @ replicate (length cs - CONSOLE_FIFO_SIZE) None, con2)"
proof -
  obtain rb' sem' con1 where r: "console_rx_ind cs con = Some con1" "console_ok con1 rb' sem'"
    "rb_abs rb' = last_of CONSOLE_FIFO_SIZE cs" "unat (sem_value sem') = length cs"
    using rx_ind_ok [OF assms(1), of cs] assms(2-4) by auto
  have l: "length (last_of CONSOLE_FIFO_SIZE cs) = min (length cs) CONSOLE_FIFO_SIZE" by (simp add: last_of_def)
  have "length cs - length (last_of CONSOLE_FIFO_SIZE cs) = length cs - CONSOLE_FIFO_SIZE" by (simp add: l)
  then show ?thesis using console_read_ok [OF r(2), of "length cs"] r l by (auto simp: min_def split: if_splits)
qed

definition idle_console :: console where
  "idle_console = \<lparr>rx_fifo = Some \<lparr>buffer_ptr = replicate 256 NUL, read_mirror = False, read_index = 0,
       write_mirror = False, write_index = 0, buffer_size = 256\<rparr>,
     rx_notice = Some \<lparr>sem_id = 4, sem_value = 0, sem_flag = 0\<rparr>, kern = boot_kernel (\<lambda>_. 25)\<rparr>"

lemma idle_console_ok: "console_ok idle_console (the (rx_fifo idle_console)) (the (rx_notice idle_console))"
  using boot_kernel_inv [of "\<lambda>_. 25"]
  by (simp add: console_ok_def idle_console_def sem_inv_def rb_inv_def) (simp add: boot_kernel_def)

lemma idle_console_empty:
  "rb_abs (the (rx_fifo idle_console)) = []" "sem_value (the (rx_notice idle_console)) = 0"
  by (simp_all add: idle_console_def rb_abs_def rb_data_len_def rb_status_def ring_slice_def)

theorem console_burst_witness:
  "\<exists>con1 con2. console_rx_ind ''MAC'' idle_console = Some con1 \<and>
    console_read 3 con1 = Some ([Some CHR ''M'', Some CHR ''A'', Some CHR ''C''], con2)"
  using console_burst [OF idle_console_ok idle_console_empty, of "''MAC''"]
  by (auto simp: last_of_def numeral_3_eq_3 simp del: console_rx_ind.simps console_read.simps)

text \<open>Opening the console is safe only in silence: a character that arrives after the
  callback is installed and before the buffer is created makes the callback use an object that
  is not there. With no such character the console opens empty and in order.\<close>

theorem console_open_race:
  assumes "rx_fifo con = None" and "kernel_inv (kern con)" and "length pool = CONSOLE_FIFO_SIZE"
    and "linked (kern con) (Suspend oid) = []"
  shows "if early = [] \<and> mid = []
    then \<exists>con' rb sem. console_open early mid oid pool con = Some con' \<and> console_ok con' rb sem \<and>
      rb_abs rb = [] \<and> sem_value sem = 0
    else console_open early mid oid pool con = None"
proof (cases "early = [] \<and> mid = []")
  case True
  have c: "rb_create CONSOLE_FIFO_SIZE True (Some pool) = Some (Some \<lparr>buffer_ptr = pool, read_mirror = False,
      read_index = 0, write_mirror = False, write_index = 0, buffer_size = 256\<rparr>)"
    by (simp add: rb_create_def rb_init_def)
  then show ?thesis
    using True assms
    by (auto simp: console_open_def rt_sem_init_def console_ok_def rb_inv_def sem_inv_def rb_abs_def rb_data_len_def
        rb_status_def ring_slice_def)
next
  case False
  then have "console_open early mid oid pool con = None"
    using assms(1) by (cases early; cases mid) (auto simp: console_open_def rt_sem_init_def)
  then show ?thesis using False by auto
qed

theorem console_open_race_witness:
  "console_open ''x'' [] 4 (replicate 256 NUL) (idle_console\<lparr>rx_fifo := None, rx_notice := None\<rparr>) = None"
proof -
  have "kernel_inv (kern (idle_console\<lparr>rx_fifo := None, rx_notice := None\<rparr>))"
    using boot_kernel_inv [of "\<lambda>_. 25"] by (simp add: idle_console_def)
  moreover have "linked (kern (idle_console\<lparr>rx_fifo := None, rx_notice := None\<rparr>)) (Suspend 4) = []"
    by (simp add: idle_console_def boot_kernel_def)
  ultimately show ?thesis
    using console_open_race [of "idle_console\<lparr>rx_fifo := None, rx_notice := None\<rparr>" "replicate 256 NUL" 4 "''x''" "[]"]
    by simp
qed

end
