(* ===== verification/DeviceConfig.thy ===== *)
theory DeviceConfig
  imports FileConfig CLib
begin

text \<open>
  \<open>applications/device_config.c\<close>, the dialogue: the line editor of \<open>config_init\<close> and the command
  handler \<open>cmd_handle\<close> behind it.  The static \<open>config\<close> and \<open>config_temp\<close> are flat structures of
  500 bytes, as in the configuration file's model; a copy that runs over the end of a field
  continues in the next one and is a fault only at the end of the structure.  \<open>tty\<close> is what the
  thread has printed.
\<close>

section \<open>State\<close>

datatype cmd = CMD_NULL | WIFI_CMD | MQTT_CMD | MAC_CMD

record dialogue =
  cur_cmd :: cmd
  cur_lvl :: nat
  dconfig :: config_info
  config_temp :: config_info
  card :: sdcard
  cur_line :: "char list"
  cur_line_len :: nat
  tty :: string

abbreviation (input) ESC_KEY :: char where "ESC_KEY \<equiv> CHR 0x1B"
abbreviation (input) BACKSPACE_KEY :: char where "BACKSPACE_KEY \<equiv> CHR 0x08"
abbreviation (input) DELECT_KEY :: char where "DELECT_KEY \<equiv> CHR 0x7F"
abbreviation (input) LINE_SIZE :: nat where "LINE_SIZE \<equiv> 128"

definition rt_kprintf :: "string \<Rightarrow> dialogue \<Rightarrow> dialogue" where
  "rt_kprintf s d = d\<lparr>tty := tty d @ s\<rparr>"

definition crlf :: string where
  "crlf = [CR, LF]"

definition guide_text :: string where
  "guide_text = crlf @ ''********************'' @ crlf @ ''*1.Wifi     change *'' @ crlf @
     ''*2.MQTT     change *'' @ crlf @ ''*3.MAC      change *'' @ crlf @ ''******ESC exit******'' @ crlf"

definition guide_info_print :: "dialogue \<Rightarrow> dialogue" where
  "guide_info_print d = rt_kprintf guide_text d"

section \<open>The command handler\<close>

text \<open>\<open>rt_memcpy(field, data, data_len); field[data_len] = '\0'\<close>\<close>

definition store_field :: "nat \<Rightarrow> char list \<Rightarrow> nat \<Rightarrow> config_info \<Rightarrow> config_info option" where
  "store_field k data data_len c =
     do { bs \<leftarrow> mem_load 0 data_len data;
          c1 \<leftarrow> mem_store (k * STR_SIZE) bs c;
          mem_store (k * STR_SIZE + data_len) [NUL] c1 }"

text \<open>\<open>rt_memcpy(config.field, config_temp.field, sizeof(config.field))\<close>\<close>

definition copy_field :: "nat \<Rightarrow> config_info \<Rightarrow> config_info \<Rightarrow> config_info option" where
  "copy_field k temp c = do { bs \<leftarrow> mem_load (k * STR_SIZE) STR_SIZE temp; mem_store (k * STR_SIZE) bs c }"

text \<open>\<open>write_to_file("config.txt", &config)\<close>, its result ignored.\<close>

definition save_config :: "dialogue \<Rightarrow> dialogue option" where
  "save_config d = do { (_, fs) \<leftarrow> write_to_file ''config.txt'' (dconfig d) (card d); Some (d\<lparr>card := fs\<rparr>) }"

text \<open>The twelve comparisons with the bounds '0' and 'f'.\<close>

definition hex_range :: "char \<Rightarrow> bool" where
  "hex_range c \<longleftrightarrow> char_code c \<le> 102 \<and> 48 \<le> char_code c"

definition mac_accepted :: "char list \<Rightarrow> nat \<Rightarrow> bool" where
  "mac_accepted data data_len \<longleftrightarrow> data_len = 17 \<and>
     list_all (\<lambda>i. hex_range (data ! i)) [0, 1, 3, 4, 6, 7, 9, 10, 12, 13, 15, 16]"

definition cmd_handle :: "char list \<Rightarrow> nat \<Rightarrow> dialogue \<Rightarrow> dialogue option" where
  "cmd_handle data data_len d =
     (case cur_cmd d of
        CMD_NULL \<Rightarrow>
          if data_len > 1 \<or> char_code (data ! 0) > 51 \<or> char_code (data ! 0) < 49
          then Some (guide_info_print (rt_kprintf (''Error, please input Number 1-3'' @ crlf) d))
          else let c = (if data ! 0 = CHR ''1'' then WIFI_CMD else if data ! 0 = CHR ''2'' then MQTT_CMD else MAC_CMD);
                   d1 = d\<lparr>cur_cmd := c, cur_lvl := 1\<rparr>
               in Some (rt_kprintf (case c of WIFI_CMD \<Rightarrow> ''please input wifi name: ''
                                    | MQTT_CMD \<Rightarrow> ''please input mqtt user name: ''
                                    | _ \<Rightarrow> ''please input MAC address: '') d1)
      | WIFI_CMD \<Rightarrow>
          if cur_lvl d = 1
          then do { t \<leftarrow> store_field wifi_name_ix data data_len (config_temp d);
                    Some ((rt_kprintf ''please input wifi password: '' (d\<lparr>config_temp := t\<rparr>))\<lparr>cur_lvl := cur_lvl d + 1\<rparr>) }
          else if cur_lvl d = 2
          then do { t \<leftarrow> store_field wifi_password_ix data data_len (config_temp d);
                    c1 \<leftarrow> copy_field wifi_name_ix t (dconfig d);
                    c2 \<leftarrow> copy_field wifi_password_ix t c1;
                    d1 \<leftarrow> save_config (d\<lparr>config_temp := t, dconfig := c2\<rparr>);
                    Some (guide_info_print (rt_kprintf (''wifi info saved!'' @ crlf) (d1\<lparr>cur_lvl := 0, cur_cmd := CMD_NULL\<rparr>))) }
          else Some d
      | MQTT_CMD \<Rightarrow>
          if cur_lvl d = 1
          then do { t \<leftarrow> store_field mqtt_username_ix data data_len (config_temp d);
                    Some ((rt_kprintf ''please input mqtt password: '' (d\<lparr>config_temp := t\<rparr>))\<lparr>cur_lvl := cur_lvl d + 1\<rparr>) }
          else if cur_lvl d = 2
          then do { t \<leftarrow> store_field mqtt_passwd_ix data data_len (config_temp d);
                    c1 \<leftarrow> copy_field mqtt_username_ix t (dconfig d);
                    c2 \<leftarrow> copy_field mqtt_passwd_ix t c1;
                    d1 \<leftarrow> save_config (d\<lparr>config_temp := t, dconfig := c2\<rparr>);
                    Some (guide_info_print (rt_kprintf (''mqtt info saved!'' @ crlf) (d1\<lparr>cur_lvl := 0, cur_cmd := CMD_NULL\<rparr>))) }
          else Some d
      | MAC_CMD \<Rightarrow>
          if mac_accepted data data_len
          then do { c \<leftarrow> store_field mac_address_ix data data_len (dconfig d);
                    d1 \<leftarrow> save_config (d\<lparr>dconfig := c\<rparr>);
                    Some (guide_info_print (rt_kprintf (''MAC address saved!'' @ crlf) (d1\<lparr>cur_cmd := CMD_NULL\<rparr>))) }
          else Some (rt_kprintf ''Error, please re-input: '' d))"

section \<open>The line editor\<close>

text \<open>One pass of the loop of \<open>config_init\<close>: \<open>True\<close> leaves it.\<close>

definition edit_char :: "char \<Rightarrow> dialogue \<Rightarrow> (bool \<times> dialogue) option" where
  "edit_char ch d =
     (if ch = ESC_KEY \<and> cur_cmd d \<noteq> CMD_NULL then Some (False, guide_info_print (d\<lparr>cur_cmd := CMD_NULL\<rparr>))
      else if ch = ESC_KEY then Some (True, d)
      else if ch = BACKSPACE_KEY \<or> ch = DELECT_KEY
      then if cur_line_len d \<noteq> 0
           then do { l \<leftarrow> array_set (cur_line_len d - 1) NUL (cur_line d);
                     Some (False, rt_kprintf [CHR 0x08, CHR '' '', CHR 0x08]
                                    (d\<lparr>cur_line := l, cur_line_len := cur_line_len d - 1\<rparr>)) }
           else Some (False, d)
      else if ch = CR \<or> ch = LF
      then do { d1 \<leftarrow> (if cur_line_len d \<noteq> 0 then cmd_handle (cur_line d) (cur_line_len d) (rt_kprintf [LF] d) else Some d);
                Some (False, d1\<lparr>cur_line_len := 0\<rparr>) }
      else do { l \<leftarrow> array_set (cur_line_len d) ch (cur_line d);
                Some (False, (rt_kprintf [ch] d)\<lparr>cur_line := l, cur_line_len := cur_line_len d + 1\<rparr>) })"

text \<open>The loop over the characters that are typed: whether it was left, and the rest of them.\<close>

fun edit :: "char list \<Rightarrow> dialogue \<Rightarrow> (bool \<times> char list \<times> dialogue) option" where
  "edit [] d = Some (False, [], d)"
| "edit (ch # cs) d = do { (left, d') \<leftarrow> edit_char ch d; if left then Some (True, cs, d') else edit cs d' }"

text \<open>\<open>config_init\<close>: the statics (all but \<open>cur_cmd\<close>) survive from call to call, the line is local.\<close>

definition config_init :: "char list \<Rightarrow> char list \<Rightarrow> dialogue \<Rightarrow> (bool \<times> char list \<times> dialogue) option" where
  "config_init junk input d =
     do { (_, c) \<leftarrow> init_from_file junk ''config.txt'' (dconfig d) (card d);
          edit input (guide_info_print (d\<lparr>cur_cmd := CMD_NULL, dconfig := c, cur_line := replicate LINE_SIZE NUL,
                                          cur_line_len := 0\<rparr>)) }"

section \<open>Fields as blocks\<close>

text \<open>The array of a field, and how stores inside one array change all of them.\<close>

definition block :: "nat \<Rightarrow> config_info \<Rightarrow> char list" where
  "block k c = take STR_SIZE (drop (k * STR_SIZE) c)"

lemma block_store:
  assumes "mem_store (k * STR_SIZE + i) xs c = Some c'" and "i + length xs \<le> STR_SIZE"
    and "length c = CONFIG_SIZE" and "j < 5" and "k < 5"
  shows "block j c' = (if j = k then take i (block k c) @ xs @ drop (i + length xs) (block k c) else block j c)"
proof (rule nth_equalityI)
  have len: "length c' = CONFIG_SIZE" using mem_store_length [OF assms(1)] assms(3) by simp
  have bl: "length (block m d) = STR_SIZE" if "length d = CONFIG_SIZE" "m < 5" for m d
    using that by (simp add: block_def)
  show "length (block j c') = length (if j = k then take i (block k c) @ xs @ drop (i + length xs) (block k c) else block j c)"
    using assms(2-5) bl [OF len assms(4)] bl [OF assms(3)] by simp
  fix n assume "n < length (block j c')"
  then have n: "n < STR_SIZE" using bl [OF len assms(4)] by simp
  have nth: "block j d ! n = d ! (j * STR_SIZE + n)" if "length d = CONFIG_SIZE" for d
    using n that assms(4) by (simp add: block_def)
  have jn: "j * STR_SIZE + n < length c" using n assms(3,4) by simp
  show "block j c' ! n = (if j = k then take i (block k c) @ xs @ drop (i + length xs) (block k c) else block j c) ! n"
  proof (cases "j = k")
    case False
    then have "\<not> (k * STR_SIZE + i \<le> j * STR_SIZE + n \<and> j * STR_SIZE + n < k * STR_SIZE + i + length xs)"
      using n assms(2) by (cases "j < k") auto
    then show ?thesis
      using False nth [OF len] nth [OF assms(3)] nth_mem_store [OF assms(1) jn] by auto
  next
    case True
    have b: "length (block k c) = STR_SIZE" using bl [OF assms(3,5)] .
    show ?thesis
      using True nth [OF len] nth [OF assms(3)] nth_mem_store [OF assms(1) jn] n assms(2) b
      by (auto simp: nth_append min_def not_less add.commute)
  qed
qed

lemma field_block:
  assumes "length c = CONFIG_SIZE" and "k < 5"
  shows "c_string 0 (block k c) = Some s \<longleftrightarrow> config_field k c = Some s \<and> length s < STR_SIZE"
proof
  assume "c_string 0 (block k c) = Some s"
  then obtain r where r: "block k c = s @ NUL # r" and n: "NUL \<notin> set s" by (auto simp: cstr_simps)
  have d: "drop (k * STR_SIZE) c = block k c @ drop STR_SIZE (drop (k * STR_SIZE) c)"
    by (simp only: block_def append_take_drop_id)
  have "length (block k c) = STR_SIZE" using assms by (simp add: block_def)
  then have "length s < STR_SIZE" using r by simp
  then show "config_field k c = Some s \<and> length s < STR_SIZE"
    unfolding config_field_def using d r n by (auto intro: c_stringI)
next
  assume "config_field k c = Some s \<and> length s < STR_SIZE"
  then obtain r where r: "drop (k * STR_SIZE) c = s @ NUL # r" and n: "NUL \<notin> set s" and l: "length s < STR_SIZE"
    by (auto simp: config_field_def cstr_simps)
  have "block k c = s @ NUL # take (STR_SIZE - length s - 1) r"
    unfolding block_def r using l by (simp add: take_Cons')
  then show "c_string 0 (block k c) = Some s" using n by (intro c_stringI) auto
qed

lemma copy_field_ok:
  assumes "length t = CONFIG_SIZE" and "length c = CONFIG_SIZE" and "k < 5"
  shows "\<exists>c'. copy_field k t c = Some c' \<and> length c' = CONFIG_SIZE \<and>
    (\<forall>j < 5. block j c' = (if j = k then block k t else block j c))"
proof -
  have l: "mem_load (k * STR_SIZE) STR_SIZE t = Some (block k t)" and bl: "length (block k t) = STR_SIZE"
    using assms by (auto simp: mem_load_def block_def)
  obtain c' where c': "mem_store (k * STR_SIZE) (block k t) c = Some c'"
    using assms bl by (cases "mem_store (k * STR_SIZE) (block k t) c") (auto simp: mem_simps)
  have "\<forall>j < 5. block j c' = (if j = k then block k t else block j c)"
    using block_store [of k 0 "block k t" c c'] c' assms bl by (auto simp: block_def)
  then show ?thesis using l c' mem_store_length [OF c'] assms by (auto simp: copy_field_def)
qed

lemma store_field_ok:
  assumes "length c = CONFIG_SIZE" and "k < 5" and "length s < STR_SIZE" and "take (length s) data = s"
  shows "\<exists>c'. store_field k data (length s) c = Some c' \<and> length c' = CONFIG_SIZE \<and>
    (\<forall>j < 5. block j c' = (if j = k then s @ NUL # drop (length s + 1) (block k c) else block j c))"
proof -
  have "length s \<le> length data" using assms(4) by (metis length_take min.cobounded1)
  then have l: "mem_load 0 (length s) data = Some s" using assms(4) by (simp add: mem_load_def)
  have lb: "length (block k c) = STR_SIZE" using assms by (simp add: block_def)
  obtain c1 where c1: "mem_store (k * STR_SIZE) s c = Some c1"
    using assms by (cases "mem_store (k * STR_SIZE) s c") (auto simp: mem_simps)
  have l1: "length c1 = CONFIG_SIZE" using mem_store_length [OF c1] assms by simp
  have b1: "\<forall>j < 5. block j c1 = (if j = k then s @ drop (length s) (block k c) else block j c)"
    using block_store [of k 0 s c c1] c1 assms by auto
  obtain c' where c': "mem_store (k * STR_SIZE + length s) [NUL] c1 = Some c'"
    using assms l1 by (cases "mem_store (k * STR_SIZE + length s) [NUL] c1") (auto simp: mem_simps)
  have "\<forall>j < 5. block j c' = (if j = k then s @ NUL # drop (length s + 1) (block k c) else block j c)"
    using block_store [OF c' _ l1] assms b1 lb by (auto simp: Suc_le_eq)
  then show ?thesis using l c1 c' mem_store_length [OF c'] l1 by (auto simp: store_field_def)
qed

lemma store_field_data:
  "take (length s) data = s \<Longrightarrow> store_field k data (length s) c = store_field k s (length s) c"
proof -
  assume t: "take (length s) data = s"
  then have "length s \<le> length data" by (metis length_take min.cobounded1)
  then have "mem_load 0 (length s) data = mem_load 0 (length s) s" using t by (simp add: mem_load_def)
  then show ?thesis by (simp add: store_field_def)
qed

text \<open>A string at the start of a field's array is its value.\<close>

lemma field_of_block:
  assumes "length c = CONFIG_SIZE" and "k < 5" and "block k c = s @ NUL # r" and "NUL \<notin> set s"
  shows "config_field k c = Some s" and "length s < STR_SIZE"
  using field_block [OF assms(1,2), of s] assms(3,4) by (auto intro: c_stringI)

lemma field_same_block:
  assumes "length c = CONFIG_SIZE" and "length c' = CONFIG_SIZE" and "k < 5" and "block k c' = block k c"
    and "config_field k c = Some s" and "length s < STR_SIZE"
  shows "config_field k c' = Some s"
  using field_block [OF assms(1,3), of s] field_block [OF assms(2,3), of s] assms(4-6) by simp

section \<open>Typing a line\<close>

definition plain :: "char \<Rightarrow> bool" where
  "plain c \<longleftrightarrow> c \<notin> {ESC_KEY, BACKSPACE_KEY, DELECT_KEY, CR, LF}"

lemma edit_plain:
  assumes "list_all plain s" and "length (cur_line d) = LINE_SIZE" and "cur_line_len d + length s \<le> LINE_SIZE"
  shows "edit (s @ rest) d = edit rest (d\<lparr>cur_line := take (cur_line_len d) (cur_line d) @ s @
      drop (cur_line_len d + length s) (cur_line d), cur_line_len := cur_line_len d + length s, tty := tty d @ s\<rparr>)"
  using assms
proof (induction s arbitrary: d)
  case (Cons c s)
  let ?n = "cur_line_len d" and ?l = "cur_line d"
  let ?d = "d\<lparr>cur_line := ?l[?n := c], cur_line_len := ?n + 1, tty := tty d @ [c]\<rparr>"
  have "edit_char c d = Some (False, ?d)"
    using Cons.prems by (auto simp: edit_char_def array_set_def plain_def rt_kprintf_def)
  then have "edit ((c # s) @ rest) d = edit (s @ rest) ?d" by simp
  also have "\<dots> = edit rest (?d\<lparr>cur_line := take (?n + 1) (?l[?n := c]) @ s @ drop (?n + 1 + length s) (?l[?n := c]),
      cur_line_len := ?n + 1 + length s, tty := (tty d @ [c]) @ s\<rparr>)"
    using Cons.IH [of ?d] Cons.prems by simp
  also have "take (?n + 1) (?l[?n := c]) = take ?n ?l @ [c]"
    using Cons.prems by (simp add: take_Suc_conv_app_nth)
  finally show ?case by simp
qed simp

lemma edit_too_long:
  assumes "list_all plain s" and "length (cur_line d) = LINE_SIZE" and "cur_line_len d \<le> LINE_SIZE"
    and "LINE_SIZE < cur_line_len d + length s"
  shows "edit (s @ rest) d = None"
proof -
  let ?a = "take (LINE_SIZE - cur_line_len d) s"
  obtain c b where d: "drop (LINE_SIZE - cur_line_len d) s = c # b"
    using assms(3,4) by (cases "drop (LINE_SIZE - cur_line_len d) s") auto
  have e: "s @ rest = ?a @ (c # b @ rest)" using d by (metis append_Cons append_assoc append_take_drop_id)
  have "plain c" using assms(1) d by (metis in_set_dropD list.set_intros(1) list_all_iff)
  moreover have "list_all plain ?a" using assms(1) by (auto simp: list_all_iff dest: in_set_takeD)
  ultimately show ?thesis
    unfolding e using assms by (subst edit_plain) (auto simp: edit_char_def array_set_def plain_def)
qed

text \<open>A fresh line ended by return is handed to the command handler.\<close>

definition with_line :: "string \<Rightarrow> dialogue \<Rightarrow> dialogue" where
  "with_line s d = d\<lparr>cur_line := s @ drop (length s) (cur_line d), cur_line_len := length s, tty := tty d @ s @ [LF]\<rparr>"

lemma edit_line:
  assumes "list_all plain s" and "s \<noteq> []" and "length s \<le> LINE_SIZE" and "length (cur_line d) = LINE_SIZE"
    and "cur_line_len d = 0"
  shows "edit (s @ CR # rest) d =
    do { d1 \<leftarrow> cmd_handle (s @ drop (length s) (cur_line d)) (length s) (with_line s d);
         edit rest (d1\<lparr>cur_line_len := 0\<rparr>) }"
proof -
  have "edit (s @ CR # rest) d = edit (CR # rest) (d\<lparr>cur_line := s @ drop (length s) (cur_line d),
      cur_line_len := length s, tty := tty d @ s\<rparr>)"
    using assms by (subst edit_plain) simp_all
  moreover have "rt_kprintf [LF] (d\<lparr>cur_line := s @ drop (length s) (cur_line d), cur_line_len := length s,
      tty := tty d @ s\<rparr>) = with_line s d"
    by (simp add: rt_kprintf_def with_line_def)
  ultimately show ?thesis using assms(2) by (simp add: edit_char_def)
qed

section \<open>The dialogues\<close>

text \<open>Waiting for a command with an empty line.\<close>

definition at_menu :: "dialogue \<Rightarrow> bool" where
  "at_menu d \<longleftrightarrow> cur_cmd d = CMD_NULL \<and> cur_line_len d = 0 \<and> length (cur_line d) = LINE_SIZE \<and>
     length (dconfig d) = CONFIG_SIZE \<and> length (config_temp d) = CONFIG_SIZE"

definition menu_choice :: "char \<Rightarrow> cmd" where
  "menu_choice c = (if c = CHR ''1'' then WIFI_CMD else if c = CHR ''2'' then MQTT_CMD else MAC_CMD)"

lemma choose:
  assumes "at_menu d" and "c \<in> {CHR ''1'', CHR ''2'', CHR ''3''}"
  shows "\<exists>d'. edit (c # CR # rest) d = edit rest d' \<and> cur_cmd d' = menu_choice c \<and> cur_lvl d' = 1 \<and>
    cur_line_len d' = 0 \<and> length (cur_line d') = LINE_SIZE \<and> dconfig d' = dconfig d \<and>
    config_temp d' = config_temp d \<and> card d' = card d"
proof -
  have "edit ([c] @ CR # rest) d =
    do { d1 \<leftarrow> cmd_handle ([c] @ drop (length [c]) (cur_line d)) (length [c]) (with_line [c] d);
         edit rest (d1\<lparr>cur_line_len := 0\<rparr>) }"
    using assms by (intro edit_line) (auto simp: at_menu_def plain_def)
  then show ?thesis
    using assms
    by (auto simp: at_menu_def with_line_def cmd_handle_def rt_kprintf_def guide_info_print_def menu_choice_def
        char_code_def Let_def split: option.splits)
qed

text \<open>The fields of a structure after one of them has been given a new value.\<close>

lemma config_fields_upd:
  assumes "config_ok c" and "config_fields c = Some ss" and "length c' = CONFIG_SIZE"
    and "\<forall>j < 5. j \<noteq> k \<longrightarrow> block j c' = block j c" and "k < 5"
    and "block k c' = s @ NUL # r" and "NUL \<notin> set s" and "LF \<notin> set s"
  shows "config_ok c' \<and> config_fields c' = Some (ss[k := s])"
proof -
  have c: "length c = CONFIG_SIZE" "length ss = 5" "\<forall>k < 5. config_field k c = Some (ss ! k)"
    using assms(1,2) by (auto simp: config_ok_def config_fields_Some)
  have ssl: "length (ss ! j) < STR_SIZE \<and> LF \<notin> set (ss ! j)" if "j < 5" for j
    using config_ok_fields [OF assms(1)] assms(2) c(2) that by (metis nth_mem option.inject)
  have sl: "length s < STR_SIZE" by (rule field_of_block(2) [OF assms(3,5,6,7)])
  have f: "config_field j c' = Some (ss[k := s] ! j)" if j: "j < 5" for j
  proof (cases "j = k")
    case True
    then show ?thesis using field_of_block(1) [OF assms(3,5,6,7)] c(2) assms(5) by simp
  next
    case False
    then show ?thesis
      using field_same_block [OF c(1) assms(3) j] assms(4) c(3) j ssl [OF j] by simp
  qed
  have "length (ss[k := s] ! j) < STR_SIZE \<and> LF \<notin> set (ss[k := s] ! j)" if "j < 5" for j
    by (cases "j = k") (use ssl [OF that] sl assms(5,8) c(2) that in simp_all)
  then have "config_ok c'"
    using f assms(3) unfolding config_ok_def by simp
  then show ?thesis using f c(2) by (simp add: config_fields_Some)
qed

lemma save_config_ok:
  assumes "config_fits ''config.txt'' (dconfig d) (card d)"
  shows "\<exists>fs. write_to_file ''config.txt'' (dconfig d) (card d) = Some (RT_EOK, fs) \<and> save_config d = Some (d\<lparr>card := fs\<rparr>)"
proof -
  obtain fs where "write_to_file ''config.txt'' (dconfig d) (card d) = Some (RT_EOK, fs)"
    using config_file.save_restore [OF assms] by blast
  then show ?thesis by (simp add: save_config_def)
qed

lemma mac_dialogue:
  assumes "at_menu d" and "mac_accepted s (length s)" and "list_all plain s" and "NUL \<notin> set s"
    and "config_ok (dconfig d)" and "config_fields (dconfig d) = Some ss"
    and "mounted (card d)"
    and "length (unlines_lf (ss[mac_address_ix := s])) \<le> room_for (card d) ''/sdcard/config.txt''"
  shows "\<exists>d' fs. edit (''3'' @ CR # s @ CR # rest) d = edit rest d' \<and> at_menu d' \<and> card d' = fs \<and>
    config_fits ''config.txt'' (dconfig d') (card d) \<and>
    write_to_file ''config.txt'' (dconfig d') (card d) = Some (RT_EOK, fs) \<and>
    config_fields (dconfig d') = Some (ss[mac_address_ix := s])"
proof -
  have len: "length s = 17" using assms(2) by (simp add: mac_accepted_def)
  have nlf: "LF \<notin> set s" using assms(3) by (auto simp: list_all_iff plain_def)
  obtain d1 where e1: "edit (CHR ''3'' # CR # s @ CR # rest) d = edit (s @ CR # rest) d1"
    and d1: "cur_cmd d1 = MAC_CMD" "cur_line_len d1 = 0" "length (cur_line d1) = LINE_SIZE" "dconfig d1 = dconfig d"
      "config_temp d1 = config_temp d" "card d1 = card d"
    using choose [OF assms(1), of "CHR ''3''" "s @ CR # rest"] by (auto simp: menu_choice_def)
  let ?data = "s @ drop (length s) (cur_line d1)" and ?w = "with_line s d1"
  have e2: "edit (s @ CR # rest) d1 =
    do { d2 \<leftarrow> cmd_handle ?data (length s) ?w; edit rest (d2\<lparr>cur_line_len := 0\<rparr>) }"
    using assms(3) len d1 by (intro edit_line) auto
  have acc: "mac_accepted ?data (length s)"
    using assms(2) by (auto simp: mac_accepted_def nth_append)
  have lc: "length (dconfig d) = CONFIG_SIZE" using assms(1) by (simp add: at_menu_def)
  obtain c where c: "store_field mac_address_ix ?data (length s) (dconfig d) = Some c" "length c = CONFIG_SIZE"
    and b: "\<forall>j < 5. block j c = (if j = mac_address_ix then s @ NUL # drop (length s + 1) (block mac_address_ix (dconfig d))
      else block j (dconfig d))"
    using store_field_ok [OF lc, of mac_address_ix s ?data] len by auto
  have cf: "config_ok c \<and> config_fields c = Some (ss[mac_address_ix := s])"
    by (rule config_fields_upd [OF assms(5,6) c(2) _ _ _ assms(4) nlf]) (use b in auto)
  have fits: "config_fits ''config.txt'' c (card d)"
    using cf assms(7,8) by (simp add: config_fits_def ROOT_DIR_def)
  obtain fs where fs: "write_to_file ''config.txt'' c (card d) = Some (RT_EOK, fs)"
    using config_file.save_restore [OF fits] by blast
  have dw: "dconfig ?w = dconfig d" "cur_cmd ?w = MAC_CMD" "card ?w = card d" "length (cur_line ?w) = LINE_SIZE"
    "config_temp ?w = config_temp d"
    using d1 len by (simp_all add: with_line_def)
  let ?d2 = "guide_info_print (rt_kprintf (''MAC address saved!'' @ crlf) (?w\<lparr>dconfig := c, card := fs, cur_cmd := CMD_NULL\<rparr>))"
  have "cmd_handle ?data (length s) ?w = Some ?d2"
    using acc c(1) fs dw by (simp add: cmd_handle_def save_config_def)
  then have "edit (''3'' @ CR # s @ CR # rest) d = edit rest (?d2\<lparr>cur_line_len := 0\<rparr>)"
    using e1 e2 by simp
  moreover have "at_menu (?d2\<lparr>cur_line_len := 0\<rparr>)"
    using dw c(2) assms(1) by (simp add: at_menu_def guide_info_print_def rt_kprintf_def)
  moreover have "dconfig (?d2\<lparr>cur_line_len := 0\<rparr>) = c" "card (?d2\<lparr>cur_line_len := 0\<rparr>) = fs"
    by (simp_all add: guide_info_print_def rt_kprintf_def)
  ultimately show ?thesis using fits fs cf by metis
qed

text \<open>The two lines of the wireless and of the broker dialogue, up to the save.\<close>

definition first_ix :: "cmd \<Rightarrow> nat" where
  "first_ix c = (if c = WIFI_CMD then wifi_name_ix else mqtt_username_ix)"

lemma two_lines:
  assumes "at_menu d" and "c \<in> {CHR ''1'', CHR ''2''}" and "k = first_ix (menu_choice c)"
    and "list_all plain s1" and "s1 \<noteq> []" and "length s1 \<le> LINE_SIZE"
    and "list_all plain s2" and "s2 \<noteq> []" and "length s2 \<le> LINE_SIZE"
    and "\<And>data. take (length s1) data = s1 \<Longrightarrow> store_field k data (length s1) (config_temp d) = Some t1"
    and "\<And>data. take (length s2) data = s2 \<Longrightarrow> store_field (k + 1) data (length s2) t1 = Some t2"
    and "copy_field k t2 (dconfig d) = Some c1" and "copy_field (k + 1) t2 c1 = Some c2"
    and "length t2 = CONFIG_SIZE" and "length c2 = CONFIG_SIZE"
    and "write_to_file ''config.txt'' c2 (card d) = Some (r, fs)"
  shows "\<exists>d'. edit (c # CR # s1 @ CR # s2 @ CR # rest) d = edit rest d' \<and> at_menu d' \<and> dconfig d' = c2 \<and> card d' = fs"
proof -
  obtain d1 where e1: "edit (c # CR # s1 @ CR # s2 @ CR # rest) d = edit (s1 @ CR # s2 @ CR # rest) d1"
    and d1: "cur_cmd d1 = menu_choice c" "cur_lvl d1 = 1" "cur_line_len d1 = 0" "length (cur_line d1) = LINE_SIZE"
      "dconfig d1 = dconfig d" "config_temp d1 = config_temp d" "card d1 = card d"
    using choose [OF assms(1), of c "s1 @ CR # s2 @ CR # rest"] assms(2) by auto
  let ?data = "s1 @ drop (length s1) (cur_line d1)" and ?w = "with_line s1 d1"
  have e2: "edit (s1 @ CR # s2 @ CR # rest) d1 =
    do { d2 \<leftarrow> cmd_handle ?data (length s1) ?w; edit (s2 @ CR # rest) (d2\<lparr>cur_line_len := 0\<rparr>) }"
    using assms(4-6) d1 by (intro edit_line) auto
  obtain d2 where h1: "cmd_handle ?data (length s1) ?w = Some d2"
    and d2: "cur_cmd d2 = menu_choice c" "cur_lvl d2 = 2" "length (cur_line d2) = LINE_SIZE" "dconfig d2 = dconfig d"
      "config_temp d2 = t1" "card d2 = card d"
    using d1 assms(2,3,6) assms(10) [of ?data]
    by (auto simp: cmd_handle_def with_line_def rt_kprintf_def menu_choice_def first_ix_def)
  let ?d2 = "d2\<lparr>cur_line_len := 0\<rparr>"
  let ?data2 = "s2 @ drop (length s2) (cur_line ?d2)" and ?w2 = "with_line s2 ?d2"
  have e3: "edit (s2 @ CR # rest) ?d2 =
    do { d3 \<leftarrow> cmd_handle ?data2 (length s2) ?w2; edit rest (d3\<lparr>cur_line_len := 0\<rparr>) }"
    using assms(7-9) d2 by (intro edit_line) auto
  obtain d3 where "cmd_handle ?data2 (length s2) ?w2 = Some d3" and "cur_cmd d3 = CMD_NULL"
    "length (cur_line d3) = LINE_SIZE" "dconfig d3 = c2" "config_temp d3 = t2" "card d3 = fs"
    using d2 assms(2,3,9,12,13,16) assms(11) [of ?data2]
    by (auto simp: cmd_handle_def with_line_def rt_kprintf_def guide_info_print_def menu_choice_def first_ix_def
        save_config_def)
  then show ?thesis
    using e1 e2 h1 e3 assms(14,15) by (intro exI [of _ "d3\<lparr>cur_line_len := 0\<rparr>"]) (simp add: at_menu_def)
qed

text \<open>Two short answers: both fields are saved, nothing else changes.\<close>

lemma two_answers:
  assumes "at_menu d" and "c \<in> {CHR ''1'', CHR ''2''}" and "k = first_ix (menu_choice c)"
    and "list_all plain s1" and "s1 \<noteq> []" and "length s1 < STR_SIZE" and "NUL \<notin> set s1"
    and "list_all plain s2" and "s2 \<noteq> []" and "length s2 < STR_SIZE" and "NUL \<notin> set s2"
    and "config_ok (dconfig d)" and "config_fields (dconfig d) = Some ss" and "mounted (card d)"
    and "length (unlines_lf (ss[k := s1, k + 1 := s2])) \<le> room_for (card d) ''/sdcard/config.txt''"
  shows "\<exists>d'. edit (c # CR # s1 @ CR # s2 @ CR # rest) d = edit rest d' \<and> at_menu d' \<and>
    config_fits ''config.txt'' (dconfig d') (card d) \<and>
    write_to_file ''config.txt'' (dconfig d') (card d) = Some (RT_EOK, card d') \<and>
    config_fields (dconfig d') = Some (ss[k := s1, k + 1 := s2])"
proof -
  have k: "k < 4" using assms(3) by (simp add: first_ix_def)
  have lt: "length (config_temp d) = CONFIG_SIZE" and lc: "length (dconfig d) = CONFIG_SIZE"
    using assms(1) by (simp_all add: at_menu_def)
  have nlf: "LF \<notin> set s1" "LF \<notin> set s2" using assms(4,8) by (auto simp: list_all_iff plain_def)
  obtain t1 where t1: "\<And>data. take (length s1) data = s1 \<Longrightarrow> store_field k data (length s1) (config_temp d) = Some t1"
    and lt1: "length t1 = CONFIG_SIZE"
    and b1: "\<forall>j < 5. block j t1 = (if j = k then s1 @ NUL # drop (length s1 + 1) (block k (config_temp d))
      else block j (config_temp d))"
  proof -
    obtain t where t: "store_field k s1 (length s1) (config_temp d) = Some t" "length t = CONFIG_SIZE"
      "\<forall>j < 5. block j t = (if j = k then s1 @ NUL # drop (length s1 + 1) (block k (config_temp d)) else block j (config_temp d))"
      using store_field_ok [OF lt, of "k" s1 s1] k assms(6) by auto
    show ?thesis by (rule that [OF _ t(2,3)]) (simp only: store_field_data t(1))
  qed
  obtain t2 where t2: "\<And>data. take (length s2) data = s2 \<Longrightarrow> store_field (k + 1) data (length s2) t1 = Some t2"
    and lt2: "length t2 = CONFIG_SIZE"
    and b2: "\<forall>j < 5. block j t2 = (if j = k + 1 then s2 @ NUL # drop (length s2 + 1) (block (k + 1) t1)
      else block j t1)"
  proof -
    obtain t where t: "store_field (k + 1) s2 (length s2) t1 = Some t" "length t = CONFIG_SIZE"
      "\<forall>j < 5. block j t = (if j = k + 1 then s2 @ NUL # drop (length s2 + 1) (block (k + 1) t1) else block j t1)"
      using store_field_ok [OF lt1, of "k + 1" s2 s2] k assms(10) by auto
    show ?thesis by (rule that [OF _ t(2,3)]) (simp only: store_field_data t(1))
  qed
  obtain c1 where c1: "copy_field k t2 (dconfig d) = Some c1" and lc1: "length c1 = CONFIG_SIZE"
    and bc1: "\<forall>j < 5. block j c1 = (if j = k then block k t2 else block j (dconfig d))"
    using copy_field_ok [OF lt2 lc, of k] k by auto
  obtain c2 where c2: "copy_field (k + 1) t2 c1 = Some c2" and lc2: "length c2 = CONFIG_SIZE"
    and bc2: "\<forall>j < 5. block j c2 = (if j = k + 1 then block (k + 1) t2 else block j c1)"
    using copy_field_ok [OF lt2 lc1, of "k + 1"] k by auto
  have f1: "config_ok c1 \<and> config_fields c1 = Some (ss[k := s1])"
    by (rule config_fields_upd [OF assms(12,13) lc1 _ _ _ assms(7) nlf(1)]) (use bc1 b2 b1 k in auto)
  then have f2: "config_ok c2 \<and> config_fields c2 = Some (ss[k := s1, k + 1 := s2])"
    by (intro config_fields_upd [OF _ _ lc2 _ _ _ assms(11) nlf(2)]) (use bc2 b2 k in auto)
  have fits: "config_fits ''config.txt'' c2 (card d)"
    using f2 assms(14,15) by (simp add: config_fits_def ROOT_DIR_def)
  obtain fs where fs: "write_to_file ''config.txt'' c2 (card d) = Some (RT_EOK, fs)"
    using config_file.save_restore [OF fits] by blast
  have "\<exists>d'. edit (c # CR # s1 @ CR # s2 @ CR # rest) d = edit rest d' \<and> at_menu d' \<and> dconfig d' = c2 \<and> card d' = fs"
    by (rule two_lines [OF assms(1-5) _ assms(8,9) _ t1 t2 c1 c2 lt2 lc2 fs]) (use assms(6,10) in auto)
  then show ?thesis using fs fits f2 by auto
qed

section \<open>A long network name\<close>

lemma fields_with_tail:
  assumes "length c = CONFIG_SIZE" and "config_field mac_address_ix c \<noteq> None" and "k < 5"
  shows "\<exists>s. config_field k c = Some s"
proof -
  have "NUL \<in> set (drop (4 * STR_SIZE) c)"
    using assms(2) by (auto simp: config_field_def c_string_def split: if_splits)
  moreover have "set (drop (4 * STR_SIZE) c) \<subseteq> set (drop (k * STR_SIZE) c)"
    using assms(3) by (intro set_drop_subset_set_drop) simp
  ultimately show ?thesis by (auto simp: config_field_def c_string_def)
qed

text \<open>Reading any file that starts with more than \<open>STR_SIZE\<close> bytes of a line faults.\<close>

lemma unreadable:
  assumes "mounted fs" and "files fs (ROOT_DIR @ path) = Some (l @ r)" and "length path \<le> 91"
    and "LF \<notin> set l" and "STR_SIZE < length l"
  shows "init_from_file junk path c fs = None"
proof -
  obtain t where t: "mem_store 0 (ROOT_DIR @ path @ [NUL]) (take STR_SIZE (junk @ replicate STR_SIZE NUL)) = Some t"
    "length t = STR_SIZE"
    using reader_buffer [OF assms(3)] by blast
  have "read_loop (l @ r) t 0 0 c = None"
    using t(2) assms(4,5) by (intro read_loop_overlong) auto
  then show ?thesis using t(1) assms(1,2) by (simp add: init_from_file_def sd_open_read_def)
qed

lemma take_drop_two: "xs = take n xs @ take n (drop n xs) @ drop (n + n) xs"
  by (metis append_take_drop_id drop_drop)

lemma c_string_starts:
  assumes "c_string 0 (a @ b) = Some s" and "NUL \<notin> set a"
  shows "\<exists>r. s = a @ r"
proof -
  have "takeWhile (\<lambda>c. c \<noteq> NUL) (a @ b) = a @ takeWhile (\<lambda>c. c \<noteq> NUL) b"
    using assms(2) by (intro takeWhile_append2) auto
  moreover have "s = takeWhile (\<lambda>c. c \<noteq> NUL) (a @ b)"
    using assms(1) by (simp add: c_string_def split: if_splits)
  ultimately show ?thesis by blast
qed

lemma long_name_saved:
  assumes "at_menu d" and "list_all plain s1" and "STR_SIZE \<le> length s1" and "length s1 \<le> LINE_SIZE"
    and "NUL \<notin> set s1" and "list_all plain s2" and "s2 \<noteq> []" and "length s2 \<le> LINE_SIZE" and "NUL \<notin> set s2"
    and "config_field mac_address_ix (dconfig d) = Some m" and "length m < STR_SIZE" and "mounted (card d)"
  shows "\<exists>d' q. edit (''1'' @ CR # s1 @ CR # s2 @ CR # rest) d = edit rest d' \<and> at_menu d' \<and> mounted (card d') \<and>
    files (card d') ''/sdcard/config.txt'' =
      Some (take (room_for (card d) ''/sdcard/config.txt'') (take STR_SIZE s1 @ hd s2 # q))"
proof -
  have lt: "length (config_temp d) = CONFIG_SIZE" and lc: "length (dconfig d) = CONFIG_SIZE"
    using assms(1) by (simp_all add: at_menu_def)
  let ?t1 = "s1 @ NUL # drop (length s1 + 1) (config_temp d)"
  let ?t2 = "take STR_SIZE ?t1 @ s2 @ NUL # drop (STR_SIZE + length s2 + 1) ?t1"
  have t1: "store_field wifi_name_ix data (length s1) (config_temp d) = Some ?t1" if "take (length s1) data = s1" for data
  proof -
    have "do { c1 \<leftarrow> mem_store 0 s1 (config_temp d); mem_store (0 + length s1) [NUL] c1 } = Some ?t1"
      using assms(4) lt by (subst store_at_Some) simp
    then show ?thesis unfolding store_field_data [OF that] by (simp add: store_field_def mem_load_def)
  qed
  have lt1: "length ?t1 = CONFIG_SIZE" using assms(4) lt by simp
  have t2: "store_field (0 + 1) data (length s2) ?t1 = Some ?t2" if "take (length s2) data = s2" for data
  proof -
    have "do { c1 \<leftarrow> mem_store STR_SIZE s2 ?t1; mem_store (STR_SIZE + length s2) [NUL] c1 } = Some ?t2"
      using assms(8) lt1 by (subst store_at_Some) simp
    then show ?thesis unfolding store_field_data [OF that] by (simp add: store_field_def mem_load_def)
  qed
  have lt2: "length ?t2 = CONFIG_SIZE" using assms(8) lt1 by simp
  obtain c1 where c1: "copy_field 0 ?t2 (dconfig d) = Some c1" and lc1: "length c1 = CONFIG_SIZE"
    and bc1: "\<forall>j < 5. block j c1 = (if j = 0 then block 0 ?t2 else block j (dconfig d))"
    using copy_field_ok [OF lt2 lc, of 0] by auto
  obtain c2 where c2: "copy_field (0 + 1) ?t2 c1 = Some c2" and lc2: "length c2 = CONFIG_SIZE"
    and bc2: "\<forall>j < 5. block j c2 = (if j = 1 then block 1 ?t2 else block j c1)"
    using copy_field_ok [OF lt2 lc1, of 1] by auto
  have m: "config_field mac_address_ix c2 = Some m"
    using bc2 bc1 field_same_block [OF lc lc2, of 4 m] assms(10,11) by simp
  have "\<forall>k < 5. \<exists>s. config_field k c2 = Some s"
    using fields_with_tail [OF lc2] m by simp
  then obtain ss where ss: "config_fields c2 = Some ss"
    using config_fields_total by blast
  have b0: "block 0 c2 = take STR_SIZE s1" and b1: "block 1 c2 = take STR_SIZE (s2 @ [NUL] @ drop (STR_SIZE + length s2 + 1) ?t1)"
  proof -
    have "block 0 c2 = block 0 ?t2" "block 1 c2 = block 1 ?t2" using bc2 bc1 by simp_all
    moreover have "length (take STR_SIZE ?t1) = STR_SIZE" "take STR_SIZE ?t1 = take STR_SIZE s1"
      using assms(3) lt1 by simp_all
    ultimately show "block 0 c2 = take STR_SIZE s1"
      "block 1 c2 = take STR_SIZE (s2 @ [NUL] @ drop (STR_SIZE + length s2 + 1) ?t1)"
      by (simp_all add: block_def)
  qed
  have "c2 = block 0 c2 @ block 1 c2 @ drop 200 c2"
    using take_drop_two [of c2 STR_SIZE] by (simp add: block_def)
  moreover obtain q where "block 1 c2 = hd s2 # q"
    using b1 assms(7) by (cases s2) simp_all
  ultimately have split: "c2 = (take STR_SIZE s1 @ [hd s2]) @ q @ drop 200 c2" using b0 by simp
  have "config_field 0 c2 = Some (ss ! 0)" using ss by (simp add: config_fields_Some)
  then have "c_string 0 c2 = Some (ss ! 0)" by (simp add: config_field_def)
  moreover have "NUL \<notin> set (take STR_SIZE s1 @ [hd s2])" using assms(5,7,9) by (auto dest: in_set_takeD)
  ultimately obtain r where r: "ss ! 0 = (take STR_SIZE s1 @ [hd s2]) @ r"
    using c_string_starts split by metis
  obtain fs where fs: "write_to_file ''config.txt'' c2 (card d) = Some (RT_EOK, fs)" "mounted fs"
    "files fs (ROOT_DIR @ ''config.txt'') = Some (take (room_for (card d) (ROOT_DIR @ ''config.txt'')) (unlines_lf ss))"
    using write_to_file_mounted [OF assms(12) _ ss, of "''config.txt''"] by auto
  have "s1 \<noteq> []" using assms(3) by auto
  have "\<exists>d'. edit (CHR ''1'' # CR # s1 @ CR # s2 @ CR # rest) d = edit rest d' \<and> at_menu d' \<and> dconfig d' = c2 \<and> card d' = fs"
    by (rule two_lines [OF assms(1) _ _ assms(2) \<open>s1 \<noteq> []\<close> assms(4,6-8) t1 t2 c1 c2 lt2 lc2 fs(1)])
      (simp_all add: first_ix_def menu_choice_def)
  moreover have "unlines_lf ss = take STR_SIZE s1 @ hd s2 # (r @ LF # unlines_lf (tl ss))"
    using r ss by (cases ss) (simp_all add: config_fields_Some)
  ultimately show ?thesis using fs by (auto simp: ROOT_DIR_def)
qed

section \<open>Properties\<close>

definition example_dialogue :: dialogue where
  "example_dialogue = \<lparr>cur_cmd = CMD_NULL, cur_lvl = 0, dconfig = config_of example_fields,
     config_temp = replicate CONFIG_SIZE NUL, card = example_card, cur_line = replicate LINE_SIZE NUL,
     cur_line_len = 0, tty = []\<rparr>"

lemma example_dialogue_config:
  "config_ok (dconfig example_dialogue)" "config_fields (dconfig example_dialogue) = Some example_fields"
  "length (dconfig example_dialogue) = CONFIG_SIZE"
  using config_of_ok [of example_fields] config_of_length [of example_fields]
  by (auto simp: example_dialogue_def example_fields_def)

lemma example_dialogue_ok: "at_menu example_dialogue"
  using example_dialogue_config(3) by (simp add: at_menu_def example_dialogue_def)

lemma example_room:
  "mounted (card example_dialogue)" "room_for (card example_dialogue) ''/sdcard/config.txt'' = 1000"
  by (simp_all add: example_dialogue_def example_card_def room_for_def)

text \<open>Property C11. Typing the name and password of the wireless network (option 1) or of the broker
  (option 2) saves exactly these two: from the menu, with a well-formed configuration and a card
  with room for the new one, the two answers of at most 99 ordinary characters are what any later
  reader of the file finds in the two fields, the other three fields are as before, and the
  dialogue is back at the menu.\<close>

theorem console_saves_answers:
  assumes "at_menu d" and "c \<in> {CHR ''1'', CHR ''2''}" and "k = first_ix (menu_choice c)"
    and "list_all plain s1" and "s1 \<noteq> []" and "length s1 < STR_SIZE" and "NUL \<notin> set s1"
    and "list_all plain s2" and "s2 \<noteq> []" and "length s2 < STR_SIZE" and "NUL \<notin> set s2"
    and "config_ok (dconfig d)" and "config_fields (dconfig d) = Some ss" and "mounted (card d)"
    and "length (unlines_lf (ss[k := s1, k + 1 := s2])) \<le> room_for (card d) ''/sdcard/config.txt''"
  shows "\<exists>d'. edit (c # CR # s1 @ CR # s2 @ CR # rest) d = edit rest d' \<and> at_menu d' \<and>
    (\<forall>junk old. length old = CONFIG_SIZE \<longrightarrow>
      (\<exists>c'. init_from_file junk ''config.txt'' old (card d') = Some (RT_EOK, c') \<and>
        config_fields c' = Some (ss[k := s1, k + 1 := s2])))"
proof -
  obtain d' where d': "edit (c # CR # s1 @ CR # s2 @ CR # rest) d = edit rest d'" "at_menu d'"
    "config_fits ''config.txt'' (dconfig d') (card d)"
    "write_to_file ''config.txt'' (dconfig d') (card d) = Some (RT_EOK, card d')"
    "config_fields (dconfig d') = Some (ss[k := s1, k + 1 := s2])"
    using two_answers [OF assms] by blast
  have "\<exists>c'. init_from_file junk ''config.txt'' old (card d') = Some (RT_EOK, c') \<and>
      config_fields c' = Some (ss[k := s1, k + 1 := s2])" if "length old = CONFIG_SIZE" for junk old
    using config_file.save_restore [OF d'(3), of junk] d'(4,5) that by auto
  then show ?thesis using d'(1,2) by blast
qed

lemma edit_leave: "at_menu d \<Longrightarrow> edit [ESC_KEY] d = Some (True, [], d)"
  by (simp add: at_menu_def edit_char_def)

theorem console_saves_answers_witness:
  "\<exists>d' c'. edit (CHR ''2'' # CR # ''alice'' @ CR # ''pw'' @ CR # [ESC_KEY]) example_dialogue = Some (True, [], d') \<and>
    init_from_file [] ''config.txt'' (replicate CONFIG_SIZE NUL) (card d') = Some (RT_EOK, c') \<and>
    config_fields c' = Some (example_fields[2 := ''alice'', 2 + 1 := ''pw''])"
proof -
  have pl: "list_all plain ''alice''" "list_all plain ''pw''" by (simp_all add: plain_def)
  have ix: "2 = first_ix (menu_choice (CHR ''2''))" by (simp add: first_ix_def menu_choice_def)
  have room: "length (unlines_lf (example_fields[2 := ''alice'', 2 + 1 := ''pw''])) \<le>
      room_for (card example_dialogue) ''/sdcard/config.txt''"
    unfolding example_room by (simp add: example_fields_def)
  obtain d' where e: "edit (CHR ''2'' # CR # ''alice'' @ CR # ''pw'' @ CR # [ESC_KEY]) example_dialogue = edit [ESC_KEY] d'"
    and m: "at_menu d'" and r: "\<forall>junk old. length old = CONFIG_SIZE \<longrightarrow>
      (\<exists>c'. init_from_file junk ''config.txt'' old (card d') = Some (RT_EOK, c') \<and>
        config_fields c' = Some (example_fields[2 := ''alice'', 2 + 1 := ''pw'']))"
    using console_saves_answers [OF example_dialogue_ok _ ix pl(1) _ _ _ pl(2) _ _ _ example_dialogue_config(1,2)
        example_room(1) room, of "[ESC_KEY]"] by auto
  show ?thesis
    using e edit_leave [OF m] r [rule_format, OF length_replicate, of "[]" NUL] by metis
qed

text \<open>The line buffer has no bound check: ordinary characters are echoed and stored one
  after the other, and the first one that does not fit the 128 bytes is written behind them. The
  loop is safe exactly as long as a line stays within the buffer.\<close>

theorem typed_line_bound:
  assumes "list_all plain s" and "length (cur_line d) = LINE_SIZE" and "cur_line_len d \<le> LINE_SIZE"
  shows "(edit s d = None) = (LINE_SIZE < cur_line_len d + length s) \<and>
    (\<forall>left cs d'. edit s d = Some (left, cs, d') \<longrightarrow> \<not> left \<and> cs = [] \<and> tty d' = tty d @ s \<and>
       take (cur_line_len d') (cur_line d') = take (cur_line_len d) (cur_line d) @ s)"
proof (cases "LINE_SIZE < cur_line_len d + length s")
  case True
  then show ?thesis using edit_too_long [OF assms True, of "[]"] by simp
next
  case False
  then have "edit s d = Some (False, [], d\<lparr>cur_line := take (cur_line_len d) (cur_line d) @ s @
      drop (cur_line_len d + length s) (cur_line d), cur_line_len := cur_line_len d + length s, tty := tty d @ s\<rparr>)"
    using edit_plain [OF assms(1,2), of "[]"] by simp
  moreover have "length (take (cur_line_len d) (cur_line d)) = cur_line_len d" using assms(2,3) by simp
  ultimately show ?thesis using False by (simp del: length_take)
qed

theorem typed_line_bound_witness:
  "edit (replicate 129 (CHR ''a'')) example_dialogue = None"
proof -
  have "list_all plain (replicate 129 (CHR ''a''))" by (simp add: list_all_iff plain_def)
  then show ?thesis
    using typed_line_bound [of "replicate 129 (CHR ''a'')" example_dialogue]
    by (simp add: example_dialogue_def del: edit.simps)
qed

text \<open>A network name that fills its field spoils the file: a name of 100 to 128 ordinary
  characters and any password are accepted, and on a card with room for 101 bytes what is saved is a
  file whose first line is longer than the reader's buffer, so that every later attempt to read
  the configuration writes out of bounds.\<close>

theorem long_name_spoils_file:
  assumes "at_menu d" and "list_all plain s1" and "STR_SIZE \<le> length s1" and "length s1 \<le> LINE_SIZE"
    and "NUL \<notin> set s1" and "list_all plain s2" and "s2 \<noteq> []" and "length s2 \<le> LINE_SIZE" and "NUL \<notin> set s2"
    and "config_field mac_address_ix (dconfig d) = Some m" and "length m < STR_SIZE" and "mounted (card d)"
    and "STR_SIZE < room_for (card d) ''/sdcard/config.txt''"
  shows "\<exists>d'. edit (''1'' @ CR # s1 @ CR # s2 @ CR # rest) d = edit rest d' \<and> at_menu d' \<and>
    (\<forall>junk c. init_from_file junk ''config.txt'' c (card d') = None)"
proof -
  obtain d' q where d': "edit (''1'' @ CR # s1 @ CR # s2 @ CR # rest) d = edit rest d'" "at_menu d'" "mounted (card d')"
    and f: "files (card d') ''/sdcard/config.txt'' =
      Some (take (room_for (card d) ''/sdcard/config.txt'') (take STR_SIZE s1 @ hd s2 # q))"
    using long_name_saved [OF assms(1-12), of rest] by blast
  let ?l = "take STR_SIZE s1 @ [hd s2]"
  have "length ?l = STR_SIZE + 1" using assms(3) by simp
  then have f': "files (card d') (ROOT_DIR @ ''config.txt'') =
      Some (?l @ take (room_for (card d) ''/sdcard/config.txt'' - (STR_SIZE + 1)) q)"
    using f assms(13) by (simp add: ROOT_DIR_def take_Cons')
  have nlf: "LF \<notin> set ?l"
    using assms(2,6,7) by (cases s2) (auto simp: list_all_iff plain_def dest!: in_set_takeD)
  have "init_from_file junk ''config.txt'' c (card d') = None" for junk c
    by (rule unreadable [OF d'(3) f' _ nlf]) (simp, simp only: \<open>length ?l = STR_SIZE + 1\<close>)
  then show ?thesis using d'(1,2) by blast
qed

theorem long_name_spoils_file_witness:
  "\<exists>d'. edit (''1'' @ CR # replicate 100 (CHR ''n'') @ CR # ''pw'' @ CR # [ESC_KEY]) example_dialogue = Some (True, [], d') \<and>
    init_from_file [] ''config.txt'' (replicate CONFIG_SIZE NUL) (card d') = None"
proof -
  have "config_field mac_address_ix (dconfig example_dialogue) = Some ''88:ae:dd:15:60:95''"
    unfolding example_dialogue_def dialogue.simps by (subst config_of_field) (auto simp: example_fields_def)
  moreover have "list_all plain (replicate 100 (CHR ''n''))" "list_all plain ''pw''"
    by (simp_all add: list_all_iff plain_def)
  ultimately obtain d' where
    e: "edit (''1'' @ CR # replicate 100 (CHR ''n'') @ CR # ''pw'' @ CR # [ESC_KEY]) example_dialogue = edit [ESC_KEY] d'"
    and m: "at_menu d'" and r: "\<forall>junk c. init_from_file junk ''config.txt'' c (card d') = None"
    using long_name_spoils_file [OF example_dialogue_ok, of "replicate 100 (CHR ''n'')" "''pw''" "''88:ae:dd:15:60:95''"
        "[ESC_KEY]"] example_room by auto
  show ?thesis using e edit_leave [OF m] r by metis
qed

end
