(* ===== verification/CommonParam.thy ===== *)
theory CommonParam
  imports Mailbox
begin

text \<open>
  \<open>applications/common_param.c\<close>: the kernel objects and flags the application's threads share, and
  the calls its threads make on them.  The three objects are null until \<open>common_param_init\<close> has
  run; a kernel call on a null object stops in the kernel's assertion, a fault (\<open>None\<close>) here.
\<close>

section \<open>State\<close>

record app =
  computer_status_mail :: "mailbox option"
  computer_on_sem :: "semaphore option"
  page_mail :: "mailbox option"
  sd_status :: nat
  is_online :: nat
  sys :: kernel

text \<open>The state at reset: no object, no card, not connected.\<close>

definition app_reset :: "kernel \<Rightarrow> app" where
  "app_reset k = \<lparr>computer_status_mail = None, computer_on_sem = None, page_mail = None, sd_status = 0,
     is_online = 0, sys = k\<rparr>"

text \<open>\<open>common_param_init\<close>, given what the allocator returns for the three objects and the two message
  pools; every failure stops in \<open>RT_ASSERT\<close>.\<close>

definition common_param_init ::
  "nat option \<Rightarrow> u32 list option \<Rightarrow> nat option \<Rightarrow> nat option \<Rightarrow> u32 list option \<Rightarrow> app \<Rightarrow> app option" where
  "common_param_init status_alloc status_pool sem_alloc page_alloc page_pool a =
     do { status \<leftarrow> rt_mb_create status_alloc status_pool 10 1;
          sem \<leftarrow> rt_sem_create sem_alloc 0 1;
          on \<leftarrow> sem;
          page \<leftarrow> rt_mb_create page_alloc page_pool 10 1;
          Some (a\<lparr>computer_status_mail := Some status, computer_on_sem := Some on, page_mail := Some page\<rparr>) }"

section \<open>The calls of the threads\<close>

definition release_computer_on :: "app \<Rightarrow> app option" where
  "release_computer_on a =
     do { sem \<leftarrow> computer_on_sem a;
          (_, sem', k') \<leftarrow> rt_sem_release sem (sys a);
          Some (a\<lparr>computer_on_sem := Some sem', sys := k'\<rparr>) }"

definition send_page :: "u32 \<Rightarrow> app \<Rightarrow> app option" where
  "send_page v a =
     do { mb \<leftarrow> page_mail a;
          (_, mb', k') \<leftarrow> rt_mb_send mb v (sys a);
          Some (a\<lparr>page_mail := Some mb', sys := k'\<rparr>) }"

definition send_status :: "u32 \<Rightarrow> app \<Rightarrow> app option" where
  "send_status v a =
     do { mb \<leftarrow> computer_status_mail a;
          (_, mb', k') \<leftarrow> rt_mb_send mb v (sys a);
          Some (a\<lparr>computer_status_mail := Some mb', sys := k'\<rparr>) }"

section \<open>Invariant\<close>

definition app_ok :: "app \<Rightarrow> bool" where
  "app_ok a \<longleftrightarrow> kernel_inv (sys a) \<and>
     (case (computer_status_mail a, computer_on_sem a, page_mail a) of
        (Some status, Some sem, Some page) \<Rightarrow>
          mb_ok status \<and> mb_ok page \<and> sem_flag sem \<le> 1 \<and>
          distinct [mb_id status, sem_id sem, mb_id page] \<and>
          (sem_value sem \<noteq> 0 \<longrightarrow> linked (sys a) (Suspend (sem_id sem)) = [])
      | _ \<Rightarrow> False)"

lemma app_okE:
  assumes "app_ok a"
  obtains status sem page where "computer_status_mail a = Some status" and "computer_on_sem a = Some sem"
    and "page_mail a = Some page" and "mb_ok status" and "mb_ok page" and "sem_inv sem (sys a)"
    and "kernel_inv (sys a)" and "distinct [mb_id status, sem_id sem, mb_id page]"
  using assms that by (auto simp: app_ok_def sem_inv_def split: option.splits)

definition status_queue :: "app \<Rightarrow> u32 list" where
  "status_queue a = (case computer_status_mail a of None \<Rightarrow> [] | Some mb \<Rightarrow> mb_abs mb)"

definition page_queue :: "app \<Rightarrow> u32 list" where
  "page_queue a = (case page_mail a of None \<Rightarrow> [] | Some mb \<Rightarrow> mb_abs mb)"

definition on_tokens :: "app \<Rightarrow> nat" where
  "on_tokens a = (case computer_on_sem a of None \<Rightarrow> 0 | Some sem \<Rightarrow> unat (sem_value sem))"

definition on_waiters :: "app \<Rightarrow> tid list" where
  "on_waiters a = (case computer_on_sem a of None \<Rightarrow> [] | Some sem \<Rightarrow> linked (sys a) (Suspend (sem_id sem)))"

text \<open>The mailboxes hold ten messages.\<close>

definition mails_of_ten :: "app \<Rightarrow> bool" where
  "mails_of_ten a \<longleftrightarrow> (\<forall>mb. computer_status_mail a = Some mb \<or> page_mail a = Some mb \<longrightarrow> mb_size mb = 10)"

lemma common_param_init_ok:
  assumes "kernel_inv (sys a)" and "distinct [i, j, l]" and "length p = 10" and "length q = 10"
  shows "\<exists>a'. common_param_init (Some i) (Some p) (Some j) (Some l) (Some q) a = Some a' \<and> app_ok a' \<and>
    status_queue a' = [] \<and> page_queue a' = [] \<and> on_tokens a' = 0 \<and> mails_of_ten a' \<and> sys a' = sys a"
  using assms
  by (auto simp: common_param_init_def rt_mb_create_def rt_mb_init_def rt_sem_create_def app_ok_def mb_ok_def
      status_queue_def page_queue_def on_tokens_def mails_of_ten_def mb_abs_def ring_slice_def)

section \<open>The calls keep the invariant\<close>

text \<open>What a call on one object leaves alone: the lists of the other objects.\<close>

lemma sem_release_frame:
  assumes "sem_inv sem k" and "rt_sem_release sem k = Some (r, sem', k')" and "i \<noteq> sem_id sem"
  shows "linked k' (Suspend i) = linked k (Suspend i) \<and> linked k' (Sender i) = linked k (Sender i)"
proof (cases "linked k (Suspend (sem_id sem))")
  case Nil
  then show ?thesis using assms(2) by (simp add: rt_sem_release_def)
next
  case (Cons t ts)
  have k: "kernel_inv k" using assms(1) by (simp add: sem_inv_def)
  have "rt_sem_release sem k = do { k2 \<leftarrow> wake_one (Suspend (sem_id sem)) k; Some (RT_EOK, sem, k2) }"
    using Cons by (simp add: rt_sem_release_def wake_one_def bind_assoc)
  then show ?thesis
    using wake_one_ok [OF k, of "Suspend (sem_id sem)" "sem_id sem"] assms(2,3) by auto
qed

lemma release_computer_on_ok:
  assumes "app_ok a"
  shows "\<exists>a'. release_computer_on a = Some a' \<and> app_ok a' \<and> status_queue a' = status_queue a \<and>
    page_queue a' = page_queue a \<and> (mails_of_ten a' = mails_of_ten a) \<and>
    (if on_waiters a = [] then on_tokens a' = (on_tokens a + 1) mod 65536 \<and> sys a' = sys a
     else on_tokens a' = on_tokens a \<and> on_waiters a' = tl (on_waiters a))"
proof -
  obtain status sem page where o: "computer_status_mail a = Some status" "computer_on_sem a = Some sem"
    "page_mail a = Some page" "mb_ok status" "mb_ok page" "sem_inv sem (sys a)" "kernel_inv (sys a)"
    "distinct [mb_id status, sem_id sem, mb_id page]"
    by (rule app_okE [OF assms])
  obtain sem' k' where r: "rt_sem_release sem (sys a) = Some (RT_EOK, sem', k')" and i: "sem_inv sem' k'"
    and id: "sem_id sem' = sem_id sem"
    and c: "case linked (sys a) (Suspend (sem_id sem)) of
       [] \<Rightarrow> k' = sys a \<and> sem_value sem' = sem_value sem + 1
     | t # ts \<Rightarrow> sem' = sem \<and> linked k' (Suspend (sem_id sem)) = ts \<and> stat_of k' t \<noteq> RT_THREAD_SUSPEND \<and>
         (\<forall>u. thread_error (threads k' u) = thread_error (threads (sys a) u))"
    using sem_release_ok [OF o(6)] by blast
  let ?a = "a\<lparr>computer_on_sem := Some sem', sys := k'\<rparr>"
  have e: "release_computer_on a = Some ?a" using o(2) r by (simp add: release_computer_on_def)
  have "app_ok ?a" using o i id by (auto simp: app_ok_def sem_inv_def)
  moreover have "unat (sem_value sem + 1) = (unat (sem_value sem) + 1) mod 65536"
    by (simp add: unat_word_ariths)
  ultimately show ?thesis
    using e o c id
    by (auto simp: status_queue_def page_queue_def on_tokens_def on_waiters_def mails_of_ten_def split: list.splits)
qed

text \<open>Sending to a mailbox of the application: stored when there is room, dropped otherwise.\<close>

lemma mail_send_ok:
  assumes "mb_ok mb" and "kernel_inv k" and "sem_inv sem k" and "sem_id sem \<noteq> mb_id mb"
  shows "\<exists>r mb' k'. rt_mb_send mb v k = Some (r, mb', k') \<and> mb_ok mb' \<and> kernel_inv k' \<and> sem_inv sem k' \<and>
    mb_id mb' = mb_id mb \<and> mb_size mb' = mb_size mb \<and>
    mb_abs mb' = (if length (mb_abs mb) < mb_size mb then mb_abs mb @ [v] else mb_abs mb) \<and>
    linked k' (Suspend (sem_id sem)) = linked k (Suspend (sem_id sem))"
proof (cases "entry mb < mb_size mb")
  case True
  obtain mb' k' where s: "rt_mb_send mb v k = Some (Returned RT_EOK, mb', k')" "mb_ok mb'" "kernel_inv k'"
    "mb_abs mb' = mb_abs mb @ [v]" "mb_size mb' = mb_size mb" "mb_id mb' = mb_id mb"
    and w: "wake_one (Suspend (mb_id mb)) k = Some k'"
    using send_ok [OF assms(1,2) True, of v 0] unfolding rt_mb_send_def by blast
  have "linked k' (Suspend (sem_id sem)) = linked k (Suspend (sem_id sem))"
    using wake_one_ok [OF assms(2), of "Suspend (mb_id mb)" "mb_id mb"] w assms(4) by auto
  then show ?thesis using s True assms(3) by (auto simp: sem_inv_def)
next
  case False
  then have "entry mb = mb_size mb" using assms(1) by (simp add: mb_ok_def)
  then show ?thesis using assms by (auto simp: rt_mb_send_def rt_mb_send_wait_def)
qed

lemma send_page_ok:
  assumes "app_ok a"
  shows "\<exists>a'. send_page v a = Some a' \<and> app_ok a' \<and> status_queue a' = status_queue a \<and>
    on_tokens a' = on_tokens a \<and> on_waiters a' = on_waiters a \<and> mails_of_ten a' = mails_of_ten a \<and>
    (mails_of_ten a \<longrightarrow> page_queue a' = (if length (page_queue a) < 10 then page_queue a @ [v] else page_queue a))"
proof -
  obtain status sem page where o: "computer_status_mail a = Some status" "computer_on_sem a = Some sem"
    "page_mail a = Some page" "mb_ok status" "mb_ok page" "sem_inv sem (sys a)" "kernel_inv (sys a)"
    "distinct [mb_id status, sem_id sem, mb_id page]"
    by (rule app_okE [OF assms])
  have "sem_id sem \<noteq> mb_id page" using o(8) by auto
  from mail_send_ok [OF o(5,7,6) this, of v] obtain r mb' k' where
    "rt_mb_send page v (sys a) = Some (r, mb', k')" "mb_ok mb'" "kernel_inv k'" "sem_inv sem k'"
    "mb_id mb' = mb_id page" "mb_size mb' = mb_size page"
    "mb_abs mb' = (if length (mb_abs page) < mb_size page then mb_abs page @ [v] else mb_abs page)"
    "linked k' (Suspend (sem_id sem)) = linked (sys a) (Suspend (sem_id sem))"
    by blast
  then show ?thesis
    using o by (auto simp: send_page_def app_ok_def sem_inv_def status_queue_def page_queue_def on_tokens_def
        on_waiters_def mails_of_ten_def)
qed

lemma send_status_ok:
  assumes "app_ok a"
  shows "\<exists>a'. send_status v a = Some a' \<and> app_ok a' \<and> page_queue a' = page_queue a \<and>
    on_tokens a' = on_tokens a \<and> on_waiters a' = on_waiters a \<and> mails_of_ten a' = mails_of_ten a \<and>
    (mails_of_ten a \<longrightarrow> status_queue a' = (if length (status_queue a) < 10 then status_queue a @ [v] else status_queue a))"
proof -
  obtain status sem page where o: "computer_status_mail a = Some status" "computer_on_sem a = Some sem"
    "page_mail a = Some page" "mb_ok status" "mb_ok page" "sem_inv sem (sys a)" "kernel_inv (sys a)"
    "distinct [mb_id status, sem_id sem, mb_id page]"
    by (rule app_okE [OF assms])
  have "sem_id sem \<noteq> mb_id status" using o(8) by auto
  from mail_send_ok [OF o(4,7,6) this, of v] obtain r mb' k' where
    "rt_mb_send status v (sys a) = Some (r, mb', k')" "mb_ok mb'" "kernel_inv k'" "sem_inv sem k'"
    "mb_id mb' = mb_id status" "mb_size mb' = mb_size status"
    "mb_abs mb' = (if length (mb_abs status) < mb_size status then mb_abs status @ [v] else mb_abs status)"
    "linked k' (Suspend (sem_id sem)) = linked (sys a) (Suspend (sem_id sem))"
    by blast
  then show ?thesis
    using o by (auto simp: send_status_def app_ok_def sem_inv_def status_queue_def page_queue_def on_tokens_def
        on_waiters_def mails_of_ten_def)
qed

text \<open>The application after its initialisation, for examples.\<close>

definition example_app :: app where
  "example_app = the (common_param_init (Some 1) (Some (replicate 10 0)) (Some 2) (Some 3) (Some (replicate 10 0))
     (app_reset (boot_kernel (\<lambda>_. 25))))"

lemma example_app_ok:
  "app_ok example_app" "mails_of_ten example_app" "page_queue example_app = []" "status_queue example_app = []"
  "on_tokens example_app = 0" "on_waiters example_app = []"
proof -
  have "kernel_inv (sys (app_reset (boot_kernel (\<lambda>_. 25))))" by (simp add: app_reset_def boot_kernel_inv)
  then obtain a' where "common_param_init (Some 1) (Some (replicate 10 0)) (Some 2) (Some 3) (Some (replicate 10 0))
      (app_reset (boot_kernel (\<lambda>_. 25))) = Some a'" "app_ok a'" "mails_of_ten a'" "page_queue a' = []"
    "status_queue a' = []" "on_tokens a' = 0" "sys a' = boot_kernel (\<lambda>_. 25)"
    using common_param_init_ok [of "app_reset (boot_kernel (\<lambda>_. 25))" 1 2 3 "replicate 10 0" "replicate 10 0"]
    by (auto simp: app_reset_def)
  then show "app_ok example_app" "mails_of_ten example_app" "page_queue example_app = []" "status_queue example_app = []"
    "on_tokens example_app = 0" "on_waiters example_app = []"
    by (auto simp: example_app_def on_waiters_def boot_kernel_def split: option.splits)
qed

end
