(* ===== verification/MqttApp.thy ===== *)
theory MqttApp
  imports CommonParam CLib
begin

text \<open>
  \<open>applications/mqtt.c\<close>: what the application does with the MQTT client.  The client itself
  (pahomqtt) and the JSON parser (cJSON, which is not part of the repository) are parameters:
  \<open>parse\<close>, \<open>item\<close> and \<open>print\<close> stand for \<open>cJSON_Parse\<close>, \<open>cJSON_GetObjectItem\<close> and \<open>cJSON_Print\<close>, the
  last one being null on a null item.  Calls to the client are values of type \<open>mqtt_call\<close>.
\<close>

section \<open>State\<close>

datatype mqtt_call =
    Start
  | Stop
  | Publish string string
  | Subscribe string
  | Unsubscribe string

record mqtt_client =
  uri :: string
  client_id :: string
  keep_alive :: nat
  clean_session :: bool
  username :: string
  password :: string
  will_message :: "string \<times> string"
  topic_filter :: string

record mqtt_ctx =
  client :: mqtt_client
  is_started :: bool
  is_first_time_online :: bool

definition MQTT_URI :: string where
  "MQTT_URI = ''tcp://AFP2CEYM1W.iotcloud.tencentdevices.com:1883''"

definition MQTT_SUBTOPIC :: string where "MQTT_SUBTOPIC = ''$thing/down/property/OJ2O020V2M/dev_001''"
definition MQTT_PUBTOPIC :: string where "MQTT_PUBTOPIC = ''$thing/up/property/OJ2O020V2M/dev_001''"
definition MQTT_WILLMSG :: string where "MQTT_WILLMSG = ''Goodbye!''"

section \<open>Incoming messages\<close>

text \<open>\<open>ctl_status\<close> is an unsigned char, \<open>page\<close> a 32-bit word.\<close>

definition turn_on_request :: "string option \<Rightarrow> app \<Rightarrow> app option" where
  "turn_on_request str a =
     (case str of
        None \<Rightarrow> Some a
      | Some s \<Rightarrow> (let ctl_status = word_of_int (atoi s) :: u8 in if ctl_status = 1 then release_computer_on a else Some a))"

definition page_request :: "string option \<Rightarrow> app \<Rightarrow> app option" where
  "page_request str a = (case str of None \<Rightarrow> Some a | Some s \<Rightarrow> send_page (word_of_int (atoi s)) a)"

text \<open>\<open>payload = readbuf + off\<close>: the callback ends the payload with a NUL of its own, in the client's
  read buffer.\<close>

definition mqtt_sub_callback ::
  "(string \<Rightarrow> 'j option) \<Rightarrow> ('j \<Rightarrow> string \<Rightarrow> 'j option) \<Rightarrow> ('j option \<Rightarrow> string option) \<Rightarrow>
     nat \<Rightarrow> nat \<Rightarrow> char list \<Rightarrow> app \<Rightarrow> (char list \<times> app) option" where
  "mqtt_sub_callback parse item print off payloadlen readbuf a =
     do { buf \<leftarrow> array_set (off + payloadlen) NUL readbuf;
          text \<leftarrow> c_string off buf;
          case parse text of
            None \<Rightarrow> Some (buf, a)
          | Some cjson_data \<Rightarrow>
              (case item cjson_data ''params'' of
                 None \<Rightarrow> Some (buf, a)
               | Some cparams \<Rightarrow>
                   do { a1 \<leftarrow> turn_on_request (print (item cparams ''turn_on'')) a;
                        a2 \<leftarrow> page_request (print (item cparams ''page'')) a1;
                        Some (buf, a2) }) }"

definition mqtt_sub_default_callback :: "nat \<Rightarrow> nat \<Rightarrow> char list \<Rightarrow> char list option" where
  "mqtt_sub_default_callback off payloadlen readbuf = array_set (off + payloadlen) NUL readbuf"

section \<open>Reports\<close>

definition quoted :: "string \<Rightarrow> string" where
  "quoted s = CHR 0x22 # s @ [CHR 0x22]"

definition report_text :: "string \<Rightarrow> string \<Rightarrow> string" where
  "report_text key v = ''{'' @ quoted ''method'' @ '':'' @ quoted ''report'' @ '','' @ quoted ''params'' @ '':{'' @
     quoted key @ '':'' @ v @ ''}}''"

definition mqtt_online_callback ::
  "char list \<Rightarrow> mqtt_ctx \<Rightarrow> app \<Rightarrow> (mqtt_call list \<times> mqtt_ctx \<times> app) option" where
  "mqtt_online_callback str m a =
     (let a1 = a\<lparr>is_online := 1\<rparr>
      in if \<not> is_first_time_online m
         then do { str' \<leftarrow> mem_store 0 (report_text ''page'' ''0'' @ [NUL]) str;
                   msg \<leftarrow> c_string 0 str';
                   Some ([Publish MQTT_PUBTOPIC msg], m\<lparr>is_first_time_online := True\<rparr>, a1) }
         else Some ([], m, a1))"

definition mqtt_offline_callback :: "app \<Rightarrow> app" where
  "mqtt_offline_callback a = a\<lparr>is_online := 0\<rparr>"

text \<open>\<open>rt_sprintf(str, "...%d...", status)\<close>: \<open>%d\<close> shows the unsigned status as a signed number.\<close>

definition status_text :: "u32 \<Rightarrow> string" where
  "status_text status = report_text ''status'' (dec_int (sint status))"

text \<open>
  The inner loop of \<open>status_report_thread\<close>, one pass per poll \<open>n\<close> of the two flags: it spins while the
  client is not started and sleeps a second when a report could not be delivered.  \<open>None\<close> is a loop
  that never ends, \<open>Some None\<close> one that writes out of bounds; otherwise the number of the last
  poll, of the seconds slept, and the text that was delivered.
\<close>

partial_function (option) report_loop ::
  "(nat \<Rightarrow> bool) \<Rightarrow> (nat \<Rightarrow> bool) \<Rightarrow> (nat \<Rightarrow> int) \<Rightarrow> u32 \<Rightarrow> char list \<Rightarrow> nat \<Rightarrow> nat \<Rightarrow>
     (nat \<times> nat \<times> string) option option" where
  "report_loop started online publish status str n sleeps =
     (if \<not> started n then report_loop started online publish status str (n + 1) sleeps
      else if online n
      then (case mem_store 0 (status_text status @ [NUL]) str of
              None \<Rightarrow> Some None
            | Some str' \<Rightarrow>
                if publish n = 0 then Some (Some (n, sleeps, status_text status))
                else report_loop started online publish status str' (n + 1) (sleeps + 1))
      else report_loop started online publish status str (n + 1) (sleeps + 1))"

text \<open>The mail the thread waits for.\<close>

definition status_report_recv :: "app \<Rightarrow> (outcome \<times> u32 option \<times> app) option" where
  "status_report_recv a =
     do { mb \<leftarrow> computer_status_mail a;
          (r, v, mb', k') \<leftarrow> rt_mb_recv mb (-1) (sys a);
          Some (r, v, a\<lparr>computer_status_mail := Some mb', sys := k'\<rparr>) }"

section \<open>Starting the client, and the shell commands\<close>

text \<open>\<open>bufs_ok\<close>: both buffers were allocated.\<close>

definition mqtt_start :: "u32 \<Rightarrow> bool \<Rightarrow> string \<Rightarrow> string \<Rightarrow> mqtt_ctx \<Rightarrow> int \<times> mqtt_call list \<times> mqtt_ctx" where
  "mqtt_start tick bufs_ok user_name passwd m =
     (if is_started m then (-1, [], m)
      else let cid = take 19 (''rtthread'' @ dec_int (sint tick));
               m1 = m\<lparr>client := (client m)\<lparr>uri := MQTT_URI, client_id := cid, keep_alive := 30, clean_session := True,
                        username := user_name, password := passwd, will_message := (MQTT_PUBTOPIC, MQTT_WILLMSG)\<rparr>\<rparr>
           in if \<not> bufs_ok then (-1, [], m1)
              else (0, [Start], m1\<lparr>client := (client m1)\<lparr>topic_filter := MQTT_SUBTOPIC\<rparr>, is_started := True\<rparr>))"

definition mqtt_stop :: "string list \<Rightarrow> mqtt_ctx \<Rightarrow> mqtt_call list \<times> mqtt_ctx" where
  "mqtt_stop argv m = ([Stop], m\<lparr>is_started := False\<rparr>)"

definition mqtt_publish :: "string list \<Rightarrow> mqtt_ctx \<Rightarrow> int \<times> mqtt_call list" where
  "mqtt_publish argv m =
     (if \<not> is_started m then (-1, [])
      else if length argv = 2 then (0, [Publish MQTT_PUBTOPIC (argv ! 1)])
      else if length argv = 3 then (0, [Publish (argv ! 1) (argv ! 2)])
      else (-1, []))"

text \<open>These two return what the client returns, \<open>rc\<close>.\<close>

definition mqtt_subscribe :: "int \<Rightarrow> string list \<Rightarrow> mqtt_ctx \<Rightarrow> int \<times> mqtt_call list" where
  "mqtt_subscribe rc argv m =
     (if length argv \<noteq> 2 then (-1, []) else if \<not> is_started m then (-1, []) else (rc, [Subscribe (argv ! 1)]))"

definition mqtt_unsubscribe :: "int \<Rightarrow> string list \<Rightarrow> mqtt_ctx \<Rightarrow> int \<times> mqtt_call list" where
  "mqtt_unsubscribe rc argv m =
     (if length argv \<noteq> 2 then (-1, []) else if \<not> is_started m then (-1, []) else (rc, [Unsubscribe (argv ! 1)]))"

section \<open>The report loop\<close>

lemma status_text_length: "41 \<le> length (status_text status)"
  using dec_int_nonempty [of "sint status"]
  by (simp add: status_text_def report_text_def quoted_def Suc_le_eq)

text \<open>Spinning and sleeping until the first poll at which the client is started and online.\<close>

lemma report_loop_skip:
  assumes "\<forall>i. n \<le> i \<and> i < n + d \<longrightarrow> \<not> (started i \<and> online i)"
  shows "report_loop started online publish status str n sleeps =
    report_loop started online publish status str (n + d) (sleeps + length (filter started [n..<n + d]))"
  using assms
proof (induction d arbitrary: n sleeps)
  case (Suc d)
  have n: "\<not> (started n \<and> online n)" using Suc.prems by simp
  have "[n..<n + Suc d] = n # [n + 1..<n + 1 + d]" by (simp add: upt_conv_Cons)
  moreover have "report_loop started online publish status str n sleeps =
      report_loop started online publish status str (n + 1) (if started n then sleeps + 1 else sleeps)"
    using n by (subst report_loop.simps) auto
  ultimately show ?case using Suc.IH [of "n + 1"] Suc.prems by (auto simp: add_ac)
qed simp

lemma report_loop_returns:
  assumes "report_loop started online publish status str n sleeps = Some r"
  shows "\<exists>i \<ge> n. started i \<and> online i"
proof (rule report_loop.raw_induct [where
      P = "\<lambda>started online publish status str n sleeps r. \<exists>i \<ge> n. started i \<and> online i", OF _ assms])
  fix f started online publish and status :: u32 and str and n sleeps :: nat and r
  assume ih: "\<And>started online publish status str n sleeps r.
      f started online publish status str n sleeps = Some r \<Longrightarrow> \<exists>i \<ge> n. started i \<and> online i"
    and body: "(if \<not> started n then f started online publish status str (n + 1) sleeps
      else if online n
      then (case mem_store 0 (status_text status @ [NUL]) str of
              None \<Rightarrow> Some None
            | Some str' \<Rightarrow>
                if publish n = 0 then Some (Some (n, sleeps, status_text status))
                else f started online publish status str' (n + 1) (sleeps + 1))
      else f started online publish status str (n + 1) (sleeps + 1)) = Some r"
  show "\<exists>i \<ge> n. started i \<and> online i"
  proof (cases "started n \<and> online n")
    case False
    then have "\<exists>i \<ge> n + 1. started i \<and> online i" using body ih by (auto split: if_splits)
    then show ?thesis by (meson add_leE)
  qed blast
qed

section \<open>The commands\<close>

text \<open>The text the parser is given: the payload up to its first NUL.\<close>

definition payload_text :: "nat \<Rightarrow> nat \<Rightarrow> char list \<Rightarrow> string" where
  "payload_text off payloadlen readbuf = takeWhile (\<lambda>c. c \<noteq> NUL) (take payloadlen (drop off readbuf))"

lemma payload_c_string:
  assumes "off + payloadlen < length readbuf"
  shows "c_string off (readbuf[off + payloadlen := NUL]) = Some (payload_text off payloadlen readbuf)"
proof -
  let ?p = "take payloadlen (drop off readbuf)" and ?r = "drop (off + payloadlen + 1) readbuf"
  have d: "drop off (readbuf[off + payloadlen := NUL]) = ?p @ NUL # ?r"
    using assms by (simp add: upd_conv_take_nth_drop drop_take)
  show ?thesis
  proof (cases "NUL \<in> set ?p")
    case True
    then obtain r where r: "?p = takeWhile (\<lambda>c. c \<noteq> NUL) ?p @ NUL # r" using split_at_NUL by blast
    show ?thesis
      unfolding payload_text_def
      by (rule c_stringI [of _ _ _ "r @ NUL # ?r"]) (use d r in \<open>metis append_Cons append_assoc\<close>, rule notin_takeWhile)
  next
    case False
    then show ?thesis
      unfolding payload_text_def using d by (simp add: takeWhile_neq_notin c_stringI)
  qed
qed

text \<open>What a request to switch the computer on does.\<close>

definition turn_on_effect :: "string option \<Rightarrow> app \<Rightarrow> app \<Rightarrow> bool" where
  "turn_on_effect t a a' \<longleftrightarrow>
     (case t of
        Some s \<Rightarrow>
          if atoi s mod 256 = 1
          then (if on_waiters a = [] then on_tokens a' = (on_tokens a + 1) mod 65536
                else on_tokens a' = on_tokens a \<and> on_waiters a' = tl (on_waiters a))
          else on_tokens a' = on_tokens a \<and> on_waiters a' = on_waiters a
      | None \<Rightarrow> on_tokens a' = on_tokens a \<and> on_waiters a' = on_waiters a)"

definition page_effect :: "string option \<Rightarrow> u32 list \<Rightarrow> u32 list" where
  "page_effect p pages =
     (case p of
        Some s \<Rightarrow> if length pages < 10 then pages @ [word_of_int (atoi s)] else pages
      | None \<Rightarrow> pages)"

lemma byte_is_one: "(word_of_int i = (1 :: u8)) = (i mod 256 = 1)"
  by transfer (simp add: take_bit_eq_mod)

lemma turn_on_ok:
  assumes "app_ok a" and "mails_of_ten a"
  shows "\<exists>a'. turn_on_request t a = Some a' \<and> app_ok a' \<and> mails_of_ten a' \<and> status_queue a' = status_queue a \<and>
    page_queue a' = page_queue a \<and> turn_on_effect t a a'"
  using assms release_computer_on_ok [OF assms(1)]
  by (auto simp: turn_on_request_def turn_on_effect_def byte_is_one Let_def split: option.splits if_splits)

lemma page_ok:
  assumes "app_ok a" and "mails_of_ten a"
  shows "\<exists>a'. page_request p a = Some a' \<and> app_ok a' \<and> mails_of_ten a' \<and> status_queue a' = status_queue a \<and>
    on_tokens a' = on_tokens a \<and> on_waiters a' = on_waiters a \<and> page_queue a' = page_effect p (page_queue a)"
proof (cases p)
  case None
  then show ?thesis using assms by (simp add: page_request_def page_effect_def)
next
  case (Some s)
  then show ?thesis
    using send_page_ok [OF assms(1), of "word_of_int (atoi s)"] assms(2)
    by (auto simp: page_request_def page_effect_def)
qed

lemma command_ok:
  assumes "app_ok a" and "mails_of_ten a" and "off + payloadlen < length readbuf"
    and "parse (payload_text off payloadlen readbuf) = Some j" and "item j ''params'' = Some ps"
  shows "\<exists>a'. mqtt_sub_callback parse item print off payloadlen readbuf a =
      Some (readbuf[off + payloadlen := NUL], a') \<and> app_ok a' \<and> status_queue a' = status_queue a \<and>
    turn_on_effect (print (item ps ''turn_on'')) a a' \<and>
    page_queue a' = page_effect (print (item ps ''page'')) (page_queue a)"
proof -
  obtain a1 where a1: "turn_on_request (print (item ps ''turn_on'')) a = Some a1" "app_ok a1" "mails_of_ten a1"
    "status_queue a1 = status_queue a" "page_queue a1 = page_queue a" "turn_on_effect (print (item ps ''turn_on'')) a a1"
    using turn_on_ok [OF assms(1,2)] by blast
  obtain a2 where a2: "page_request (print (item ps ''page'')) a1 = Some a2" "app_ok a2"
    "status_queue a2 = status_queue a1" "on_tokens a2 = on_tokens a1" "on_waiters a2 = on_waiters a1"
    "page_queue a2 = page_effect (print (item ps ''page'')) (page_queue a1)"
    using page_ok [OF a1(2,3)] by blast
  have "mqtt_sub_callback parse item print off payloadlen readbuf a = Some (readbuf[off + payloadlen := NUL], a2)"
    using assms(3-5) a1(1) a2(1) payload_c_string [OF assms(3)]
    by (simp add: mqtt_sub_callback_def array_set_def)
  then show ?thesis using a1 a2 by (auto simp: turn_on_effect_def split: option.splits if_splits)
qed

section \<open>Properties\<close>


text \<open>A message format for examples: a pair of printed values, the parameters under any name.\<close>

definition toy_parse :: "string \<Rightarrow> (string \<times> string) option" where
  "toy_parse s = (case s of [a, b] \<Rightarrow> Some ([a], [b]) | _ \<Rightarrow> None)"

definition toy_item :: "string \<times> string \<Rightarrow> string \<Rightarrow> (string \<times> string) option" where
  "toy_item j key = Some (if key = ''turn_on'' then (fst j, []) else if key = ''page'' then (snd j, []) else j)"

definition toy_print :: "(string \<times> string) option \<Rightarrow> string option" where
  "toy_print j = map_option fst j"


text \<open>The status report never leaves the device: at the first poll that finds the client
  started and connected, formatting the report writes past the end of its 40-byte array, whatever
  the status is, and until such a poll the loop goes on without ever returning.\<close>

theorem status_report_overflows:
  assumes "length str = 40"
  shows "report_loop started online publish status str n sleeps =
    (if \<exists>i \<ge> n. started i \<and> online i then Some None else None)"
proof (cases "\<exists>i \<ge> n. started i \<and> online i")
  case True
  define m where "m = (LEAST i. n \<le> i \<and> started i \<and> online i)"
  have m: "n \<le> m \<and> started m \<and> online m" unfolding m_def by (rule LeastI_ex) (use True in blast)
  have "\<forall>i. n \<le> i \<and> i < n + (m - n) \<longrightarrow> \<not> (started i \<and> online i)"
    using m not_less_Least unfolding m_def by auto
  then have "report_loop started online publish status str n sleeps =
      report_loop started online publish status str m (sleeps + length (filter started [n..<m]))"
    using report_loop_skip [of n "m - n"] m by simp
  also have "\<dots> = Some None"
    using m assms status_text_length [of status] by (subst report_loop.simps) (simp add: mem_store_def)
  finally show ?thesis using True by simp
next
  case False
  then show ?thesis
    using report_loop_returns [of started online publish status str n sleeps]
    by (cases "report_loop started online publish status str n sleeps") auto
qed

theorem status_report_overflows_witness:
  "report_loop (\<lambda>n. n \<ge> 2) (\<lambda>n. True) (\<lambda>n. 0) 1 (replicate 40 NUL) 0 0 = Some None"
  using status_report_overflows [of "replicate 40 NUL"] by auto

end
