(* ===== verification/Pipe.thy ===== *)
theory Pipe
  imports RingBuffer
begin

text \<open>
  \<open>rt-thread/components/drivers/src/pipe.c\<close>: the pipe device, a ring buffer of bytes between descriptors, through
  which the MQTT client's callers reach its thread.  An operation on a descriptor that may wait is cut at
  \<open>rt_wqueue_wait\<close>: \<open>Waiting r\<close> is what it has done so far, and its next pass begins there.  The mutex that
  each operation holds makes a pass atomic.  Wake-ups of the two waiting queues are results.
\<close>

section \<open>State\<close>

record pipe =
  fifo :: "char ringbuffer option"
  bufsz :: nat
  readers :: u8
  writers :: u8
  ref_count :: u8
  is_named :: bool

datatype access_mode = O_RDONLY | O_WRONLY | O_RDWR
datatype wakeup = Wake_reader | Wake_writer
datatype 'r progress = Done 'r | Waiting 'r
datatype poll_flag = POLLIN | POLLOUT | POLLERR | POLLHUP
datatype pipe_cmd = FIONREAD | FIONWRITE | Other_cmd

abbreviation (input) RT_ENOMEM :: int where "RT_ENOMEM \<equiv> 5"
abbreviation (input) EAGAIN :: int where "EAGAIN \<equiv> 11"
abbreviation (input) ENODEV :: int where "ENODEV \<equiv> 19"
abbreviation (input) EINVAL :: int where "EINVAL \<equiv> 22"
abbreviation (input) EPIPE :: int where "EPIPE \<equiv> 32"

definition can_read :: "access_mode \<Rightarrow> bool" where "can_read m \<longleftrightarrow> m \<noteq> O_WRONLY"
definition can_write :: "access_mode \<Rightarrow> bool" where "can_write m \<longleftrightarrow> m \<noteq> O_RDONLY"

section \<open>Creating and deleting\<close>

text \<open>\<open>mem_ok\<close>, \<open>registered\<close>: what the allocation and the registration of the device gave.\<close>

definition rt_pipe_create :: "bool \<Rightarrow> bool \<Rightarrow> nat \<Rightarrow> pipe option option" where
  "rt_pipe_create mem_ok registered sz =
     (if \<not> mem_ok then Some None
      else if sz < 65535
      then Some (if registered
                 then Some \<lparr>fifo = None, bufsz = sz, readers = 0, writers = 0, ref_count = 0, is_named = True\<rparr>
                 else None)
      else None)"

text \<open>The pipe found under the name, if there is one, and what is left of it.\<close>

definition rt_pipe_delete :: "pipe option \<Rightarrow> int \<times> pipe option" where
  "rt_pipe_delete found =
     (case found of
        None \<Rightarrow> (- ENODEV, None)
      | Some p \<Rightarrow> if ref_count p \<noteq> 0 then (- RT_EBUSY, Some p) else (0, None))"

text \<open>The device interface.\<close>

definition rt_pipe_open :: "bool \<Rightarrow> char list option \<Rightarrow> pipe \<Rightarrow> (int \<times> pipe) option" where
  "rt_pipe_open rb_ok pool p =
     (if fifo p = None
      then do { f \<leftarrow> rb_create (bufsz p) rb_ok pool;
                Some (if f = None then - RT_ENOMEM else RT_EOK, p\<lparr>fifo := f\<rparr>) }
      else Some (RT_EOK, p))"

definition rt_pipe_close :: "pipe \<Rightarrow> int \<times> pipe" where
  "rt_pipe_close p = (RT_EOK, if ref_count p = 1 then p\<lparr>fifo := None\<rparr> else p)"

function rt_pipe_read :: "nat \<Rightarrow> pipe \<Rightarrow> (string \<times> pipe) option" where
  "rt_pipe_read n p =
     (if n = 0 then Some ([], p)
      else do { rb \<leftarrow> fifo p;
                (rb', xs) \<leftarrow> rb_get rb n;
                if xs = [] then Some ([], p\<lparr>fifo := Some rb'\<rparr>)
                else do { (ys, p') \<leftarrow> rt_pipe_read (n - length xs) (p\<lparr>fifo := Some rb'\<rparr>); Some (xs @ ys, p') } })"
  by pat_completeness auto
termination by (relation "measure fst") auto

function rt_pipe_write :: "string \<Rightarrow> pipe \<Rightarrow> (nat \<times> pipe) option" where
  "rt_pipe_write xs p =
     (if xs = [] then Some (0, p)
      else do { rb \<leftarrow> fifo p;
                (rb', n) \<leftarrow> rb_put rb xs;
                if n = 0 then Some (0, p\<lparr>fifo := Some rb'\<rparr>)
                else do { (m, p') \<leftarrow> rt_pipe_write (drop n xs) (p\<lparr>fifo := Some rb'\<rparr>); Some (n + m, p') } })"
  by pat_completeness auto
termination by (relation "measure (\<lambda>(xs, p). length xs)") auto

declare rt_pipe_read.simps [simp del] rt_pipe_write.simps [simp del]

section \<open>Descriptors\<close>

definition pipe_fops_open :: "access_mode \<Rightarrow> bool \<Rightarrow> char list option \<Rightarrow> pipe \<Rightarrow> (int \<times> pipe) option" where
  "pipe_fops_open m rb_ok pool p =
     do { p1 \<leftarrow> (if ref_count p = 0
                 then do { f \<leftarrow> rb_create (bufsz p) rb_ok pool; Some (p\<lparr>fifo := f\<rparr>) }
                 else Some p);
          if ref_count p = 0 \<and> fifo p1 = None then Some (- RT_ENOMEM, p1)
          else Some (0, p1\<lparr>readers := (if can_read m then readers p1 + 1 else readers p1),
                          writers := (if can_write m then writers p1 + 1 else writers p1),
                          ref_count := ref_count p1 + 1\<rparr>) }"

definition pipe_fops_close :: "access_mode \<Rightarrow> pipe \<Rightarrow> int \<times> wakeup list \<times> pipe option" where
  "pipe_fops_close m p =
     (let p1 = p\<lparr>readers := (if can_read m then readers p - 1 else readers p),
                 writers := (if can_write m then writers p - 1 else writers p)\<rparr>;
          wakes = (if writers p1 = 0 then [Wake_reader] else []) @ (if readers p1 = 0 then [Wake_writer] else []);
          p2 = (if ref_count p1 = 1 then p1\<lparr>fifo := None\<rparr> else p1);
          p3 = p2\<lparr>ref_count := ref_count p2 - 1\<rparr>
      in (0, wakes, if ref_count p3 = 0 \<and> \<not> is_named p3 then snd (rt_pipe_delete (Some p3)) else Some p3))"

definition pipe_fops_ioctl :: "pipe_cmd \<Rightarrow> pipe \<Rightarrow> (int \<times> nat option) option" where
  "pipe_fops_ioctl cmd p =
     (case cmd of
        FIONREAD \<Rightarrow> do { rb \<leftarrow> fifo p; Some (0, Some (rb_data_len rb)) }
      | FIONWRITE \<Rightarrow> do { rb \<leftarrow> fifo p; Some (0, Some (rb_space_len rb)) }
      | Other_cmd \<Rightarrow> Some (- EINVAL, None))"

definition read_pass :: "bool \<Rightarrow> nat \<Rightarrow> pipe \<Rightarrow> ((int \<times> string) progress \<times> wakeup list \<times> pipe) option" where
  "read_pass nonblock count p =
     (if writers p = 0 then Some (Done (0, []), [], p)
      else do { rb \<leftarrow> fifo p;
                (rb', xs) \<leftarrow> rb_get rb count;
                let p' = p\<lparr>fifo := Some rb'\<rparr>;
                Some (if xs \<noteq> [] then (Done (int (length xs), xs), [Wake_writer], p')
                      else if nonblock then (Done (- EAGAIN, []), [], p')
                      else (Waiting (0, []), [Wake_writer], p')) })"

definition pipe_fops_read :: "bool \<Rightarrow> nat \<Rightarrow> pipe \<Rightarrow> ((int \<times> string) progress \<times> wakeup list \<times> pipe) option" where
  "pipe_fops_read nonblock count p =
     (if writers p = 0 then Some (Done (0, []), [], p) else read_pass nonblock count p)"

text \<open>\<open>ret\<close>: how much of the data has been written; \<open>woken\<close>: an earlier pass has tried to write.\<close>

definition write_pass :: "bool \<Rightarrow> string \<Rightarrow> bool \<Rightarrow> int \<Rightarrow> pipe \<Rightarrow> (int progress \<times> wakeup list \<times> pipe) option" where
  "write_pass nonblock xs woken ret p =
     (if readers p = 0 then Some (Done (if ret = 0 then - EPIPE else ret), if woken then [Wake_reader] else [], p)
      else do { rb \<leftarrow> fifo p;
                (rb', len) \<leftarrow> rb_put rb (drop (nat ret) xs);
                let p' = p\<lparr>fifo := Some rb'\<rparr>;
                let ret' = ret + int len;
                Some (if ret' = int (length xs) then Done ret'
                      else if nonblock then Done (if ret' = 0 then - EAGAIN else ret')
                      else Waiting ret', [Wake_reader], p') })"

definition pipe_fops_write :: "bool \<Rightarrow> string \<Rightarrow> pipe \<Rightarrow> (int progress \<times> wakeup list \<times> pipe) option" where
  "pipe_fops_write nonblock xs p =
     (if readers p = 0 then Some (Done (- EPIPE), [], p)
      else if xs = [] then Some (Done 0, [], p)
      else write_pass nonblock xs False 0 p)"

definition pipe_fops_poll :: "access_mode \<Rightarrow> pipe \<Rightarrow> poll_flag list option" where
  "pipe_fops_poll m p =
     do { rb \<leftarrow> fifo p;
          Some ((if can_read m
                 then (if rb_data_len rb \<noteq> 0 then [POLLIN] else []) @ (if writers p = 0 then [POLLHUP] else [])
                 else []) @
                (if can_write m
                 then (if rb_space_len rb \<noteq> 0 then [POLLOUT] else []) @ (if readers p = 0 then [POLLERR] else [])
                 else [])) }"

section \<open>The pipe as a stream of bytes\<close>

definition pipe_ok :: "pipe \<Rightarrow> bool" where
  "pipe_ok p \<longleftrightarrow> (case fifo p of None \<Rightarrow> False | Some rb \<Rightarrow> rb_inv rb) \<and> readers p \<noteq> 0 \<and> writers p \<noteq> 0"

definition pipe_bytes :: "pipe \<Rightarrow> string" where
  "pipe_bytes p = (case fifo p of None \<Rightarrow> [] | Some rb \<Rightarrow> rb_abs rb)"

definition pipe_size :: "pipe \<Rightarrow> nat" where
  "pipe_size p = (case fifo p of None \<Rightarrow> 0 | Some rb \<Rightarrow> buffer_size rb)"

text \<open>The contract of a byte stream of bounded capacity whose writer appends what there is room for and whose
  reader takes from the front.\<close>

locale byte_stream =
  fixes bytes :: "'q \<Rightarrow> string"
    and valid :: "'q \<Rightarrow> bool"
    and capacity :: "'q \<Rightarrow> nat"
    and write_some :: "string \<Rightarrow> 'q \<Rightarrow> (nat \<times> 'q) option"
    and read_some :: "nat \<Rightarrow> 'q \<Rightarrow> (string \<times> 'q) option"
  assumes fits: "valid q \<Longrightarrow> length (bytes q) \<le> capacity q"
    and write_law: "valid q \<Longrightarrow> \<exists>q'. write_some xs q = Some (min (length xs) (capacity q - length (bytes q)), q') \<and>
      valid q' \<and> capacity q' = capacity q \<and> bytes q' = bytes q @ take (capacity q - length (bytes q)) xs"
    and read_law: "valid q \<Longrightarrow> \<exists>q'. read_some n q = Some (take n (bytes q), q') \<and>
      valid q' \<and> capacity q' = capacity q \<and> bytes q' = drop n (bytes q)"
begin

text \<open>The writers of the stream each send messages in turn; what they write is, while there is room, the
  concatenation of the messages, and a read takes all of it, whatever the boundaries of the messages are.\<close>

fun write_all :: "string list \<Rightarrow> 'q \<Rightarrow> 'q option" where
  "write_all [] q = Some q"
| "write_all (m # ms) q = do { (_, q') \<leftarrow> write_some m q; write_all ms q' }"

lemma write_all_ok:
  assumes "valid q" and "length (bytes q) + length (concat ms) \<le> capacity q"
  shows "\<exists>q'. write_all ms q = Some q' \<and> valid q' \<and> capacity q' = capacity q \<and> bytes q' = bytes q @ concat ms"
  using assms
proof (induction ms arbitrary: q)
  case (Cons m ms)
  obtain q' where q': "write_some m q = Some (min (length m) (capacity q - length (bytes q)), q')" "valid q'"
      "capacity q' = capacity q" "bytes q' = bytes q @ take (capacity q - length (bytes q)) m"
    using write_law [OF Cons.prems(1)] by blast
  then show ?case using Cons.IH [OF q'(2)] Cons.prems(2) by simp
qed simp

lemma messages_merge:
  assumes "valid q" and "bytes q = []" and "length (concat ms) \<le> capacity q" and "length (concat ms) \<le> n"
  shows "\<exists>q1 q2. write_all ms q = Some q1 \<and> read_some n q1 = Some (concat ms, q2) \<and> valid q2 \<and>
    capacity q2 = capacity q \<and> bytes q2 = []"
proof -
  obtain q1 where q1: "write_all ms q = Some q1" "valid q1" "capacity q1 = capacity q" "bytes q1 = concat ms"
    using write_all_ok [OF assms(1)] assms(2,3) by auto
  then show ?thesis using read_law [OF q1(2), of n] assms(4) by auto
qed

end

text \<open>What one pass does to the stream.\<close>

definition pipe_write_some :: "string \<Rightarrow> pipe \<Rightarrow> (nat \<times> pipe) option" where
  "pipe_write_some xs p =
     do { (r, _, p') \<leftarrow> write_pass False xs False 0 p; Some (nat (case r of Done n \<Rightarrow> n | Waiting n \<Rightarrow> n), p') }"

definition pipe_read_some :: "nat \<Rightarrow> pipe \<Rightarrow> (string \<times> pipe) option" where
  "pipe_read_some n p =
     do { (r, _, p') \<leftarrow> read_pass False n p; Some (snd (case r of Done x \<Rightarrow> x | Waiting x \<Rightarrow> x), p') }"

lemma pipe_okE:
  assumes "pipe_ok p"
  obtains rb where "fifo p = Some rb" "rb_inv rb" "pipe_bytes p = rb_abs rb" "pipe_size p = buffer_size rb"
    "readers p \<noteq> 0" "writers p \<noteq> 0" "rb_space_len rb = pipe_size p - length (pipe_bytes p)"
  using assms by (auto simp: pipe_ok_def pipe_bytes_def pipe_size_def rb_space_len_def split: option.splits)

lemma write_pass_eq:
  assumes "pipe_ok p" and "k \<le> length xs"
  shows "\<exists>p'. write_pass nonblock xs woken (int k) p =
      Some (let n = k + min (length xs - k) (pipe_size p - length (pipe_bytes p)) in
            if n = length xs then Done (int n) else if nonblock then Done (if n = 0 then - EAGAIN else int n) else Waiting (int n),
            [Wake_reader], p') \<and>
    pipe_ok p' \<and> pipe_size p' = pipe_size p \<and>
    pipe_bytes p' = pipe_bytes p @ take (pipe_size p - length (pipe_bytes p)) (drop k xs)"
proof -
  obtain rb where rb: "fifo p = Some rb" "rb_inv rb" "pipe_bytes p = rb_abs rb" "pipe_size p = buffer_size rb"
    "readers p \<noteq> 0" "writers p \<noteq> 0" "rb_space_len rb = pipe_size p - length (pipe_bytes p)"
    by (rule pipe_okE [OF assms(1)])
  obtain rb' where rb': "rb_put rb (drop k xs) = Some (rb', min (length (drop k xs)) (rb_space_len rb))" "rb_inv rb'"
      "buffer_size rb' = buffer_size rb" "rb_abs rb' = rb_abs rb @ take (rb_space_len rb) (drop k xs)"
    using rb_put_eq [OF rb(2)] by blast
  have "write_pass nonblock xs woken (int k) p =
      Some (let n = k + min (length xs - k) (pipe_size p - length (pipe_bytes p)) in
            if n = length xs then Done (int n) else if nonblock then Done (if n = 0 then - EAGAIN else int n) else Waiting (int n),
            [Wake_reader], p\<lparr>fifo := Some rb'\<rparr>)"
    using rb rb'(1) by (simp add: write_pass_def Let_def flip: of_nat_add)
  then show ?thesis using rb rb' by (simp add: pipe_ok_def pipe_bytes_def pipe_size_def)
qed

lemma read_pass_eq:
  assumes "pipe_ok p"
  shows "\<exists>p'. read_pass nonblock n p =
      Some (if take n (pipe_bytes p) \<noteq> [] then (Done (int (length (take n (pipe_bytes p))), take n (pipe_bytes p)), [Wake_writer], p')
            else if nonblock then (Done (- EAGAIN, []), [], p') else (Waiting (0, []), [Wake_writer], p')) \<and>
    pipe_ok p' \<and> pipe_size p' = pipe_size p \<and> pipe_bytes p' = drop n (pipe_bytes p)"
proof -
  obtain rb where rb: "fifo p = Some rb" "rb_inv rb" "pipe_bytes p = rb_abs rb" "pipe_size p = buffer_size rb"
    "readers p \<noteq> 0" "writers p \<noteq> 0" "rb_space_len rb = pipe_size p - length (pipe_bytes p)"
    by (rule pipe_okE [OF assms])
  obtain rb' where rb': "rb_get rb n = Some (rb', take n (rb_abs rb))" "rb_inv rb'" "buffer_size rb' = buffer_size rb"
      "rb_abs rb' = drop n (rb_abs rb)"
    using rb_get_eq [OF rb(2)] by blast
  then show ?thesis
    using rb by (intro exI [of _ "p\<lparr>fifo := Some rb'\<rparr>"])
      (auto simp: read_pass_def Let_def pipe_ok_def pipe_bytes_def pipe_size_def)
qed

interpretation pipe_stream: byte_stream pipe_bytes pipe_ok pipe_size pipe_write_some pipe_read_some
proof unfold_locales
  fix q :: pipe and xs n
  assume q: "pipe_ok q"
  then obtain rb where "rb_inv rb" "pipe_bytes q = rb_abs rb" "pipe_size q = buffer_size rb" by (rule pipe_okE)
  then show "length (pipe_bytes q) \<le> pipe_size q" by (simp add: rb_data_len_le)
  show "\<exists>q'. pipe_write_some xs q = Some (min (length xs) (pipe_size q - length (pipe_bytes q)), q') \<and> pipe_ok q' \<and>
      pipe_size q' = pipe_size q \<and> pipe_bytes q' = pipe_bytes q @ take (pipe_size q - length (pipe_bytes q)) xs"
    using write_pass_eq [OF q, of 0 xs False False] by (auto simp: pipe_write_some_def Let_def)
  show "\<exists>q'. pipe_read_some n q = Some (take n (pipe_bytes q), q') \<and> pipe_ok q' \<and>
      pipe_size q' = pipe_size q \<and> pipe_bytes q' = drop n (pipe_bytes q)"
    using read_pass_eq [OF q, of False n] by (auto simp: pipe_read_some_def)
qed

section \<open>Properties\<close>

text \<open>A writer of a long block and a reader that takes \<open>n\<close> bytes whenever the writer waits: what the reader gets, and
  the pipe at the end.\<close>

partial_function (option) transfer :: "nat \<Rightarrow> string \<Rightarrow> bool \<Rightarrow> int \<Rightarrow> pipe \<Rightarrow> (string list \<times> int \<times> pipe) option" where
  "transfer n xs woken ret p =
     Option.bind (write_pass False xs woken ret p) (\<lambda>(r, _, p1).
       case r of
         Done len \<Rightarrow> Some ([], len, p1)
       | Waiting len \<Rightarrow>
           Option.bind (pipe_read_some n p1) (\<lambda>(ys, p2).
             Option.bind (transfer n xs True len p2) (\<lambda>(out, k, p3). Some (ys # out, k, p3))))"

lemma transfer_ends:
  assumes "pipe_ok p" and "0 < n" and "0 < pipe_size p" and "k \<le> length xs"
  shows "\<exists>out p'. transfer n xs woken (int k) p = Some (out, int (length xs), p') \<and> pipe_ok p' \<and>
    pipe_size p' = pipe_size p \<and> concat out @ pipe_bytes p' = pipe_bytes p @ drop k xs"
  using assms
proof (induction "2 * (length xs - k) + length (pipe_bytes p)" arbitrary: k p woken rule: less_induct)
  case less
  let ?room = "pipe_size p - length (pipe_bytes p)"
  obtain p1 where p1: "write_pass False xs woken (int k) p =
      Some (let m = k + min (length xs - k) ?room in if m = length xs then Done (int m) else Waiting (int m), [Wake_reader], p1)"
      "pipe_ok p1" "pipe_size p1 = pipe_size p" "pipe_bytes p1 = pipe_bytes p @ take ?room (drop k xs)"
    using write_pass_eq [OF less.prems(1,4), of False woken] by (simp only: if_False) blast
  show ?case
  proof (cases "length xs - k \<le> ?room")
    case True
    then have "transfer n xs woken (int k) p = Some ([], int (length xs), p1)"
      using p1(1) less.prems(4) by (simp add: transfer.simps [of n xs woken "int k" p] Let_def)
    then show ?thesis using p1 True by simp
  next
    case False
    obtain p2 where p2: "pipe_read_some n p1 = Some (take n (pipe_bytes p1), p2)" "pipe_ok p2" "pipe_size p2 = pipe_size p1"
        "pipe_bytes p2 = drop n (pipe_bytes p1)"
      using pipe_stream.read_law [OF p1(2)] by blast
    have full: "length (pipe_bytes p1) = pipe_size p"
      using False pipe_stream.fits [OF less.prems(1)] p1(4) by simp
    have m: "2 * (length xs - (k + ?room)) + length (pipe_bytes p2) < 2 * (length xs - k) + length (pipe_bytes p)"
      using False full p2(4) less.prems(2,3) pipe_stream.fits [OF less.prems(1)] by simp
    have le: "k + ?room \<le> length xs" using False by simp
    have pos: "0 < pipe_size p2" using less.prems(3) p1(3) p2(3) by simp
    obtain out p' where out: "transfer n xs True (int (k + ?room)) p2 = Some (out, int (length xs), p')" "pipe_ok p'"
        "pipe_size p' = pipe_size p2" "concat out @ pipe_bytes p' = pipe_bytes p2 @ drop (k + ?room) xs"
      using less.hyps [OF m p2(2) less.prems(2) pos le] by blast
    have "transfer n xs woken (int k) p = Some (take n (pipe_bytes p1) # out, int (length xs), p')"
      using p1(1) p2(1) out(1) False by (simp add: transfer.simps [of n xs woken "int k" p] Let_def min_def)
    moreover have "take ?room (drop k xs) @ drop (k + ?room) xs = drop k xs"
      by (metis add.commute append_take_drop_id drop_drop)
    then have "take n (pipe_bytes p1) @ concat out @ pipe_bytes p' = pipe_bytes p @ drop k xs"
      unfolding out(4) p2(4) using p1(4) by (metis append.assoc append_take_drop_id)
    ultimately show ?thesis using out(2,3) p1(3) p2(3) by (intro exI conjI) (assumption | simp)+
  qed
qed

definition example_pipe :: pipe where
  "example_pipe = \<lparr>fifo = Some \<lparr>buffer_ptr = ''abcd'', read_mirror = False, read_index = 1, write_mirror = False, write_index = 3,
     buffer_size = 4\<rparr>, bufsz = 4, readers = 1, writers = 1, ref_count = 2, is_named = True\<rparr>"

lemma example_pipe_ok: "pipe_ok example_pipe" "pipe_size example_pipe = 4" "pipe_bytes example_pipe = ''bc''"
  by (simp_all add: pipe_ok_def pipe_size_def pipe_bytes_def example_pipe_def rb_inv_def rb_abs_def rb_data_len_def
      rb_status_def ring_slice_def upt_conv_Cons)



end
