(* ===== verification/MqttPacket.thy ===== *)
theory MqttPacket
  imports CLib
begin

text \<open>
  The packets of MQTT 3.1.1 as the client writes and reads them: \<open>MQTTPacket.c\<close>,
  \<open>MQTTSerializePublish.c\<close>, \<open>MQTTDeserializePublish.c\<close>, \<open>MQTTConnectClient.c\<close>, \<open>MQTTSubscribeClient.c\<close> and
  \<open>MQTTUnsubscribeClient.c\<close> of \<open>packages/pahomqtt-v1.1.0/MQTTPacket/src\<close>.  A buffer is the list of its bytes; the
  write pointer of a serializer is an offset that travels with the buffer, and a byte written or
  read outside it is \<open>None\<close>.  The length of the buffer is the \<open>buflen\<close> of the code.
\<close>

section \<open>Bytes\<close>

definition byte :: "nat \<Rightarrow> char" where
  "byte n = char_of n"

lemma code_byte [simp]: "char_code (byte n) = n mod 256"
  by (simp add: byte_def char_code_def)

lemma byte_code [simp]: "byte (char_code c) = c"
  by (simp add: byte_def char_code_def)

lemma code_less [simp]: "char_code c < 256"
  by (simp add: char_code_def)

lemma byte_eq_iff: "byte m = byte n \<longleftrightarrow> m mod 256 = n mod 256"
  by (metis code_byte byte_code byte_def char_of_mod_256)

abbreviation (input) MQTTPACKET_BUFFER_TOO_SHORT :: int where "MQTTPACKET_BUFFER_TOO_SHORT \<equiv> -2"
abbreviation (input) MQTTPACKET_READ_ERROR :: int where "MQTTPACKET_READ_ERROR \<equiv> -1"

abbreviation (input) CONNECT :: nat where "CONNECT \<equiv> 1"
abbreviation (input) CONNACK :: nat where "CONNACK \<equiv> 2"
abbreviation (input) PUBLISH :: nat where "PUBLISH \<equiv> 3"
abbreviation (input) PUBACK :: nat where "PUBACK \<equiv> 4"
abbreviation (input) PUBREC :: nat where "PUBREC \<equiv> 5"
abbreviation (input) PUBREL :: nat where "PUBREL \<equiv> 6"
abbreviation (input) PUBCOMP :: nat where "PUBCOMP \<equiv> 7"
abbreviation (input) SUBSCRIBE :: nat where "SUBSCRIBE \<equiv> 8"
abbreviation (input) SUBACK :: nat where "SUBACK \<equiv> 9"
abbreviation (input) UNSUBSCRIBE :: nat where "UNSUBSCRIBE \<equiv> 10"
abbreviation (input) UNSUBACK :: nat where "UNSUBACK \<equiv> 11"
abbreviation (input) PINGREQ :: nat where "PINGREQ \<equiv> 12"
abbreviation (input) PINGRESP :: nat where "PINGRESP \<equiv> 13"
abbreviation (input) DISCONNECT :: nat where "DISCONNECT \<equiv> 14"

section \<open>The fixed header\<close>

text \<open>The bit fields of \<open>MQTTHeader\<close>, from the low end: retain, qos (2), dup, type (4).\<close>

definition header_byte :: "nat \<Rightarrow> nat \<Rightarrow> nat \<Rightarrow> nat \<Rightarrow> char" where
  "header_byte ty dup qos retain = byte (ty mod 16 * 16 + dup mod 2 * 8 + qos mod 4 * 2 + retain mod 2)"

definition header_type :: "char \<Rightarrow> nat" where "header_type c = char_code c div 16"
definition header_dup :: "char \<Rightarrow> nat" where "header_dup c = char_code c div 8 mod 2"
definition header_qos :: "char \<Rightarrow> nat" where "header_qos c = char_code c div 2 mod 4"
definition header_retain :: "char \<Rightarrow> nat" where "header_retain c = char_code c mod 2"

fun MQTTPacket_encode :: "nat \<Rightarrow> string" where
  "MQTTPacket_encode len =
     (if len div 128 > 0 then byte (len mod 128 + 128) # MQTTPacket_encode (len div 128) else [byte (len mod 128)])"

declare MQTTPacket_encode.simps [simp del]

text \<open>\<open>MQTTPacket_decode\<close>: \<open>get\<close> reads a character, or fails; the first argument counts the bytes still
  allowed, \<open>MAX_NO_OF_REMAINING_LENGTH_BYTES\<close> at first. The results are \<open>len\<close> and \<open>*value\<close>.\<close>

fun MQTTPacket_decode ::
  "nat \<Rightarrow> ('s \<Rightarrow> (char option \<times> 's) option) \<Rightarrow> nat \<Rightarrow> nat \<Rightarrow> nat \<Rightarrow> 's \<Rightarrow> (nat \<times> nat \<times> 's) option" where
  "MQTTPacket_decode 0 get len multiplier value s = Some (len + 1, value, s)"
| "MQTTPacket_decode (Suc n) get len multiplier value s =
     do { (c, s') \<leftarrow> get s;
          case c of
            None \<Rightarrow> Some (len + 1, value, s')
          | Some c \<Rightarrow>
              let value' = value + char_code c mod 128 * multiplier
              in if char_code c div 128 \<noteq> 0 then MQTTPacket_decode n get (len + 1) (multiplier * 128) value' s'
                 else Some (len + 1, value', s') }"

definition bufchar :: "char list \<Rightarrow> nat \<Rightarrow> (char option \<times> nat) option" where
  "bufchar buf ptr = do { c \<leftarrow> mem_load ptr 1 buf; Some (Some (hd c), ptr + 1) }"

definition MQTTPacket_decodeBuf :: "char list \<Rightarrow> nat \<Rightarrow> (nat \<times> nat) option" where
  "MQTTPacket_decodeBuf buf ptr =
     do { (len, value, _) \<leftarrow> MQTTPacket_decode 4 (bufchar buf) 0 1 0 ptr; Some (len, value) }"

definition MQTTPacket_len :: "nat \<Rightarrow> nat" where
  "MQTTPacket_len rem_len =
     (let r = rem_len + 1
      in if r < 128 then r + 1 else if r < 16384 then r + 2 else if r < 2097151 then r + 3 else r + 4)"

section \<open>Writing and reading fields\<close>

definition put :: "string \<Rightarrow> nat \<times> char list \<Rightarrow> (nat \<times> char list) option" where
  "put xs s = do { buf \<leftarrow> mem_store (fst s) xs (snd s); Some (fst s + length xs, buf) }"

definition writeChar :: "char \<Rightarrow> nat \<times> char list \<Rightarrow> (nat \<times> char list) option" where
  "writeChar c s = put [c] s"

definition writeInt :: "nat \<Rightarrow> nat \<times> char list \<Rightarrow> (nat \<times> char list) option" where
  "writeInt n s = do { s1 \<leftarrow> put [byte (n div 256)] s; put [byte (n mod 256)] s1 }"

definition writeCString :: "string \<Rightarrow> nat \<times> char list \<Rightarrow> (nat \<times> char list) option" where
  "writeCString string s = do { s1 \<leftarrow> writeInt (length string) s; put string s1 }"

text \<open>An \<open>MQTTString\<close>: a C string, or the bytes \<open>lenstring\<close> points to.\<close>

record MQTTString =
  cstring :: "string option"
  lenstring :: string

definition writeMQTTString :: "MQTTString \<Rightarrow> nat \<times> char list \<Rightarrow> (nat \<times> char list) option" where
  "writeMQTTString mqttstring s =
     (if length (lenstring mqttstring) > 0
      then do { s1 \<leftarrow> writeInt (length (lenstring mqttstring)) s; put (lenstring mqttstring) s1 }
      else case cstring mqttstring of Some c \<Rightarrow> writeCString c s | None \<Rightarrow> writeInt 0 s)"

definition MQTTstrlen :: "MQTTString \<Rightarrow> nat" where
  "MQTTstrlen mqttstring = (case cstring mqttstring of Some c \<Rightarrow> length c | None \<Rightarrow> length (lenstring mqttstring))"

definition MQTTPacket_equals :: "MQTTString \<Rightarrow> string \<Rightarrow> bool" where
  "MQTTPacket_equals a b =
     (let aptr = (case cstring a of Some c \<Rightarrow> c | None \<Rightarrow> lenstring a)
      in length aptr = length b \<and> take (length aptr) aptr = take (length aptr) b)"

definition readInt :: "char list \<Rightarrow> nat \<Rightarrow> (nat \<times> nat) option" where
  "readInt buf ptr = do { xs \<leftarrow> mem_load ptr 2 buf; Some (256 * char_code (xs ! 0) + char_code (xs ! 1), ptr + 2) }"

definition readChar :: "char list \<Rightarrow> nat \<Rightarrow> (char \<times> nat) option" where
  "readChar buf ptr = do { xs \<leftarrow> mem_load ptr 1 buf; Some (hd xs, ptr + 1) }"

text \<open>\<open>readMQTTLenString\<close>: the string, if there is one before \<open>enddata\<close>, and the pointer.\<close>

definition readMQTTLenString :: "char list \<Rightarrow> nat \<Rightarrow> nat \<Rightarrow> (MQTTString option \<times> nat) option" where
  "readMQTTLenString buf ptr enddata =
     (if enddata > ptr + 1
      then do { (len, p) \<leftarrow> readInt buf ptr;
                if p + len \<le> enddata
                then do { xs \<leftarrow> mem_load p len buf; Some (Some \<lparr>cstring = None, lenstring = xs\<rparr>, p + len) }
                else Some (None, p) }
      else Some (None, ptr))"

section \<open>Serializers\<close>

text \<open>Each returns what the code returns and the buffer; \<open>BUFFER_TOO_SHORT\<close> leaves it as it was.\<close>

definition serialized :: "(nat \<times> char list) option \<Rightarrow> (int \<times> char list) option" where
  "serialized r = do { (ptr, buf) \<leftarrow> r; Some (int ptr, buf) }"

definition MQTTSerialize_publishLength :: "nat \<Rightarrow> MQTTString \<Rightarrow> nat \<Rightarrow> nat" where
  "MQTTSerialize_publishLength qos topicName payloadlen =
     2 + MQTTstrlen topicName + payloadlen + (if qos > 0 then 2 else 0)"

definition MQTTSerialize_publish ::
  "char list \<Rightarrow> nat \<Rightarrow> nat \<Rightarrow> nat \<Rightarrow> nat \<Rightarrow> MQTTString \<Rightarrow> string \<Rightarrow> (int \<times> char list) option" where
  "MQTTSerialize_publish buf dup qos retained packetid topicName payload =
     (let rem_len = MQTTSerialize_publishLength qos topicName (length payload)
      in if MQTTPacket_len rem_len > length buf then Some (MQTTPACKET_BUFFER_TOO_SHORT, buf)
         else serialized (do {
           s1 \<leftarrow> writeChar (header_byte PUBLISH dup qos retained) (0, buf);
           s2 \<leftarrow> put (MQTTPacket_encode rem_len) s1;
           s3 \<leftarrow> writeMQTTString topicName s2;
           s4 \<leftarrow> (if qos > 0 then writeInt packetid s3 else Some s3);
           put payload s4 }))"

definition MQTTSerialize_ack :: "char list \<Rightarrow> nat \<Rightarrow> nat \<Rightarrow> nat \<Rightarrow> (int \<times> char list) option" where
  "MQTTSerialize_ack buf packettype dup packetid =
     (if length buf < 4 then Some (MQTTPACKET_BUFFER_TOO_SHORT, buf)
      else serialized (do {
        s1 \<leftarrow> writeChar (header_byte packettype dup (if packettype = PUBREL then 1 else 0) 0) (0, buf);
        s2 \<leftarrow> put (MQTTPacket_encode 2) s1;
        writeInt packetid s2 }))"

definition MQTTSerialize_zero :: "char list \<Rightarrow> nat \<Rightarrow> (int \<times> char list) option" where
  "MQTTSerialize_zero buf packettype =
     (if length buf < 2 then Some (MQTTPACKET_BUFFER_TOO_SHORT, buf)
      else serialized (do { s1 \<leftarrow> writeChar (header_byte packettype 0 0 0) (0, buf); put (MQTTPacket_encode 0) s1 }))"

definition MQTTSerialize_disconnect :: "char list \<Rightarrow> (int \<times> char list) option" where
  "MQTTSerialize_disconnect buf = MQTTSerialize_zero buf DISCONNECT"

definition MQTTSerialize_pingreq :: "char list \<Rightarrow> (int \<times> char list) option" where
  "MQTTSerialize_pingreq buf = MQTTSerialize_zero buf PINGREQ"

definition MQTTSerialize_subscribeLength :: "MQTTString list \<Rightarrow> nat" where
  "MQTTSerialize_subscribeLength topicFilters = 2 + sum_list (map (\<lambda>f. 2 + MQTTstrlen f + 1) topicFilters)"

text \<open>The loop over filters and requested qualities of service.\<close>

fun write_filters :: "(MQTTString \<times> nat) list \<Rightarrow> nat \<times> char list \<Rightarrow> (nat \<times> char list) option" where
  "write_filters [] s = Some s"
| "write_filters ((f, q) # fs) s =
     do { s1 \<leftarrow> writeMQTTString f s; s2 \<leftarrow> writeChar (byte q) s1; write_filters fs s2 }"

definition MQTTSerialize_subscribe ::
  "char list \<Rightarrow> nat \<Rightarrow> nat \<Rightarrow> (MQTTString \<times> nat) list \<Rightarrow> (int \<times> char list) option" where
  "MQTTSerialize_subscribe buf dup packetid filters =
     (let rem_len = MQTTSerialize_subscribeLength (map fst filters)
      in if MQTTPacket_len rem_len > length buf then Some (MQTTPACKET_BUFFER_TOO_SHORT, buf)
         else serialized (do {
           s1 \<leftarrow> writeChar (header_byte SUBSCRIBE dup 1 0) (0, buf);
           s2 \<leftarrow> put (MQTTPacket_encode rem_len) s1;
           s3 \<leftarrow> writeInt packetid s2;
           write_filters filters s3 }))"

definition MQTTSerialize_unsubscribeLength :: "MQTTString list \<Rightarrow> nat" where
  "MQTTSerialize_unsubscribeLength topicFilters = 2 + sum_list (map (\<lambda>f. 2 + MQTTstrlen f) topicFilters)"

definition MQTTSerialize_unsubscribe :: "char list \<Rightarrow> nat \<Rightarrow> nat \<Rightarrow> MQTTString list \<Rightarrow> (int \<times> char list) option" where
  "MQTTSerialize_unsubscribe buf dup packetid filters =
     (let rem_len = MQTTSerialize_unsubscribeLength filters
      in if MQTTPacket_len rem_len > length buf then Some (MQTTPACKET_BUFFER_TOO_SHORT, buf)
         else serialized (do {
           s1 \<leftarrow> writeChar (header_byte UNSUBSCRIBE dup 1 0) (0, buf);
           s2 \<leftarrow> put (MQTTPacket_encode rem_len) s1;
           s3 \<leftarrow> writeInt packetid s2;
           for_each filters writeMQTTString s3 }))"

record MQTTPacket_connectData =
  MQTTVersion :: nat
  clientID :: MQTTString
  keepAliveInterval :: nat
  cleansession :: nat
  willFlag :: nat
  will_topicName :: MQTTString
  will_msg :: MQTTString
  will_retained :: nat
  will_qos :: nat
  conn_username :: MQTTString
  conn_password :: MQTTString

text \<open>A string is given when it has either representation.\<close>

definition given :: "MQTTString \<Rightarrow> bool" where
  "given s \<longleftrightarrow> cstring s \<noteq> None \<or> lenstring s \<noteq> []"

definition MQTTSerialize_connectLength :: "MQTTPacket_connectData \<Rightarrow> nat" where
  "MQTTSerialize_connectLength options =
     (if MQTTVersion options = 3 then 12 else if MQTTVersion options = 4 then 10 else 0) +
     (MQTTstrlen (clientID options) + 2) +
     (if willFlag options \<noteq> 0 then MQTTstrlen (will_topicName options) + 2 + (MQTTstrlen (will_msg options) + 2) else 0) +
     (if given (conn_username options) then MQTTstrlen (conn_username options) + 2 else 0) +
     (if given (conn_password options) then MQTTstrlen (conn_password options) + 2 else 0)"

text \<open>The bit fields of \<open>MQTTConnectFlags\<close>, from the low end: unused, clean session, will, will qos (2), will
  retain, password, user name.\<close>

definition connect_flags :: "MQTTPacket_connectData \<Rightarrow> char" where
  "connect_flags options =
     byte (cleansession options mod 2 * 2 +
       (if willFlag options \<noteq> 0 then 4 + will_qos options mod 4 * 8 + will_retained options mod 2 * 32 else 0) +
       (if given (conn_password options) then 64 else 0) + (if given (conn_username options) then 128 else 0))"

definition MQTTSerialize_connect :: "char list \<Rightarrow> MQTTPacket_connectData \<Rightarrow> (int \<times> char list) option" where
  "MQTTSerialize_connect buf options =
     (let len = MQTTSerialize_connectLength options
      in if MQTTPacket_len len > length buf then Some (MQTTPACKET_BUFFER_TOO_SHORT, buf)
         else serialized (do {
           s1 \<leftarrow> writeChar (header_byte CONNECT 0 0 0) (0, buf);
           s2 \<leftarrow> put (MQTTPacket_encode len) s1;
           s3 \<leftarrow> (if MQTTVersion options = 4
                  then do { s \<leftarrow> writeCString ''MQTT'' s2; writeChar (byte 4) s }
                  else do { s \<leftarrow> writeCString ''MQIsdp'' s2; writeChar (byte 3) s });
           s4 \<leftarrow> writeChar (connect_flags options) s3;
           s5 \<leftarrow> writeInt (keepAliveInterval options) s4;
           s6 \<leftarrow> writeMQTTString (clientID options) s5;
           s7 \<leftarrow> (if willFlag options \<noteq> 0
                  then do { s \<leftarrow> writeMQTTString (will_topicName options) s6; writeMQTTString (will_msg options) s }
                  else Some s6);
           s8 \<leftarrow> (if given (conn_username options) then writeMQTTString (conn_username options) s7 else Some s7);
           (if given (conn_password options) then writeMQTTString (conn_password options) s8 else Some s8) }))"

section \<open>Deserializers\<close>

text \<open>What the code returns, and the results that it stores through its pointer arguments; a result that is not
  stored on a path is \<open>None\<close>. The return value is first the number of bytes of the length field, and a
  path that leaves early returns that. \<open>payloadlen\<close> is \<open>enddata - curdata\<close>, an integer.\<close>

record publish_data =
  pub_flags :: "(nat \<times> nat \<times> nat) option"
  pub_packetid :: "nat option"
  pub_topic :: "MQTTString option"
  pub_payload :: "(nat \<times> int) option"

definition MQTTDeserialize_publish :: "char list \<Rightarrow> (int \<times> publish_data) option" where
  "MQTTDeserialize_publish buf =
     do { (h, p1) \<leftarrow> readChar buf 0;
          let d0 = \<lparr>pub_flags = None, pub_packetid = None, pub_topic = None, pub_payload = None\<rparr>;
          if header_type h \<noteq> PUBLISH then Some (0, d0)
          else do {
            let d1 = d0\<lparr>pub_flags := Some (header_dup h, header_qos h, header_retain h)\<rparr>;
            (rc, mylen) \<leftarrow> MQTTPacket_decodeBuf buf p1;
            let p2 = p1 + rc;
            let enddata = p2 + mylen;
            (topic, p3) \<leftarrow> readMQTTLenString buf p2 enddata;
            if topic = None \<or> enddata < p3 then Some (int rc, d1\<lparr>pub_topic := topic\<rparr>)
            else do {
              (pid, p4) \<leftarrow> (if header_qos h > 0 then do { (i, p) \<leftarrow> readInt buf p3; Some (Some i, p) } else Some (None, p3));
              Some (1, d1\<lparr>pub_topic := topic, pub_packetid := pid, pub_payload := Some (p4, int enddata - int p4)\<rparr>) } } }"

definition MQTTDeserialize_ack :: "char list \<Rightarrow> (int \<times> nat \<times> nat \<times> nat option) option" where
  "MQTTDeserialize_ack buf =
     do { (h, p1) \<leftarrow> readChar buf 0;
          (rc, mylen) \<leftarrow> MQTTPacket_decodeBuf buf p1;
          if mylen < 2 then Some (int rc, header_type h, header_dup h, None)
          else do { (i, _) \<leftarrow> readInt buf (p1 + rc); Some (1, header_type h, header_dup h, Some i) } }"

definition MQTTDeserialize_unsuback :: "char list \<Rightarrow> (int \<times> nat option) option" where
  "MQTTDeserialize_unsuback buf =
     do { (rc, ty, _, i) \<leftarrow> MQTTDeserialize_ack buf; Some (if ty = UNSUBACK then 1 else rc, i) }"

definition MQTTDeserialize_connack :: "char list \<Rightarrow> (int \<times> (nat \<times> nat) option) option" where
  "MQTTDeserialize_connack buf =
     do { (h, p1) \<leftarrow> readChar buf 0;
          if header_type h \<noteq> CONNACK then Some (0, None)
          else do {
            (rc, mylen) \<leftarrow> MQTTPacket_decodeBuf buf p1;
            if mylen < 2 then Some (int rc, None)
            else do { (flags, p2) \<leftarrow> readChar buf (p1 + rc);
                      (code, _) \<leftarrow> readChar buf p2;
                      Some (1, Some (char_code flags div 128, char_code code)) } } }"

text \<open>The loop of \<open>MQTTDeserialize_suback\<close>: \<open>count\<close> codes are in the caller's array \<open>grantedQoSs\<close>; a store outside
  it is \<open>None\<close>, \<open>Some None\<close> the return of -1.\<close>

function suback_loop :: "char list \<Rightarrow> nat \<Rightarrow> nat \<Rightarrow> nat \<Rightarrow> nat \<Rightarrow> int list \<Rightarrow> int list option option" where
  "suback_loop buf curdata enddata maxcount count granted =
     (if curdata < enddata
      then if count > maxcount then Some None
           else do { (c, p) \<leftarrow> readChar buf curdata;
                     g \<leftarrow> array_set count (int (char_code c)) granted;
                     suback_loop buf (curdata + 1) enddata maxcount (count + 1) g }
      else Some (Some granted))"
  by pat_completeness auto
termination by (relation "measure (\<lambda>(buf, curdata, enddata, maxcount, count, granted). enddata - curdata)") auto

declare suback_loop.simps [simp del]

definition MQTTDeserialize_suback :: "char list \<Rightarrow> nat \<Rightarrow> int list \<Rightarrow> (int \<times> int list) option" where
  "MQTTDeserialize_suback buf maxcount granted =
     do { (h, p1) \<leftarrow> readChar buf 0;
          if header_type h \<noteq> SUBACK then Some (0, granted)
          else do {
            (rc, mylen) \<leftarrow> MQTTPacket_decodeBuf buf p1;
            if mylen < 2 then Some (int rc, granted)
            else do { (_, p2) \<leftarrow> readInt buf (p1 + rc);
                      r \<leftarrow> suback_loop buf p2 (p1 + rc + mylen) maxcount 0 granted;
                      case r of None \<Rightarrow> Some (-1, granted) | Some g \<Rightarrow> Some (1, g) } } }"

section \<open>What the serializers write\<close>

text \<open>The wire format of the parts, and the rule that a write of \<open>xs\<close> at the pointer appends \<open>xs\<close>.\<close>

definition int_bytes :: "nat \<Rightarrow> string" where
  "int_bytes n = [byte (n div 256), byte (n mod 256)]"

definition utf_bytes :: "string \<Rightarrow> string" where
  "utf_bytes xs = int_bytes (length xs) @ xs"

text \<open>The string an \<open>MQTTString\<close> denotes; in a proper one the two representations do not disagree.\<close>

definition string_of :: "MQTTString \<Rightarrow> string" where
  "string_of s = (case cstring s of Some c \<Rightarrow> c | None \<Rightarrow> lenstring s)"

definition proper_string :: "MQTTString \<Rightarrow> bool" where
  "proper_string s \<longleftrightarrow> cstring s = None \<or> lenstring s = []"

lemma MQTTstrlen_eq: "MQTTstrlen s = length (string_of s)"
  by (simp add: MQTTstrlen_def string_of_def split: option.split)

text \<open>\<open>written n xs buf s\<close>: the state after \<open>xs\<close> has been written from the start.\<close>

definition after :: "string \<Rightarrow> char list \<Rightarrow> nat \<times> char list" where
  "after xs buf = (length xs, xs @ drop (length xs) buf)"

named_theorems wire_simps \<open>writing to the front of a buffer\<close>

lemma put_after [wire_simps]:
  "length xs + length ys \<le> length buf \<Longrightarrow> put ys (after xs buf) = Some (after (xs @ ys) buf)"
  by (simp add: put_def after_def mem_store_def add.commute)

lemma after_Nil: "(0, buf) = after [] buf"
  by (simp add: after_def)

lemma writeChar_after [wire_simps]:
  "length xs + 1 \<le> length buf \<Longrightarrow> writeChar c (after xs buf) = Some (after (xs @ [c]) buf)"
  by (simp add: writeChar_def put_after)

lemma length_int_bytes [simp]: "length (int_bytes n) = 2"
  by (simp add: int_bytes_def)

lemma length_utf_bytes [simp]: "length (utf_bytes xs) = 2 + length xs"
  by (simp add: utf_bytes_def)

lemma writeInt_after [wire_simps]:
  "length xs + 2 \<le> length buf \<Longrightarrow> writeInt n (after xs buf) = Some (after (xs @ int_bytes n) buf)"
  by (simp add: writeInt_def put_after int_bytes_def)

lemma writeCString_after [wire_simps]:
  "length xs + 2 + length ys \<le> length buf \<Longrightarrow> writeCString ys (after xs buf) = Some (after (xs @ utf_bytes ys) buf)"
  by (simp add: writeCString_def writeInt_after put_after utf_bytes_def)

lemma writeMQTTString_after [wire_simps]:
  "proper_string s \<Longrightarrow> length xs + 2 + length (string_of s) \<le> length buf \<Longrightarrow>
   writeMQTTString s (after xs buf) = Some (after (xs @ utf_bytes (string_of s)) buf)"
  by (cases "cstring s")
    (auto simp: writeMQTTString_def writeInt_after put_after writeCString_after utf_bytes_def string_of_def proper_string_def)

section \<open>The length field\<close>

lemma encode_step:
  "MQTTPacket_encode n =
     (if 128 \<le> n then byte (n mod 128 + 128) # MQTTPacket_encode (n div 128) else [byte n])"
  by (subst MQTTPacket_encode.simps) (auto simp: div_greater_zero_iff)

lemma length_encode_le: "n < 128 ^ Suc k \<Longrightarrow> length (MQTTPacket_encode n) \<le> Suc k"
proof (induction k arbitrary: n)
  case (Suc k)
  have "n div 128 < 128 ^ Suc k" using Suc.prems by (simp add: less_mult_imp_div_less mult.commute)
  then show ?case using Suc.IH by (simp add: encode_step [of n])
qed (simp add: encode_step)

lemma MQTTPacket_len_enough:
  "n < 268435456 \<Longrightarrow> 1 + length (MQTTPacket_encode n) + n \<le> MQTTPacket_len n"
  using length_encode_le [of n 0] length_encode_le [of n 1] length_encode_le [of n 2] length_encode_le [of n 3]
  by (auto simp: MQTTPacket_len_def Let_def)

lemma bufchar_Some: "drop p buf = c # r \<Longrightarrow> bufchar buf p = Some (Some c, p + 1)"
proof -
  assume d: "drop p buf = c # r"
  then have "p < length buf" by (metis drop_all leI list.distinct(1))
  then show ?thesis using d by (simp add: bufchar_def mem_load_def take_Suc)
qed

lemma decode_encode:
  assumes "drop p buf = MQTTPacket_encode n @ r" and "n < 128 ^ k" and "0 < k"
  shows "MQTTPacket_decode k (bufchar buf) len mult v p =
    Some (len + length (MQTTPacket_encode n), v + n * mult, p + length (MQTTPacket_encode n))"
  using assms
proof (induction k arbitrary: p n len mult v)
  case (Suc k)
  show ?case
  proof (cases "128 \<le> n")
    case False
    then have "bufchar buf p = Some (Some (byte n), p + 1)"
      using bufchar_Some [of p buf "byte n" r] Suc.prems(1) by (simp add: encode_step)
    then show ?thesis using False by (simp add: encode_step)
  next
    case True
    then have d: "drop p buf = byte (n mod 128 + 128) # MQTTPacket_encode (n div 128) @ r"
      using Suc.prems(1) by (simp add: encode_step [of n])
    then have b: "bufchar buf p = Some (Some (byte (n mod 128 + 128)), p + 1)" by (rule bufchar_Some)
    have d': "drop (p + 1) buf = MQTTPacket_encode (n div 128) @ r"
      using arg_cong [OF d, of tl] by (simp add: drop_Suc tl_drop)
    have "0 < k" using True Suc.prems(2) by (cases k) auto
    moreover have "n div 128 < 128 ^ k" using Suc.prems(2) by (simp add: less_mult_imp_div_less mult.commute)
    ultimately have "MQTTPacket_decode k (bufchar buf) (len + 1) (mult * 128) (v + n mod 128 * mult) (p + 1) =
      Some (len + 1 + length (MQTTPacket_encode (n div 128)), v + n mod 128 * mult + n div 128 * (mult * 128),
        p + 1 + length (MQTTPacket_encode (n div 128)))"
      using Suc.IH [OF d'] by blast
    moreover have "(n mod 128 + 128) mod 256 = n mod 128 + 128" "(n mod 128 + 128) div 128 = 1" by simp_all
    moreover have "v + n mod 128 * mult + n div 128 * (mult * 128) = v + n * mult"
      using mod_div_mult_eq [of n 128] by (metis add.assoc add_mult_distrib mult.assoc mult.commute)
    ultimately show ?thesis using b True by (simp add: encode_step [of n] Let_def)
  qed
qed simp

lemma decodeBuf_encode:
  assumes "drop p buf = MQTTPacket_encode n @ r" and "n < 268435456"
  shows "MQTTPacket_decodeBuf buf p = Some (length (MQTTPacket_encode n), n)"
  using decode_encode [OF assms(1), of 4 0 1 0] assms(2) by (simp add: MQTTPacket_decodeBuf_def)

section \<open>Packets\<close>

text \<open>A packet: the header byte, the length field and the rest.\<close>

definition packet :: "char \<Rightarrow> string \<Rightarrow> string" where
  "packet h body = h # MQTTPacket_encode (length body) @ body"

lemma length_packet: "length body < 268435456 \<Longrightarrow> length (packet h body) \<le> MQTTPacket_len (length body)"
  using MQTTPacket_len_enough [of "length body"] by (simp add: packet_def)

definition publish_body :: "nat \<Rightarrow> nat \<Rightarrow> string \<Rightarrow> string \<Rightarrow> string" where
  "publish_body qos packetid topic payload = utf_bytes topic @ (if qos > 0 then int_bytes packetid else []) @ payload"

definition subscribe_body :: "nat \<Rightarrow> (MQTTString \<times> nat) list \<Rightarrow> string" where
  "subscribe_body packetid filters =
     int_bytes packetid @ concat (map (\<lambda>(f, q). utf_bytes (string_of f) @ [byte q]) filters)"

definition unsubscribe_body :: "nat \<Rightarrow> MQTTString list \<Rightarrow> string" where
  "unsubscribe_body packetid filters = int_bytes packetid @ concat (map (\<lambda>f. utf_bytes (string_of f)) filters)"

definition connect_body :: "MQTTPacket_connectData \<Rightarrow> string" where
  "connect_body options =
     utf_bytes ''MQTT'' @ [byte 4, connect_flags options] @ int_bytes (keepAliveInterval options) @
     utf_bytes (string_of (clientID options)) @
     (if willFlag options \<noteq> 0
      then utf_bytes (string_of (will_topicName options)) @ utf_bytes (string_of (will_msg options)) else []) @
     (if given (conn_username options) then utf_bytes (string_of (conn_username options)) else []) @
     (if given (conn_password options) then utf_bytes (string_of (conn_password options)) else [])"

definition proper_options :: "MQTTPacket_connectData \<Rightarrow> bool" where
  "proper_options options \<longleftrightarrow> MQTTVersion options = 4 \<and>
     proper_string (clientID options) \<and> proper_string (will_topicName options) \<and> proper_string (will_msg options) \<and>
     proper_string (conn_username options) \<and> proper_string (conn_password options)"

lemma serialized_after: "serialized (Some (after xs buf)) = Some (int (length xs), xs @ drop (length xs) buf)"
  by (simp add: serialized_def after_def)

text \<open>Too long a packet is refused; any other is written to the front of the buffer.\<close>

definition delivers :: "(int \<times> char list) option \<Rightarrow> char list \<Rightarrow> char \<Rightarrow> string \<Rightarrow> bool" where
  "delivers r buf h body \<longleftrightarrow>
     r = (if MQTTPacket_len (length body) > length buf then Some (MQTTPACKET_BUFFER_TOO_SHORT, buf)
          else Some (int (length (packet h body)), packet h body @ drop (length (packet h body)) buf))"

lemma publish_delivers:
  assumes "proper_string topic" and "length (publish_body qos packetid (string_of topic) payload) < 268435456"
  shows "delivers (MQTTSerialize_publish buf dup qos retained packetid topic payload) buf
    (header_byte PUBLISH dup qos retained) (publish_body qos packetid (string_of topic) payload)"
proof -
  let ?body = "publish_body qos packetid (string_of topic) payload"
  have l: "MQTTSerialize_publishLength qos topic (length payload) = length ?body"
    by (simp add: MQTTSerialize_publishLength_def MQTTstrlen_eq publish_body_def)
  have "length (packet (header_byte PUBLISH dup qos retained) ?body) \<le> length buf"
    if "MQTTPacket_len (length ?body) \<le> length buf"
    using length_packet [OF assms(2), of "header_byte PUBLISH dup qos retained"] that by linarith
  then show ?thesis
    unfolding delivers_def MQTTSerialize_publish_def l after_Nil
    using assms(1) by (auto simp: packet_def publish_body_def wire_simps serialized_after Let_def)
qed

lemma write_filters_after:
  "\<forall>(f, q) \<in> set filters. proper_string f \<Longrightarrow>
   length xs + length (concat (map (\<lambda>(f, q). utf_bytes (string_of f) @ [byte q]) filters)) \<le> length buf \<Longrightarrow>
   write_filters filters (after xs buf) =
     Some (after (xs @ concat (map (\<lambda>(f, q). utf_bytes (string_of f) @ [byte q]) filters)) buf)"
  by (induction filters arbitrary: xs rule: list.induct) (auto simp: wire_simps)

lemma subscribe_delivers:
  assumes "\<forall>(f, q) \<in> set filters. proper_string f" and "length (subscribe_body packetid filters) < 268435456"
  shows "delivers (MQTTSerialize_subscribe buf dup packetid filters) buf
    (header_byte SUBSCRIBE dup 1 0) (subscribe_body packetid filters)"
proof -
  let ?body = "subscribe_body packetid filters"
  have l: "MQTTSerialize_subscribeLength (map fst filters) = length ?body"
    by (simp add: MQTTSerialize_subscribeLength_def MQTTstrlen_eq subscribe_body_def length_concat o_def
        split_def comp_def)
  have "length (packet (header_byte SUBSCRIBE dup 1 0) ?body) \<le> length buf"
    if "MQTTPacket_len (length ?body) \<le> length buf"
    using length_packet [OF assms(2), of "header_byte SUBSCRIBE dup 1 0"] that by linarith
  then show ?thesis
    unfolding delivers_def MQTTSerialize_subscribe_def l after_Nil
    using assms(1) by (auto simp: packet_def subscribe_body_def wire_simps write_filters_after serialized_after Let_def)
qed

lemma connect_delivers:
  assumes "proper_options options" and "length (connect_body options) < 268435456"
  shows "delivers (MQTTSerialize_connect buf options) buf (header_byte CONNECT 0 0 0) (connect_body options)"
proof -
  let ?body = "connect_body options"
  have l: "MQTTSerialize_connectLength options = length ?body"
    using assms(1) by (simp add: MQTTSerialize_connectLength_def MQTTstrlen_eq connect_body_def proper_options_def)
  have "length (packet (header_byte CONNECT 0 0 0) ?body) \<le> length buf"
    if "MQTTPacket_len (length ?body) \<le> length buf"
    using length_packet [OF assms(2), of "header_byte CONNECT 0 0 0"] that by linarith
  then show ?thesis
    unfolding delivers_def MQTTSerialize_connect_def l after_Nil
    using assms(1)
    by (auto simp: packet_def connect_body_def wire_simps serialized_after Let_def proper_options_def)
qed

lemma unsubscribe_delivers:
  assumes "\<forall>f \<in> set filters. proper_string f" and "length (unsubscribe_body packetid filters) < 268435456"
  shows "delivers (MQTTSerialize_unsubscribe buf dup packetid filters) buf
    (header_byte UNSUBSCRIBE dup 1 0) (unsubscribe_body packetid filters)"
proof -
  let ?body = "unsubscribe_body packetid filters"
  have l: "MQTTSerialize_unsubscribeLength filters = length ?body"
    by (simp add: MQTTSerialize_unsubscribeLength_def MQTTstrlen_eq unsubscribe_body_def length_concat comp_def)
  have f: "for_each filters writeMQTTString (after xs buf) =
      Some (after (xs @ concat (map (\<lambda>f. utf_bytes (string_of f)) filters)) buf)"
    if "length xs + length (concat (map (\<lambda>f. utf_bytes (string_of f)) filters)) \<le> length buf" for xs
    using assms(1) that by (induction filters arbitrary: xs) (auto simp: wire_simps)
  have "length (packet (header_byte UNSUBSCRIBE dup 1 0) ?body) \<le> length buf"
    if "MQTTPacket_len (length ?body) \<le> length buf"
    using length_packet [OF assms(2), of "header_byte UNSUBSCRIBE dup 1 0"] that by linarith
  then show ?thesis
    unfolding delivers_def MQTTSerialize_unsubscribe_def l after_Nil
    by (auto simp: packet_def unsubscribe_body_def wire_simps f serialized_after Let_def)
qed

lemma encode_small: "n < 128 \<Longrightarrow> MQTTPacket_encode n = [byte n]"
  by (simp add: encode_step)

lemma ack_delivers:
  "MQTTSerialize_ack buf packettype dup packetid =
     (if length buf < 4 then Some (MQTTPACKET_BUFFER_TOO_SHORT, buf)
      else Some (4, packet (header_byte packettype dup (if packettype = PUBREL then 1 else 0) 0) (int_bytes packetid) @ drop 4 buf))"
  unfolding MQTTSerialize_ack_def after_Nil
  by (auto simp: packet_def wire_simps serialized_after encode_small)

lemma zero_delivers:
  "MQTTSerialize_zero buf packettype =
     (if length buf < 2 then Some (MQTTPACKET_BUFFER_TOO_SHORT, buf)
      else Some (2, packet (header_byte packettype 0 0 0) [] @ drop 2 buf))"
  unfolding MQTTSerialize_zero_def after_Nil
  by (auto simp: packet_def wire_simps serialized_after encode_small numeral_2_eq_2)

section \<open>Reading the parts\<close>

lemma drop_shift: "drop p buf = xs @ r \<Longrightarrow> drop (p + length xs) buf = r"
  by (metis add.commute append_eq_conv_conj drop_drop)

lemma drop_fits: "drop p buf = xs @ r \<Longrightarrow> xs \<noteq> [] \<Longrightarrow> p + length xs \<le> length buf"
proof -
  assume d: "drop p buf = xs @ r" and "xs \<noteq> []"
  have "length (drop p buf) = length (xs @ r)" unfolding d ..
  then have "length buf - p = length xs + length r" by (simp only: length_drop length_append)
  moreover have "0 < length xs" using \<open>xs \<noteq> []\<close> by simp
  ultimately show ?thesis by linarith
qed

lemma mem_load_at: "drop p buf = xs @ r \<Longrightarrow> p + length xs \<le> length buf \<Longrightarrow> mem_load p (length xs) buf = Some xs"
  by (simp add: mem_load_def)

lemma readChar_at: "drop p buf = c # r \<Longrightarrow> readChar buf p = Some (c, p + 1)"
  using drop_fits [of p buf "[c]" r] by (simp add: readChar_def mem_load_def take_Suc)

lemma readInt_at:
  assumes "drop p buf = int_bytes n @ r" and "n < 65536"
  shows "readInt buf p = Some (n, p + 2)"
proof -
  have "mem_load p 2 buf = Some (int_bytes n)"
    using mem_load_at [OF assms(1)] drop_fits [OF assms(1)] by (simp add: int_bytes_def numeral_2_eq_2)
  moreover have "n div 256 < 256" using assms(2) by (simp add: less_mult_imp_div_less)
  ultimately show ?thesis by (simp add: readInt_def int_bytes_def)
qed

lemma readMQTTLenString_at:
  assumes "drop p buf = utf_bytes xs @ r" and "length xs < 65536" and "p + 2 + length xs \<le> enddata"
  shows "readMQTTLenString buf p enddata = Some (Some \<lparr>cstring = None, lenstring = xs\<rparr>, p + 2 + length xs)"
proof -
  have d: "drop p buf = int_bytes (length xs) @ (xs @ r)" using assms(1) by (simp add: utf_bytes_def)
  have l: "p + 2 + length xs \<le> length buf"
    using drop_fits [OF assms(1)] by (simp add: utf_bytes_def int_bytes_def)
  have "mem_load (p + 2) (length xs) buf = Some xs"
    using mem_load_at [of "p + 2" buf xs r] drop_shift [OF d] l by simp
  then show ?thesis using readInt_at [OF d assms(2)] assms(3) by (simp add: readMQTTLenString_def)
qed

lemma header_fields:
  assumes "ty < 16" and "dup < 2" and "qos < 4" and "retain < 2"
  shows "header_type (header_byte ty dup qos retain) = ty" and "header_dup (header_byte ty dup qos retain) = dup"
    and "header_qos (header_byte ty dup qos retain) = qos" and "header_retain (header_byte ty dup qos retain) = retain"
proof -
  have c: "char_code (header_byte ty dup qos retain) = ty * 16 + (dup * 8 + qos * 2 + retain)"
    using assms by (simp add: header_byte_def)
  have "dup * 8 + qos * 2 + retain < 16" using assms by linarith
  then show "header_type (header_byte ty dup qos retain) = ty" by (simp add: header_type_def c)
  have "ty * 16 + (dup * 8 + qos * 2 + retain) = (qos * 2 + retain) + (2 * ty + dup) * 8" "qos * 2 + retain < 8"
    using assms by simp_all
  then have "(ty * 16 + (dup * 8 + qos * 2 + retain)) div 8 = 2 * ty + dup"
    using div_mult_self1 [of 8 "qos * 2 + retain" "2 * ty + dup"] by simp
  then show "header_dup (header_byte ty dup qos retain) = dup"
    unfolding header_dup_def c using assms(2) by simp
  have "ty * 16 + (dup * 8 + qos * 2 + retain) = retain + ((2 * ty + dup) * 4 + qos) * 2" by simp
  then have "(ty * 16 + (dup * 8 + qos * 2 + retain)) div 2 = (2 * ty + dup) * 4 + qos"
    using div_mult_self1 [of 2 retain "(2 * ty + dup) * 4 + qos"] assms(4) by simp
  then show "header_qos (header_byte ty dup qos retain) = qos"
    unfolding header_qos_def c using assms(3) mod_mult_self1 [of qos "2 * ty + dup" 4] by (simp add: algebra_simps)
  have "ty * 16 + (dup * 8 + qos * 2 + retain) = retain + ((2 * ty + dup) * 4 + qos) * 2" by simp
  then have "(ty * 16 + (dup * 8 + qos * 2 + retain)) mod 2 = retain" using assms(4) by presburger
  then show "header_retain (header_byte ty dup qos retain) = retain" unfolding header_retain_def c .
qed

text \<open>A publish packet at the start of the buffer.\<close>

lemma deserialize_publish:
  assumes "buf = packet (header_byte PUBLISH dup qos retained) (publish_body qos packetid topic payload) @ r"
    and "dup < 2" and "qos < 4" and "retained < 2" and "packetid < 65536" and "length topic < 65536"
    and "length (publish_body qos packetid topic payload) < 268435456"
  shows "\<exists>p. MQTTDeserialize_publish buf =
      Some (1, \<lparr>pub_flags = Some (dup, qos, retained), pub_packetid = (if qos > 0 then Some packetid else None),
                pub_topic = Some \<lparr>cstring = None, lenstring = topic\<rparr>, pub_payload = Some (p, int (length payload))\<rparr>) \<and>
    drop p buf = payload @ r \<and>
    p = 1 + length (MQTTPacket_encode (length (publish_body qos packetid topic payload))) + 2 + length topic + (if qos > 0 then 2 else 0)"
proof -
  let ?h = "header_byte PUBLISH dup qos retained" and ?body = "publish_body qos packetid topic payload"
  let ?len = "length (MQTTPacket_encode (length ?body))"
  have 0: "readChar buf 0 = Some (?h, 1)" using readChar_at [of 0 buf ?h] assms(1) by (simp add: packet_def)
  have d1: "drop 1 buf = MQTTPacket_encode (length ?body) @ (?body @ r)" using assms(1) by (simp add: packet_def)
  have 1: "MQTTPacket_decodeBuf buf 1 = Some (?len, length ?body)" by (rule decodeBuf_encode [OF d1 assms(7)])
  let ?rest = "(if qos > 0 then int_bytes packetid else []) @ payload"
  have d2: "drop (1 + ?len) buf = utf_bytes topic @ (?rest @ r)"
    using drop_shift [OF d1] by (simp add: publish_body_def)
  have b: "length ?body = 2 + length topic + length ?rest" by (simp add: publish_body_def)
  have 2: "readMQTTLenString buf (1 + ?len) (1 + ?len + length ?body) =
      Some (Some \<lparr>cstring = None, lenstring = topic\<rparr>, 1 + ?len + 2 + length topic)"
    by (rule readMQTTLenString_at [OF d2 assms(6)]) (simp add: b)
  have d3: "drop (1 + ?len + 2 + length topic) buf = ?rest @ r"
    using drop_shift [OF d2] by (simp add: add.assoc)
  show ?thesis
  proof (cases "qos > 0")
    case True
    then have d4: "drop (1 + ?len + 2 + length topic) buf = int_bytes packetid @ (payload @ r)" using d3 by simp
    have "readInt buf (1 + ?len + 2 + length topic) = Some (packetid, 1 + ?len + 2 + length topic + 2)"
      by (rule readInt_at [OF d4 assms(5)])
    moreover have "drop (1 + ?len + 2 + length topic + 2) buf = payload @ r" using drop_shift [OF d4] by simp
    ultimately show ?thesis
      using 0 1 2 b True header_fields [of 3 dup qos retained] assms(2-4)
      by (simp add: MQTTDeserialize_publish_def)
  next
    case False
    then show ?thesis
      using 0 1 2 b d3 header_fields [of 3 dup qos retained] assms(2-4)
      by (simp add: MQTTDeserialize_publish_def)
  qed
qed

lemma deserialize_ack:
  assumes "buf = packet (header_byte ty dup qos retained) (int_bytes packetid) @ r"
    and "ty < 16" and "dup < 2" and "qos < 4" and "retained < 2" and "packetid < 65536"
  shows "MQTTDeserialize_ack buf = Some (1, ty, dup, Some packetid)"
proof -
  have 0: "readChar buf 0 = Some (header_byte ty dup qos retained, 1)"
    using readChar_at [of 0 buf "header_byte ty dup qos retained"] assms(1) by (simp add: packet_def)
  have d1: "drop 1 buf = MQTTPacket_encode 2 @ (int_bytes packetid @ r)" using assms(1) by (simp add: packet_def)
  have 1: "MQTTPacket_decodeBuf buf 1 = Some (1, 2)" using decodeBuf_encode [OF d1] by (simp add: encode_small)
  have "drop 2 buf = int_bytes packetid @ r" using drop_shift [OF d1] by (simp add: encode_small numeral_2_eq_2)
  from readInt_at [OF this assms(6)] 0 1 show ?thesis
    using header_fields [OF assms(2-5)] by (simp add: MQTTDeserialize_ack_def numeral_2_eq_2)
qed

lemma deserialize_truncated:
  assumes "buf = packet (header_byte PUBLISH dup qos retained) (int_bytes n @ xs) @ r"
    and "dup < 2" and "qos < 4" and "retained < 2" and "length xs < n" and "n < 65536" and "2 + length xs < 128"
  shows "MQTTDeserialize_publish buf =
    Some (1, \<lparr>pub_flags = Some (dup, qos, retained), pub_packetid = None, pub_topic = None, pub_payload = None\<rparr>)"
proof -
  let ?h = "header_byte PUBLISH dup qos retained" and ?body = "int_bytes n @ xs"
  have l: "length ?body < 128" using assms(7) by simp
  have 0: "readChar buf 0 = Some (?h, 1)" using readChar_at [of 0 buf ?h] assms(1) by (simp add: packet_def)
  have d1: "drop 1 buf = MQTTPacket_encode (length ?body) @ (?body @ r)" using assms(1) by (simp add: packet_def)
  have 1: "MQTTPacket_decodeBuf buf 1 = Some (1, length ?body)"
    using decodeBuf_encode [OF d1] l by (simp add: encode_small)
  have d2: "drop 2 buf = int_bytes n @ (xs @ r)" using drop_shift [OF d1] l by (simp add: encode_small numeral_2_eq_2)
  have 2: "readMQTTLenString buf 2 (2 + length ?body) = Some (None, 4)"
    using readInt_at [OF d2 assms(6)] assms(5) by (simp add: readMQTTLenString_def)
  show ?thesis
    using 0 1 2 header_fields [of 3 dup qos retained] assms(2-4)
    by (simp add: MQTTDeserialize_publish_def numeral_2_eq_2)
qed

text \<open>The answers to connecting and subscribing.\<close>

lemma deserialize_connack:
  assumes "buf = packet (header_byte CONNACK dup qos retained) [x, y] @ r" and "dup < 2" and "qos < 4" and "retained < 2"
  shows "MQTTDeserialize_connack buf = Some (1, Some (char_code x div 128, char_code y))"
proof -
  have 0: "readChar buf 0 = Some (header_byte CONNACK dup qos retained, 1)"
    using readChar_at [of 0 buf "header_byte CONNACK dup qos retained"] assms(1) by (simp add: packet_def)
  have d1: "drop 1 buf = MQTTPacket_encode 2 @ ([x, y] @ r)" using assms(1) by (simp add: packet_def numeral_2_eq_2)
  have 1: "MQTTPacket_decodeBuf buf 1 = Some (1, 2)" using decodeBuf_encode [OF d1] by (simp add: encode_small)
  have d2: "drop 2 buf = x # y # r" using drop_shift [OF d1] by (simp add: encode_small numeral_2_eq_2)
  have d3: "drop 3 buf = y # r" using drop_shift [of 2 buf "[x]" "y # r"] d2 by simp
  show ?thesis
    using 0 1 readChar_at [OF d2] readChar_at [OF d3] header_fields(1) [of 2 dup qos retained] assms(2-4)
    by (simp add: MQTTDeserialize_connack_def numeral_2_eq_2 numeral_3_eq_3)
qed

lemma deserialize_suback:
  assumes "buf = packet (header_byte SUBACK dup qos retained) (int_bytes i @ codes) @ r"
    and "dup < 2" and "qos < 4" and "retained < 2" and "i < 65536" and "length codes < 126"
  shows "MQTTDeserialize_suback buf maxcount granted =
      do { g \<leftarrow> suback_loop buf 4 (4 + length codes) maxcount 0 granted;
           case g of None \<Rightarrow> Some (-1, granted) | Some g \<Rightarrow> Some (1, g) }"
    and "drop 4 buf = codes @ r"
proof -
  let ?h = "header_byte SUBACK dup qos retained" and ?body = "int_bytes i @ codes"
  have l: "length ?body < 128" using assms(6) by simp
  have 0: "readChar buf 0 = Some (?h, 1)" using readChar_at [of 0 buf ?h] assms(1) by (simp add: packet_def)
  have d1: "drop 1 buf = MQTTPacket_encode (length ?body) @ (?body @ r)" using assms(1) by (simp add: packet_def)
  have 1: "MQTTPacket_decodeBuf buf 1 = Some (1, length ?body)" using decodeBuf_encode [OF d1] l by (simp add: encode_small)
  have d2: "drop 2 buf = int_bytes i @ (codes @ r)" using drop_shift [OF d1] l by (simp add: encode_small numeral_2_eq_2)
  have 2: "readInt buf 2 = Some (i, 4)" using readInt_at [OF d2 assms(5)] by simp
  show "drop 4 buf = codes @ r" using drop_shift [OF d2] by simp
  show "MQTTDeserialize_suback buf maxcount granted =
      do { g \<leftarrow> suback_loop buf 4 (4 + length codes) maxcount 0 granted;
           case g of None \<Rightarrow> Some (-1, granted) | Some g \<Rightarrow> Some (1, g) }"
    using 0 1 2 header_fields(1) [of 9 dup qos retained] assms(2-4)
    by (simp add: MQTTDeserialize_suback_def eval_nat_numeral)
qed

lemma suback_codes:
  assumes "drop 4 buf = g # codes @ r"
  shows "suback_loop buf 4 (4 + length (g # codes)) 1 0 [x] = (if codes = [] then Some (Some [int (char_code g)]) else None)"
proof -
  have 4: "readChar buf 4 = Some (g, 5)" using readChar_at [OF assms] by simp
  have next_code: "suback_loop buf 5 (5 + length codes) 1 1 [int (char_code g)] = None" if ne: "codes \<noteq> []"
  proof -
    obtain g2 codes2 where c: "codes = g2 # codes2" using ne by (cases codes) auto
    have "drop 5 buf = g2 # codes2 @ r" using drop_shift [of 4 buf "[g]" "codes @ r"] assms c by simp
    from readChar_at [OF this] show ?thesis
      by (subst suback_loop.simps) (simp add: c array_set_def)
  qed
  show ?thesis
    using 4 next_code by (subst suback_loop.simps) (auto simp: array_set_def suback_loop.simps [of buf 5 5])
qed

section \<open>Properties\<close>

text \<open>Property C33. A message that is published is read back: the packet that the serializer writes into a buffer with
  room for it is deserialized to the same flags, topic and, for a quality of service above 0,
  packet identifier, and the payload is where the result points to.\<close>

theorem publish_roundtrip:
  assumes "proper_string topic" and "dup < 2" and "qos < 4" and "retained < 2" and "packetid < 65536"
    and "length (string_of topic) < 65536" and "length (string_of topic) + length payload < 268435452"
    and "MQTTPacket_len (MQTTSerialize_publishLength qos topic (length payload)) \<le> length buf"
  shows "\<exists>rc buf' p. MQTTSerialize_publish buf dup qos retained packetid topic payload = Some (rc, buf') \<and>
    0 < rc \<and> rc \<le> int (length buf) \<and> length buf' = length buf \<and>
    MQTTDeserialize_publish buf' =
      Some (1, \<lparr>pub_flags = Some (dup, qos, retained), pub_packetid = (if qos > 0 then Some packetid else None),
                pub_topic = Some \<lparr>cstring = None, lenstring = string_of topic\<rparr>,
                pub_payload = Some (p, int (length payload))\<rparr>) \<and>
    int (p + length payload) = rc \<and> take (length payload) (drop p buf') = payload"
proof -
  let ?h = "header_byte PUBLISH dup qos retained" and ?body = "publish_body qos packetid (string_of topic) payload"
  have l: "MQTTSerialize_publishLength qos topic (length payload) = length ?body"
    by (simp add: MQTTSerialize_publishLength_def MQTTstrlen_eq publish_body_def)
  have b: "length ?body < 268435456" using assms(7) by (simp add: publish_body_def)
  have s: "MQTTSerialize_publish buf dup qos retained packetid topic payload =
      Some (int (length (packet ?h ?body)), packet ?h ?body @ drop (length (packet ?h ?body)) buf)"
    using publish_delivers [OF assms(1) b, of buf dup retained] assms(8) l by (simp add: delivers_def)
  have f: "length (packet ?h ?body) \<le> length buf" using length_packet [OF b, of ?h] assms(8) unfolding l by (rule order_trans)
  obtain p where p: "MQTTDeserialize_publish (packet ?h ?body @ drop (length (packet ?h ?body)) buf) =
      Some (1, \<lparr>pub_flags = Some (dup, qos, retained), pub_packetid = (if qos > 0 then Some packetid else None),
                pub_topic = Some \<lparr>cstring = None, lenstring = string_of topic\<rparr>,
                pub_payload = Some (p, int (length payload))\<rparr>)"
    "drop p (packet ?h ?body @ drop (length (packet ?h ?body)) buf) = payload @ drop (length (packet ?h ?body)) buf"
    "p = 1 + length (MQTTPacket_encode (length ?body)) + 2 + length (string_of topic) + (if qos > 0 then 2 else 0)"
    using deserialize_publish [OF refl assms(2-6) b] by blast
  have "p + length payload = length (packet ?h ?body)" using p(3) by (simp add: packet_def publish_body_def)
  moreover have "0 < length (packet ?h ?body)" by (simp add: packet_def)
  ultimately show ?thesis using s f p(1,2) by (intro exI conjI) (assumption | simp)+
qed

theorem publish_roundtrip_witness:
  "\<exists>rc buf' p. MQTTSerialize_publish (replicate 2048 NUL) 0 1 0 7 \<lparr>cstring = Some ''up'', lenstring = []\<rparr> ''on'' = Some (rc, buf') \<and>
    MQTTDeserialize_publish buf' =
      Some (1, \<lparr>pub_flags = Some (0, 1, 0), pub_packetid = Some 7, pub_topic = Some \<lparr>cstring = None, lenstring = ''up''\<rparr>,
                pub_payload = Some (p, 2)\<rparr>) \<and> take 2 (drop p buf') = ''on''"
proof -
  let ?t = "\<lparr>cstring = Some ''up'', lenstring = []\<rparr>"
  have h: "proper_string ?t" "(0::nat) < 2" "(1::nat) < 4" "(0::nat) < 2" "(7::nat) < 65536" "length (string_of ?t) < 65536"
    "length (string_of ?t) + length ''on'' < 268435452"
    "MQTTPacket_len (MQTTSerialize_publishLength 1 ?t (length ''on'')) \<le> length (replicate 2048 NUL)"
    by (simp_all add: proper_string_def string_of_def MQTTPacket_len_def MQTTSerialize_publishLength_def MQTTstrlen_def)
  from publish_roundtrip [OF h] show ?thesis by (auto simp: string_of_def numeral_2_eq_2)
qed


definition example_options :: MQTTPacket_connectData where
  "example_options =
     \<lparr>MQTTVersion = 4, clientID = \<lparr>cstring = Some ''rtthread42'', lenstring = []\<rparr>, keepAliveInterval = 30, cleansession = 1,
      willFlag = 1, will_topicName = \<lparr>cstring = Some ''up'', lenstring = []\<rparr>,
      will_msg = \<lparr>cstring = Some ''Goodbye!'', lenstring = []\<rparr>, will_retained = 0, will_qos = 1,
      conn_username = \<lparr>cstring = Some ''user'', lenstring = []\<rparr>, conn_password = \<lparr>cstring = Some ''secret'', lenstring = []\<rparr>\<rparr>"


text \<open>A publish packet of less than 128 bytes whose topic claims to be longer than the packet is reported as
  read: the function leaves with the number of bytes of the length field in its return code, 1, which is the code
  of success, and neither topic nor payload has been stored.\<close>

theorem malformed_publish_accepted:
  assumes "dup < 2" and "qos < 4" and "retained < 2" and "length xs < n" and "n < 65536" and "length xs < 126"
  shows "\<exists>d. MQTTDeserialize_publish (packet (header_byte PUBLISH dup qos retained) (int_bytes n @ xs) @ r) = Some (1, d) \<and>
    pub_topic d = None \<and> pub_payload d = None"
  using deserialize_truncated [OF refl assms(1-5), of r] assms(6) by auto

theorem malformed_publish_accepted_witness:
  "\<exists>d. MQTTDeserialize_publish (packet (header_byte PUBLISH 0 1 0) (int_bytes 300 @ ''abc'') @ replicate 2000 NUL) = Some (1, d) \<and>
    pub_topic d = None \<and> pub_payload d = None"
  using malformed_publish_accepted [of 0 1 0 "''abc''" 300] by simp

text \<open>The acknowledgement of a subscription is read into an array of one element. With one code it is; but the bound is
  checked with the wrong comparison, so that a packet with two or more codes makes the deserializer write
  behind the array, in the stack of its caller.\<close>

theorem suback_overflow:
  assumes "dup < 2" and "qos < 4" and "retained < 2" and "i < 65536" and "length codes < 125"
  shows "MQTTDeserialize_suback (packet (header_byte SUBACK dup qos retained) (int_bytes i @ g # codes) @ r) 1 [x] =
    (if codes = [] then Some (1, [int (char_code g)]) else None)"
proof -
  let ?buf = "packet (header_byte SUBACK dup qos retained) (int_bytes i @ g # codes) @ r"
  have l: "length (g # codes) < 126" using assms(5) by simp
  note d = deserialize_suback [OF refl assms(1-4) l, of r]
  show ?thesis using d(1) [of 1 "[x]"] suback_codes [of ?buf g codes r x] d(2) by simp
qed

theorem suback_overflow_witness:
  "MQTTDeserialize_suback (packet (header_byte SUBACK 0 0 0) (int_bytes 7 @ [byte 1]) @ replicate 100 NUL) 1 [-1] = Some (1, [1]) \<and>
   MQTTDeserialize_suback (packet (header_byte SUBACK 0 0 0) (int_bytes 7 @ [byte 1, byte 1]) @ replicate 100 NUL) 1 [-1] = None"
  using suback_overflow [of 0 0 0 7 "[]" "byte 1" "replicate 100 NUL" "-1"]
    suback_overflow [of 0 0 0 7 "[byte 1]" "byte 1" "replicate 100 NUL" "-1"] by simp

end
