(* ===== verification/MqttClient.thy ===== *)
theory MqttClient
  imports MqttPacket Pipe Kernel
begin

text \<open>
  The MQTT client: \<open>packages/pahomqtt-v1.1.0/MQTTClient-RT/paho_mqtt_pipe.c\<close>, without TLS.  The network is the
  list of what successive calls of \<open>recv\<close> will find and of whether successive calls of \<open>send\<close> will
  succeed; the results of \<open>select\<close>, of resolving and of connecting are arguments.  Message callbacks are an
  argument too: what they do to the read buffer, into which their payload points, and to the state \<open>'a\<close> of
  the application (the topic, which precedes the payload in that buffer, they leave alone).  A message
  that is published goes through a pipe to the client's thread, as the bytes of
  the structure \<open>MQTTMessage\<close>, the payload and the topic.
\<close>

section \<open>State\<close>

text \<open>What one call of \<open>recv\<close> finds: bytes, of which it takes as many as it asks for, or a failure, with one of the
  two error numbers that \<open>net_read\<close> takes for a connection in progress, or with another. When nothing is left,
  it would block, which is another.\<close>

datatype recv_result = Chunk string | Not_connected | Fault

record handler =
  topicFilter :: "string option"
  has_callback :: bool
  h_qos :: nat

record mclient =
  server_uri :: string
  sock :: int
  isconnected :: bool
  next_packetid :: nat
  buf :: "char list"
  readbuf :: "char list"
  keepAlive :: u32
  connect_timeout :: int
  reconnect_interval :: int
  isblocking :: bool
  tick_ping :: u32
  condata :: MQTTPacket_connectData
  handlers :: "handler list"
  has_default :: bool
  inbox :: "recv_result list"
  send_results :: "bool list"
  sent :: "string list"
  has_mutex :: bool
  pub_pipe :: pipe
  freed :: bool

abbreviation (input) PAHO_SUCCESS :: int where "PAHO_SUCCESS \<equiv> 0"
abbreviation (input) PAHO_FAILURE :: int where "PAHO_FAILURE \<equiv> -1"
abbreviation (input) MAX_PACKET_ID :: nat where "MAX_PACKET_ID \<equiv> 65535"
abbreviation (input) QOS1 :: nat where "QOS1 \<equiv> 1"
abbreviation (input) QOS2 :: nat where "QOS2 \<equiv> 2"

section \<open>The socket\<close>

definition recv :: "nat \<Rightarrow> mclient \<Rightarrow> recv_result \<times> mclient" where
  "recv n c =
     (case inbox c of
        [] \<Rightarrow> (Fault, c)
      | Chunk xs # rest \<Rightarrow>
          (Chunk (take n xs), c\<lparr>inbox := (if length xs \<le> n then rest else Chunk (drop n xs) # rest)\<rparr>)
      | r # rest \<Rightarrow> (r, c\<lparr>inbox := rest\<rparr>))"

text \<open>One pass of the loop of \<open>net_read\<close>, into an object \<open>dst\<close> from \<open>off\<close>.\<close>

definition net_pass :: "nat \<Rightarrow> nat \<Rightarrow> nat \<Rightarrow> char list \<Rightarrow> mclient \<Rightarrow> (int \<times> char list \<times> mclient) option" where
  "net_pass off len bytes dst c =
     (case recv (len - bytes) c of
        (Chunk xs, c1) \<Rightarrow> do { dst' \<leftarrow> mem_store (off + bytes) xs dst; Some (int (bytes + length xs), dst', c1) }
      | (Not_connected, c1) \<Rightarrow> Some (int bytes, dst, c1)
      | (Fault, c1) \<Rightarrow> Some (-1, dst, c1))"

text \<open>\<open>net_read\<close>: a second pass only after an incomplete first one, and with a timeout.\<close>

definition net_read :: "nat \<Rightarrow> nat \<Rightarrow> bool \<Rightarrow> char list \<Rightarrow> mclient \<Rightarrow> (int \<times> char list \<times> mclient) option" where
  "net_read off len timeout dst c =
     (if len = 0 then Some (0, dst, c)
      else do { (bytes, dst1, c1) \<leftarrow> net_pass off len 0 dst c;
                if bytes = -1 \<or> int len \<le> bytes \<or> \<not> timeout then Some (bytes, dst1, c1)
                else net_pass off len (nat bytes) dst1 c1 })"

text \<open>\<open>decodePacket\<close> reads each byte into a local variable, with a timeout.\<close>

definition net_char :: "mclient \<Rightarrow> (char option \<times> mclient) option" where
  "net_char c =
     do { (rc, i, c1) \<leftarrow> net_read 0 1 True [NUL] c; Some (if rc = 1 then Some (hd i) else None, c1) }"

definition decodePacket :: "mclient \<Rightarrow> (nat \<times> nat \<times> mclient) option" where
  "decodePacket c = MQTTPacket_decode 4 net_char 0 1 0 c"

definition MQTTPacket_readPacket :: "mclient \<Rightarrow> (int \<times> mclient) option" where
  "MQTTPacket_readPacket c =
     do { (r, b1, c1) \<leftarrow> net_read 0 1 False (readbuf c) c;
          let c1 = c1\<lparr>readbuf := b1\<rparr>;
          if r \<noteq> 1 then Some (PAHO_FAILURE, c1)
          else do {
            (_, rem_len, c2) \<leftarrow> decodePacket c1;
            b2 \<leftarrow> mem_store 1 (MQTTPacket_encode rem_len) (readbuf c2);
            (r', b3, c3) \<leftarrow> net_read (1 + length (MQTTPacket_encode rem_len)) rem_len True b2 c2;
            let c3 = c3\<lparr>readbuf := b3\<rparr>;
            if rem_len > 0 \<and> r' \<noteq> int rem_len then Some (PAHO_FAILURE, c3)
            else do { h \<leftarrow> mem_load 0 1 b3; Some (int (header_type (hd h)), c3) } } }"

definition sendPacket :: "nat \<Rightarrow> mclient \<Rightarrow> int \<times> mclient" where
  "sendPacket n c =
     (case send_results c of
        True # rs \<Rightarrow> (0, c\<lparr>send_results := rs, sent := sent c @ [take n (buf c)]\<rparr>)
      | _ # rs \<Rightarrow> (-1, c\<lparr>send_results := rs\<rparr>)
      | [] \<Rightarrow> (-1, c))"

definition getNextPacketId :: "mclient \<Rightarrow> nat \<times> mclient" where
  "getNextPacketId c =
     (let i = (if next_packetid c = MAX_PACKET_ID then 1 else next_packetid c + 1) in (i, c\<lparr>next_packetid := i\<rparr>))"

text \<open>Serializing into \<open>c->buf\<close>.\<close>

definition serialize :: "(char list \<Rightarrow> (int \<times> char list) option) \<Rightarrow> mclient \<Rightarrow> (int \<times> mclient) option" where
  "serialize f c = do { (len, b) \<leftarrow> f (buf c); Some (len, c\<lparr>buf := b\<rparr>) }"

definition cstr :: "string \<Rightarrow> MQTTString" where
  "cstr s = \<lparr>cstring = Some s, lenstring = []\<rparr>"

section \<open>Connecting and subscribing\<close>

text \<open>\<open>selected\<close>: what the \<open>select\<close> that waits for the response returns.\<close>

definition MQTTConnect :: "int \<Rightarrow> mclient \<Rightarrow> (int \<times> mclient) option" where
  "MQTTConnect selected c =
     do { (rc, c') \<leftarrow>
            (if isconnected c then Some (-1, c)
             else do {
               let c0 = c\<lparr>keepAlive := word_of_nat (keepAliveInterval (condata c))\<rparr>;
               (len, c1) \<leftarrow> serialize (\<lambda>b. MQTTSerialize_connect b (condata c0)) c0;
               if len \<le> 0 then Some (-1, c1)
               else let (rc, c2) = sendPacket (nat len) c1
                    in if rc \<noteq> 0 then Some (rc, c2)
                       else if selected \<le> 0 then Some (-1, c2)
                       else do {
                         (rc, c3) \<leftarrow> MQTTPacket_readPacket c2;
                         if rc < 0 then Some (rc, c3)
                         else if rc = int CONNACK
                         then do { (r, d) \<leftarrow> MQTTDeserialize_connack (readbuf c3);
                                   if r = 1 then do { (_, code) \<leftarrow> d; Some (int code, c3) } else Some (-1, c3) }
                         else Some (-1, c3) } });
          Some (rc, if rc = 0 then c'\<lparr>isconnected := True\<rparr> else c') }"

definition MQTTDisconnect :: "mclient \<Rightarrow> (int \<times> mclient) option" where
  "MQTTDisconnect c =
     do { (len, c1) \<leftarrow> serialize MQTTSerialize_disconnect c;
          let (rc, c2) = (if len > 0 then sendPacket (nat len) c1 else (PAHO_FAILURE, c1));
          Some (rc, c2\<lparr>isconnected := False\<rparr>) }"

definition MQTTSubscribe :: "int \<Rightarrow> string \<Rightarrow> nat \<Rightarrow> mclient \<Rightarrow> (int \<times> mclient) option" where
  "MQTTSubscribe selected filt qos c =
     (if \<not> isconnected c then Some (PAHO_FAILURE, c)
      else do {
        let (i, c0) = getNextPacketId c;
        (len, c1) \<leftarrow> serialize (\<lambda>b. MQTTSerialize_subscribe b 0 i [(cstr filt, qos)]) c0;
        if len \<le> 0 then Some (PAHO_FAILURE, c1)
        else let (rc, c2) = sendPacket (nat len) c1
             in if rc \<noteq> PAHO_SUCCESS then Some (rc, c2)
                else if selected \<le> 0 then Some (-1, c2)
                else do {
                  (rc, c3) \<leftarrow> MQTTPacket_readPacket c2;
                  if rc < 0 then Some (rc, c3)
                  else if rc = int SUBACK
                  then do { (r, g) \<leftarrow> MQTTDeserialize_suback (readbuf c3) 1 [-1];
                            let rc = (if r = 1 then hd g else rc);
                            Some (if rc \<noteq> 0x80 then 0 else rc, c3) }
                  else Some (PAHO_FAILURE, c3) } })"

section \<open>Delivering messages\<close>

text \<open>\<open>isTopicMatched\<close> on the rests of the filter and of the name; \<open>+\<close> moves the name's pointer to the last character
  before the next separator, from which it is advanced like any other.\<close>

fun isTopicMatched :: "string \<Rightarrow> string \<Rightarrow> bool" where
  "isTopicMatched (f # fs) (n # ns) =
     (if n = CHR ''/'' \<and> f \<noteq> CHR ''/'' then False
      else if f \<noteq> CHR ''+'' \<and> f \<noteq> CHR ''#'' \<and> f \<noteq> n then False
      else if f = CHR ''+'' then isTopicMatched fs (dropWhile (\<lambda>c. c \<noteq> CHR ''/'') ns)
      else if f = CHR ''#'' then isTopicMatched fs []
      else isTopicMatched fs ns)"
| "isTopicMatched fs ns = (fs = [] \<and> ns = [])"

type_synonym 'a callback = "nat \<Rightarrow> int \<Rightarrow> char list \<Rightarrow> 'a \<Rightarrow> (char list \<times> 'a) option"

definition matches :: "handler \<Rightarrow> MQTTString \<Rightarrow> bool" where
  "matches h topicName =
     (case topicFilter h of
        None \<Rightarrow> False
      | Some f \<Rightarrow> MQTTPacket_equals topicName f \<or> isTopicMatched f (lenstring topicName))"

text \<open>The loop of \<open>deliverMessage\<close> over the handlers; \<open>cb i\<close> is the callback of handler \<open>i\<close>.\<close>

fun deliver :: "(nat \<Rightarrow> 'a callback) \<Rightarrow> MQTTString \<Rightarrow> nat \<Rightarrow> int \<Rightarrow> nat \<Rightarrow> handler list \<Rightarrow> int \<Rightarrow> char list \<Rightarrow> 'a \<Rightarrow>
    (int \<times> char list \<times> 'a) option" where
  "deliver cb topicName off len i [] rc rb a = Some (rc, rb, a)"
| "deliver cb topicName off len i (h # hs) rc rb a =
     (if matches h topicName \<and> has_callback h
      then do { (rb', a') \<leftarrow> cb i off len rb a; deliver cb topicName off len (i + 1) hs PAHO_SUCCESS rb' a' }
      else deliver cb topicName off len (i + 1) hs rc rb a)"

definition deliverMessage ::
  "(nat \<Rightarrow> 'a callback) \<Rightarrow> 'a callback \<Rightarrow> MQTTString \<Rightarrow> nat \<Rightarrow> int \<Rightarrow> mclient \<Rightarrow> 'a \<Rightarrow> (int \<times> mclient \<times> 'a) option" where
  "deliverMessage cb default_cb topicName off len c a =
     do { (rc, rb, a1) \<leftarrow> deliver cb topicName off len 0 (handlers c) PAHO_FAILURE (readbuf c) a;
          if rc = PAHO_FAILURE \<and> has_default c
          then do { (rb', a2) \<leftarrow> default_cb off len rb a1; Some (PAHO_SUCCESS, c\<lparr>readbuf := rb'\<rparr>, a2) }
          else Some (rc, c\<lparr>readbuf := rb\<rparr>, a1) }"

section \<open>One packet\<close>

text \<open>Sending an acknowledgement: \<open>MQTTSerialize_ack\<close> and \<open>sendPacket\<close>.\<close>

definition send_ack :: "nat \<Rightarrow> nat \<Rightarrow> mclient \<Rightarrow> (int \<times> mclient) option" where
  "send_ack ty i c =
     do { (len, c1) \<leftarrow> serialize (\<lambda>b. MQTTSerialize_ack b ty 0 i) c;
          Some (if len \<le> 0 then (PAHO_FAILURE, c1) else sendPacket (nat len) c1) }"

text \<open>A result that the deserializer has not stored is an uninitialised variable of \<open>MQTT_cycle\<close>; to use it is
  undefined.\<close>

definition MQTT_cycle :: "(nat \<Rightarrow> 'a callback) \<Rightarrow> 'a callback \<Rightarrow> u32 \<Rightarrow> mclient \<Rightarrow> 'a \<Rightarrow> (int \<times> mclient \<times> 'a) option" where
  "MQTT_cycle cb default_cb now c a =
     do { (packet_type, c1) \<leftarrow> MQTTPacket_readPacket c;
          if packet_type = -1 then Some (PAHO_FAILURE, c1, a)
          else if packet_type = int CONNACK \<or> packet_type = int PUBACK \<or> packet_type = int SUBACK
          then do { (r, g) \<leftarrow> MQTTDeserialize_suback (readbuf c1) 1 [-1];
                    let rc = (if r = 1 then hd g else PAHO_SUCCESS);
                    Some (if rc \<noteq> 0x80 then 0 else rc, c1, a) }
          else if packet_type = int UNSUBACK
          then do { (r, _) \<leftarrow> MQTTDeserialize_unsuback (readbuf c1);
                    Some (if r = 1 then PAHO_SUCCESS else PAHO_FAILURE, c1, a) }
          else if packet_type = int PUBLISH
          then do {
            (r, d) \<leftarrow> MQTTDeserialize_publish (readbuf c1);
            if r \<noteq> 1 then Some (PAHO_SUCCESS, c1, a)
            else do {
              (_, qos, _) \<leftarrow> pub_flags d;
              topic \<leftarrow> pub_topic d;
              (off, len) \<leftarrow> pub_payload d;
              (_, c2, a1) \<leftarrow> deliverMessage cb default_cb topic off len c1 a;
              if qos = 0 then Some (PAHO_SUCCESS, c2, a1)
              else if qos = QOS1
              then do { i \<leftarrow> pub_packetid d; (rc, c3) \<leftarrow> send_ack PUBACK i c2; Some (rc, c3, a1) }
              else if qos = QOS2
              then do { i \<leftarrow> pub_packetid d; (rc, c3) \<leftarrow> send_ack PUBREC i c2; Some (rc, c3, a1) }
              else Some (PAHO_FAILURE, c2, a1) } }
          else if packet_type = int PUBREC
          then do { (r, _, _, i) \<leftarrow> MQTTDeserialize_ack (readbuf c1);
                    if r \<noteq> 1 then Some (PAHO_FAILURE, c1, a)
                    else do { i' \<leftarrow> i; (rc, c2) \<leftarrow> send_ack PUBREL i' c1; Some (rc, c2, a) } }
          else if packet_type = int PINGRESP then Some (PAHO_SUCCESS, c1\<lparr>tick_ping := now\<rparr>, a)
          else Some (PAHO_SUCCESS, c1, a) }"

section \<open>Publishing\<close>

text \<open>Numbers in memory, the least significant byte first.\<close>

fun le_bytes :: "nat \<Rightarrow> nat \<Rightarrow> string" where
  "le_bytes 0 x = []"
| "le_bytes (Suc n) x = byte (x mod 256) # le_bytes n (x div 256)"

fun le_value :: "string \<Rightarrow> nat" where
  "le_value [] = 0"
| "le_value (c # cs) = char_code c + 256 * le_value cs"

text \<open>\<open>MQTTMessage\<close> on the 32-bit target, with the four bytes for an enumeration that \<open>ALIGN(4)\<close> asks for; the payload is
  the bytes at \<open>msg_addr\<close>.\<close>

record MQTTMessage =
  msg_qos :: nat
  msg_retained :: nat
  msg_dup :: nat
  msg_id :: nat
  msg_addr :: nat
  msg_payload :: string

abbreviation (input) MESSAGE_SIZE :: nat where "MESSAGE_SIZE \<equiv> 16"

definition message_bytes :: "MQTTMessage \<Rightarrow> string" where
  "message_bytes m = le_bytes 4 (msg_qos m) @ [byte (msg_retained m), byte (msg_dup m)] @ le_bytes 2 (msg_id m) @
     le_bytes 4 (msg_addr m) @ le_bytes 4 (length (msg_payload m))"

definition MQTT_local_send :: "string \<Rightarrow> mclient \<Rightarrow> (int progress \<times> mclient) option" where
  "MQTT_local_send data c = do { (r, _, p) \<leftarrow> pipe_fops_write False data (pub_pipe c); Some (r, c\<lparr>pub_pipe := p\<rparr>) }"

definition mqtt_cmd :: "bool \<Rightarrow> string \<Rightarrow> mclient \<Rightarrow> (int progress \<times> mclient) option" where
  "mqtt_cmd mem_ok cmd c =
     (if \<not> isconnected c \<or> MESSAGE_SIZE \<le> length cmd + 1 \<or> \<not> mem_ok then Some (Done PAHO_FAILURE, c)
      else do { (r, c1) \<leftarrow> MQTT_local_send (cmd @ [NUL]) c;
                Some (case r of
                        Done len \<Rightarrow> Done (if len = int (length cmd) + 1 then 0 else PAHO_FAILURE)
                      | Waiting k \<Rightarrow> Waiting k, c1) })"

text \<open>After the data has been sent: the wait for the mutex gives \<open>lock_rc\<close>.\<close>

definition publish_result :: "nat \<Rightarrow> int \<Rightarrow> int \<Rightarrow> mclient \<Rightarrow> int" where
  "publish_result msg_len lock_rc len c =
     (let rc = (if len = int msg_len then PAHO_SUCCESS else PAHO_FAILURE)
      in if isblocking c \<and> has_mutex c \<and> lock_rc < 0 then PAHO_FAILURE else rc)"

definition MQTTPublish :: "bool \<Rightarrow> int \<Rightarrow> string \<Rightarrow> MQTTMessage \<Rightarrow> mclient \<Rightarrow> (int progress \<times> mclient) option" where
  "MQTTPublish mem_ok lock_rc topicName m c =
     (if \<not> isconnected c \<or> \<not> mem_ok then Some (Done PAHO_FAILURE, c)
      else do {
        let data = message_bytes m @ msg_payload m @ topicName @ [NUL];
        (r, c1) \<leftarrow> MQTT_local_send data c;
        Some (case r of Done len \<Rightarrow> Done (publish_result (length data) lock_rc len c1) | Waiting k \<Rightarrow> Waiting k, c1) })"

text \<open>\<open>id\<close> and \<open>dup\<close> are not set: whatever is on the stack.\<close>

definition paho_mqtt_publish ::
  "bool \<Rightarrow> int \<Rightarrow> nat \<times> nat \<times> nat \<Rightarrow> nat \<Rightarrow> string \<Rightarrow> string \<Rightarrow> mclient \<Rightarrow> (int progress \<times> mclient) option" where
  "paho_mqtt_publish mem_ok lock_rc = (\<lambda>(stack_id, stack_dup, addr) qos topic msg_str c.
     if qos \<noteq> QOS1 then Some (Done PAHO_FAILURE, c)
     else MQTTPublish mem_ok lock_rc topic
       \<lparr>msg_qos = qos, msg_retained = 0, msg_dup = stack_dup, msg_id = stack_id, msg_addr = addr, msg_payload = msg_str\<rparr> c)"

definition paho_mqtt_stop :: "bool \<Rightarrow> mclient \<Rightarrow> (int progress \<times> mclient) option" where
  "paho_mqtt_stop mem_ok c = mqtt_cmd mem_ok ''DISCONNECT'' c"

section \<open>Subscribing at run time\<close>

text \<open>\<open>rt_strncmp\<close> on C strings; the difference is kept in a signed char.\<close>

definition schar :: "int \<Rightarrow> int" where
  "schar i = (i + 128) mod 256 - 128"

fun rt_strncmp :: "string \<Rightarrow> string \<Rightarrow> nat \<Rightarrow> int" where
  "rt_strncmp cs ct 0 = 0"
| "rt_strncmp [] [] (Suc n) = 0"
| "rt_strncmp (c # cs) [] (Suc n) = schar (int (char_code c))"
| "rt_strncmp [] (t # ct) (Suc n) = schar (- int (char_code t))"
| "rt_strncmp (c # cs) (t # ct) (Suc n) =
     (if char_code c \<noteq> char_code t then schar (int (char_code c) - int (char_code t)) else rt_strncmp cs ct n)"

definition handles :: "string \<Rightarrow> handler \<Rightarrow> bool" where
  "handles topic h = (case topicFilter h of None \<Rightarrow> False | Some f \<Rightarrow> rt_strncmp f topic (length topic) = 0)"

text \<open>\<open>dup_ok\<close>: the copy of the topic could be allocated.\<close>

definition paho_mqtt_subscribe :: "bool \<Rightarrow> nat \<Rightarrow> string \<Rightarrow> bool \<Rightarrow> mclient \<Rightarrow> (int \<times> mclient) option" where
  "paho_mqtt_subscribe dup_ok qos topic callback c =
     (if qos \<noteq> QOS1 then Some (PAHO_FAILURE, c)
      else if list_ex (handles topic) (handlers c) then Some (PAHO_SUCCESS, c)
      else case find (\<lambda>i. topicFilter (handlers c ! i) = None) [0..<length (handlers c)] of
             None \<Rightarrow> Some (PAHO_FAILURE, c)
           | Some i \<Rightarrow> do {
               let (pid, c0) = getNextPacketId c;
               (len, c1) \<leftarrow> serialize (\<lambda>b. MQTTSerialize_subscribe b 0 pid [(cstr topic, qos)]) c0;
               if len \<le> 0 then Some (PAHO_SUCCESS, c1\<lparr>isconnected := False\<rparr>)
               else let (rc, c2) = sendPacket (nat len) c1
                    in Some (rc, if rc \<noteq> PAHO_SUCCESS then c2\<lparr>isconnected := False\<rparr>
                                 else c2\<lparr>handlers := (handlers c2)[i := \<lparr>topicFilter = (if dup_ok then Some topic else None),
                                   has_callback = (callback \<or> has_callback (handlers c2 ! i)), h_qos = qos\<rparr>]\<rparr>) })"

definition paho_mqtt_unsubscribe :: "string \<Rightarrow> mclient \<Rightarrow> (int \<times> mclient) option" where
  "paho_mqtt_unsubscribe topic c =
     (case find (\<lambda>i. handles topic (handlers c ! i)) [0..<length (handlers c)] of
        None \<Rightarrow> Some (PAHO_FAILURE, c)
      | Some i \<Rightarrow> do {
          let (pid, c0) = getNextPacketId c;
          (len, c1) \<leftarrow> serialize (\<lambda>b. MQTTSerialize_unsubscribe b 0 pid [cstr topic]) c0;
          if len \<le> 0 then Some (PAHO_SUCCESS, c1\<lparr>isconnected := False\<rparr>)
          else let (rc, c2) = sendPacket (nat len) c1
               in Some (rc, if rc \<noteq> PAHO_SUCCESS then c2\<lparr>isconnected := False\<rparr>
                            else c2\<lparr>handlers := (handlers c2)[i := (handlers c2 ! i)
                              \<lparr>topicFilter := None, has_callback := False\<rparr>]\<rparr>) })"

datatype mqtt_control = SET_CONN_TIMEO int | SET_RECONN_INTERVAL int | SET_KEEPALIVE_INTERVAL u32 | PUBLISH_BLOCK int | Unknown_control

definition paho_mqtt_control :: "mqtt_control \<Rightarrow> mclient \<Rightarrow> int \<times> mclient" where
  "paho_mqtt_control cmd c =
     (PAHO_SUCCESS,
      case cmd of
        SET_CONN_TIMEO i \<Rightarrow> c\<lparr>connect_timeout := i\<rparr>
      | SET_RECONN_INTERVAL i \<Rightarrow> c\<lparr>reconnect_interval := i\<rparr>
      | SET_KEEPALIVE_INTERVAL w \<Rightarrow> c\<lparr>keepAlive := w\<rparr>
      | PUBLISH_BLOCK i \<Rightarrow> c\<lparr>isblocking := (i \<noteq> 0)\<rparr>
      | Unknown_control \<Rightarrow> c)"

section \<open>Connecting to the server\<close>

text \<open>\<open>strstr(s, [c])\<close>: how many characters come before the first \<open>c\<close>.\<close>

definition find_char :: "char \<Rightarrow> string \<Rightarrow> nat option" where
  "find_char ch s = (if ch \<in> set s then Some (length (takeWhile (\<lambda>x. x \<noteq> ch) s)) else None)"

text \<open>The host and the port that \<open>mqtt_resolve_uri\<close> finds in an address.\<close>

definition split_uri :: "string \<Rightarrow> (string \<times> string) option" where
  "split_uri u =
     (if take 6 u \<noteq> ''tcp://'' then None
      else let host_addr = drop 6 u;
               v6 = (take 1 host_addr = ''['');
               host_addr = (if v6 then drop 1 host_addr else host_addr);
               skip = (if v6 then 3 else 1)
           in case find_char (if v6 then CHR '']'' else CHR '':'') host_addr of
                None \<Rightarrow> None
              | Some host_addr_len \<Rightarrow>
                  if host_addr_len < 1 \<or> length u < host_addr_len then None
                  else let port_len = int (length u) - 6 - int host_addr_len - skip
                       in if 6 \<le> port_len \<or> port_len < 1 then None
                          else Some (take host_addr_len host_addr,
                                     take (nat port_len) (drop (host_addr_len + (if v6 then 2 else 1)) host_addr)))"

text \<open>\<open>lookup\<close> is \<open>getaddrinfo\<close>: its result, and whether it has given an address.\<close>

definition mqtt_resolve_uri :: "bool \<Rightarrow> (string \<Rightarrow> string \<Rightarrow> int \<times> bool) \<Rightarrow> mclient \<Rightarrow> int \<times> bool" where
  "mqtt_resolve_uri mem_ok lookup c =
     (case split_uri (server_uri c) of
        None \<Rightarrow> (-1, False)
      | Some (host, port) \<Rightarrow>
          if \<not> mem_ok then (-1, False)
          else let (ret, res) = lookup host port in if ret \<noteq> 0 then (-1, res) else (0, res))"

text \<open>\<open>fd\<close>: what \<open>socket\<close> returns; \<open>conn\<close>: what \<open>connect\<close> returns.\<close>

definition net_connect :: "bool \<Rightarrow> (string \<Rightarrow> string \<Rightarrow> int \<times> bool) \<Rightarrow> int \<Rightarrow> int \<Rightarrow> mclient \<Rightarrow> int \<times> mclient" where
  "net_connect mem_ok lookup fd conn c =
     (let c0 = c\<lparr>sock := -1, next_packetid := 0\<rparr>;
          (rc, res) = mqtt_resolve_uri mem_ok lookup c0
      in if rc < 0 \<or> \<not> res then (rc, c0)
         else if fd = -1 then (rc, c0)
         else if conn = -1 then (-2, c0)
         else (conn, c0\<lparr>sock := fd\<rparr>))"

definition net_disconnect :: "mclient \<Rightarrow> mclient" where
  "net_disconnect c = (if 0 \<le> sock c then c\<lparr>sock := -1\<rparr> else c)"

text \<open>Buffers, mutex and pipe are released; \<open>freed\<close> records it.\<close>

definition net_disconnect_exit :: "mclient \<Rightarrow> mclient" where
  "net_disconnect_exit c =
     (net_disconnect c)\<lparr>freed := True, has_mutex := False,
       handlers := map (\<lambda>h. if topicFilter h = None then h else h\<lparr>topicFilter := None, has_callback := False\<rparr>) (handlers c),
       isconnected := False\<rparr>"

section \<open>The thread\<close>

text \<open>Where \<open>paho_mqtt_thread\<close> is: at \<open>_mqtt_start\<close>, at the head of its loop, waiting in a read of the pipe, or ended. The
  calls of the application's callbacks are events.\<close>

datatype location = At_start | In_loop | Reading | Ended
datatype client_event = Connect_cb | Online_cb | Offline_cb | Delay nat

datatype next_step = Continue | To_disconnect | To_restart | To_exit | Wait_pipe

text \<open>What the first part of a session meets: the address lookup, the socket, and the results of the waits for
  the responses.\<close>

record session_env =
  host_mem :: bool
  host_lookup :: "string \<Rightarrow> string \<Rightarrow> int \<times> bool"
  socket_fd :: int
  connect_result :: int
  connack_select :: int
  suback_select :: "nat \<Rightarrow> int"

fun subscribe_all :: "(nat \<Rightarrow> int) \<Rightarrow> nat \<Rightarrow> handler list \<Rightarrow> mclient \<Rightarrow> (int \<times> mclient) option" where
  "subscribe_all sel i [] c = Some (0, c)"
| "subscribe_all sel i (h # hs) c =
     (case topicFilter h of
        None \<Rightarrow> subscribe_all sel (i + 1) hs c
      | Some topic \<Rightarrow> do {
          (rc, c1) \<leftarrow> MQTTSubscribe (sel i) topic (h_qos h) c;
          if rc \<noteq> 0 then Some (rc, c1) else subscribe_all sel (i + 1) hs c1 })"

definition start_session :: "session_env \<Rightarrow> u32 \<Rightarrow> mclient \<Rightarrow> (next_step \<times> client_event list \<times> mclient) option" where
  "start_session env now c =
     (let (rc, c1) = net_connect (host_mem env) (host_lookup env) (socket_fd env) (connect_result env) c
      in if rc \<noteq> 0 then Some (To_restart, [Connect_cb], c1)
         else do {
           (rc, c2) \<leftarrow> MQTTConnect (connack_select env) c1;
           if rc \<noteq> 0 then Some (To_restart, [Connect_cb], c2)
           else do {
             (rc, c3) \<leftarrow> subscribe_all (suback_select env) 0 (handlers c2) c2;
             Some (if rc \<noteq> 0 then (To_disconnect, [Connect_cb], c3)
                   else (Continue, [Connect_cb, Online_cb], c3\<lparr>tick_ping := now\<rparr>)) } })"

text \<open>The seconds for which the loop waits, computed on 32-bit words and then signed.\<close>

definition select_seconds :: "u32 \<Rightarrow> mclient \<Rightarrow> int" where
  "select_seconds now c =
     (let elapsed = (now - tick_ping c) div 1000
      in if elapsed > keepAlive c - 5 then 1 else sint (keepAlive c - 10 - elapsed))"

text \<open>What \<open>select\<close> and \<open>poll_wait_timeout\<close> make of it: ticks to wait, or \<open>None\<close> for ever. The milliseconds are a 32-bit
  integer.\<close>

definition select_ticks :: "int \<Rightarrow> nat option" where
  "select_ticks tv_sec =
     (let timeout = sint (word_of_nat (rt_tick_from_millisecond (sint (word_of_int (tv_sec * 1000) :: u32))) :: u32)
      in if 0 \<le> timeout then Some (nat timeout) else None)"

text \<open>A message from the pipe; \<open>addr\<close> is the address of the read buffer.\<close>

definition load_number :: "nat \<Rightarrow> nat \<Rightarrow> char list \<Rightarrow> nat option" where
  "load_number off n m = map_option le_value (mem_load off n m)"

definition publish_message :: "char list \<Rightarrow> mclient \<Rightarrow> (next_step \<times> mclient) option" where
  "publish_message rb c =
     do { qos \<leftarrow> load_number 0 4 rb;
          retained \<leftarrow> load_number 4 1 rb;
          i \<leftarrow> load_number 6 2 rb;
          payloadlen \<leftarrow> load_number 12 4 rb;
          topic \<leftarrow> c_string (MESSAGE_SIZE + payloadlen) rb;
          payload \<leftarrow> mem_load MESSAGE_SIZE payloadlen rb;
          (len, c1) \<leftarrow> serialize (\<lambda>b. MQTTSerialize_publish b 0 qos retained i (cstr topic) payload) (c\<lparr>readbuf := rb\<rparr>);
          if len \<le> 0 then Some (To_disconnect, c1)
          else let (rc, c2) = sendPacket (nat len) c1
               in Some (if rc \<noteq> PAHO_SUCCESS then To_disconnect else Continue, c2) }"

definition pipe_ready_pass :: "nat \<Rightarrow> mclient \<Rightarrow> (next_step \<times> mclient) option" where
  "pipe_ready_pass addr c =
     do { (r, _, p) \<leftarrow> pipe_fops_read False (length (readbuf c)) (pub_pipe c);
          let c0 = c\<lparr>pub_pipe := p\<rparr>;
          case r of
            Waiting _ \<Rightarrow> Some (Wait_pipe, c0)
          | Done (len, xs) \<Rightarrow> do {
              rb \<leftarrow> mem_store 0 xs (readbuf c);
              if 0 \<le> len \<and> len < int MESSAGE_SIZE
              then do { rb1 \<leftarrow> array_set (nat len) NUL rb;
                        s \<leftarrow> c_string 0 rb1;
                        Some (if s = ''DISCONNECT'' then To_exit else Continue, c0\<lparr>readbuf := rb1\<rparr>) }
              else do { rb1 \<leftarrow> mem_store 8 (le_bytes 4 (addr + MESSAGE_SIZE)) rb;
                        publish_message rb1 c0 } } }"

text \<open>One pass of the loop: what the wait returns and finds, and what the wait for the response to a ping
  returns; \<open>pinged\<close> is the time at which a response is handled.\<close>

record loop_env =
  select_result :: int
  sock_ready :: bool
  pipe_ready :: bool
  ping_select :: int
  pinged :: u32
  readbuf_addr :: nat

definition cycle_pass ::
  "(nat \<Rightarrow> 'a callback) \<Rightarrow> 'a callback \<Rightarrow> u32 \<Rightarrow> mclient \<Rightarrow> 'a \<Rightarrow> (next_step \<times> mclient \<times> 'a) option" where
  "cycle_pass cb default_cb now c a =
     do { (rc_t, c1, a1) \<leftarrow> MQTT_cycle cb default_cb now c a; Some (if rc_t < 0 then To_disconnect else Continue, c1, a1) }"

definition loop_pass ::
  "(nat \<Rightarrow> 'a callback) \<Rightarrow> 'a callback \<Rightarrow> loop_env \<Rightarrow> mclient \<Rightarrow> 'a \<Rightarrow> (next_step \<times> mclient \<times> 'a) option" where
  "loop_pass cb default_cb env c a =
     (if select_result env = 0
      then do { (len, c1) \<leftarrow> serialize MQTTSerialize_pingreq c;
                if len < 0 then None
                else let (rc, c2) = sendPacket (nat len) c1
                     in if rc \<noteq> 0 \<or> ping_select env \<le> 0 then Some (To_disconnect, c2, a)
                        else cycle_pass cb default_cb (pinged env) c2 a }
      else if select_result env < 0 then Some (To_disconnect, c, a)
      else if sock_ready env then cycle_pass cb default_cb (pinged env) c a
      else if pipe_ready env then do { (n, c1) \<leftarrow> pipe_ready_pass (readbuf_addr env) c; Some (n, c1, a) }
      else Some (Continue, c, a))"

text \<open>What follows a part: the jumps to \<open>_mqtt_disconnect\<close>, \<open>_mqtt_restart\<close> and \<open>_mqtt_disconnect_exit\<close>.\<close>

definition restart :: "mclient \<Rightarrow> client_event list \<times> mclient" where
  "restart c =
     ([Offline_cb, Delay (if reconnect_interval c > 0 then rt_tick_from_millisecond (reconnect_interval c) else 5000)],
      net_disconnect c)"

definition jump :: "next_step \<Rightarrow> mclient \<Rightarrow> (location \<times> client_event list \<times> mclient) option" where
  "jump n c =
     (case n of
        Continue \<Rightarrow> Some (In_loop, [], c)
      | Wait_pipe \<Rightarrow> Some (Reading, [], c)
      | To_restart \<Rightarrow> (let (es, c1) = restart c in Some (At_start, es, c1))
      | To_disconnect \<Rightarrow> do { (_, c1) \<leftarrow> MQTTDisconnect c; let (es, c2) = restart c1; Some (At_start, es, c2) }
      | To_exit \<Rightarrow> do { (_, c1) \<leftarrow> MQTTDisconnect c; Some (Ended, [], net_disconnect_exit c1) })"

text \<open>The thread as a step relation: a session's start, a pass of the loop, a read that waited. Between its steps the
  environment moves: bytes and failures arrive, and other threads publish.\<close>

type_synonym 'a mstate = "location \<times> mclient \<times> 'a"

inductive thread_step :: "(nat \<Rightarrow> 'a callback) \<Rightarrow> 'a callback \<Rightarrow> 'a mstate \<Rightarrow> client_event list \<Rightarrow> 'a mstate \<Rightarrow> bool"
  for cb default_cb where
  session: "start_session env now c = Some (n, es, c1) \<Longrightarrow> jump n c1 = Some (l, es', c2) \<Longrightarrow>
    thread_step cb default_cb (At_start, c, a) (es @ es') (l, c2, a)"
| pass: "loop_pass cb default_cb env c a = Some (n, c1, a1) \<Longrightarrow> jump n c1 = Some (l, es, c2) \<Longrightarrow>
    thread_step cb default_cb (In_loop, c, a) es (l, c2, a1)"
| read_again: "pipe_ready_pass addr c = Some (n, c1) \<Longrightarrow> jump n c1 = Some (l, es, c2) \<Longrightarrow>
    thread_step cb default_cb (Reading, c, a) es (l, c2, a)"
| network: "thread_step cb default_cb (l, c, a) [] (l, c\<lparr>inbox := rs, send_results := ss\<rparr>, a)"
| publisher: "write_pass nonblock data woken k (pub_pipe c) = Some (r, ws, p) \<Longrightarrow>
    thread_step cb default_cb (l, c, a) [] (l, c\<lparr>pub_pipe := p\<rparr>, a)"

inductive_cases thread_stepE: "thread_step cb default_cb s es s'"

text \<open>Setting up: \<open>fd_read\<close>, \<open>fd_write\<close> say whether the two \<open>open\<close> calls get a descriptor.\<close>

definition mqtt_pipe_init :: "bool \<Rightarrow> bool \<Rightarrow> bool \<Rightarrow> bool \<Rightarrow> char list option \<Rightarrow> pipe option option" where
  "mqtt_pipe_init mem_ok registered fd_read fd_write pool =
     do { created \<leftarrow> rt_pipe_create mem_ok registered 1024;
          case created of
            None \<Rightarrow> Some None
          | Some p \<Rightarrow>
              if \<not> fd_read then Some None
              else do { (rc, p1) \<leftarrow> pipe_fops_open O_RDONLY True pool p;
                        if rc \<noteq> 0 \<or> \<not> fd_write then Some None
                        else do { (rc', p2) \<leftarrow> pipe_fops_open O_WRONLY True pool p1;
                                  Some (if rc' \<noteq> 0 then None else Some p2) } } }"

definition paho_mqtt_start :: "bool \<Rightarrow> mclient \<Rightarrow> int \<times> mclient" where
  "paho_mqtt_start mutex_ok c =
     (if mutex_ok then (PAHO_SUCCESS, c\<lparr>has_mutex := True\<rparr>) else (PAHO_FAILURE, c\<lparr>has_mutex := False\<rparr>))"

section \<open>Topic filters\<close>

text \<open>The reference: filter and topic as their levels, the texts between the separators. \<open>join\<close> puts levels back
  together.\<close>

fun join :: "string list \<Rightarrow> string" where
  "join [] = []"
| "join [l] = l"
| "join (l # ls) = l @ CHR ''/'' # join ls"

fun levels_match :: "string list \<Rightarrow> string list \<Rightarrow> bool" where
  "levels_match (f # fs) (n # ns) =
     (if f = ''#'' then n \<noteq> []
      else (if f = ''+'' then n \<noteq> [] else f = n) \<and>
           (if fs = [] then ns = [] else ns \<noteq> [] \<and> levels_match fs ns))"
| "levels_match fs ns = (fs = [] \<and> ns = [])"

definition wildcard_free :: "string \<Rightarrow> bool" where
  "wildcard_free l \<longleftrightarrow> CHR ''+'' \<notin> set l \<and> CHR ''#'' \<notin> set l"

text \<open>A proper filter: wildcards are levels of their own, \<open>#\<close> only the last one.\<close>

fun proper_filter :: "string list \<Rightarrow> bool" where
  "proper_filter [] \<longleftrightarrow> False"
| "proper_filter [l] \<longleftrightarrow> CHR ''/'' \<notin> set l \<and> (wildcard_free l \<or> l = ''+'' \<or> l = ''#'')"
| "proper_filter (l # ls) \<longleftrightarrow> CHR ''/'' \<notin> set l \<and> (wildcard_free l \<or> l = ''+'') \<and> proper_filter ls"

text \<open>A text that a level can be followed by: nothing, or a separator.\<close>

definition level_end :: "string \<Rightarrow> bool" where
  "level_end r \<longleftrightarrow> (case r of [] \<Rightarrow> True | c # _ \<Rightarrow> c = CHR ''/'')"

lemma match_Nil [simp]: "isTopicMatched [] ns \<longleftrightarrow> ns = []" "isTopicMatched fs [] \<longleftrightarrow> fs = []"
  by (cases ns; simp) (cases fs; simp)

lemma match_plain:
  assumes "wildcard_free f" and "CHR ''/'' \<notin> set f" and "CHR ''/'' \<notin> set n" and "level_end r" and "level_end s"
  shows "isTopicMatched (f @ r) (n @ s) \<longleftrightarrow> f = n \<and> isTopicMatched r s"
  using assms
proof (induction f arbitrary: n)
  case Nil
  then show ?case by (cases n; cases r) (auto simp: level_end_def)
next
  case (Cons x f)
  show ?case
  proof (cases n)
    case Nil
    then show ?thesis using Cons.prems by (cases s) (auto simp: level_end_def)
  next
    case (Cons y n')
    have "isTopicMatched (f @ r) (n' @ s) \<longleftrightarrow> f = n' \<and> isTopicMatched r s"
      by (rule Cons.IH) (use Cons.prems Cons in \<open>auto simp: wildcard_free_def\<close>)
    then show ?thesis using Cons.prems Cons by (auto simp: wildcard_free_def)
  qed
qed

lemma match_plus:
  assumes "CHR ''/'' \<notin> set n" and "level_end s"
  shows "isTopicMatched (CHR ''+'' # r) (n @ s) \<longleftrightarrow> n \<noteq> [] \<and> isTopicMatched r s"
proof -
  have e: "dropWhile (\<lambda>c. c \<noteq> CHR ''/'') s = s" using assms(2) by (cases s) (auto simp: level_end_def)
  have d: "dropWhile (\<lambda>c. c \<noteq> CHR ''/'') (m @ s) = s" if "CHR ''/'' \<notin> set m" for m
    using that e by (induction m) auto
  show ?thesis
  proof (cases n)
    case Nil
    then show ?thesis using assms(2) by (cases s) (auto simp: level_end_def)
  next
    case (Cons y n')
    then show ?thesis using assms(1) d [of n'] by auto
  qed
qed

lemma match_hash: "CHR ''/'' \<notin> set n \<Longrightarrow> level_end s \<Longrightarrow> isTopicMatched ''#'' (n @ s) \<longleftrightarrow> n \<noteq> []"
  by (cases n; cases s) (auto simp: level_end_def)

lemma match_separator: "isTopicMatched (CHR ''/'' # fs) (CHR ''/'' # ns) \<longleftrightarrow> isTopicMatched fs ns"
  by simp

lemma join_Cons: "join (l # ls) = l @ (if ls = [] then [] else CHR ''/'' # join ls)"
  by (cases ls) auto

lemma join_end: "level_end (if ls = [] then [] else CHR ''/'' # join ls)"
  by (simp add: level_end_def)

lemma match_rest:
  "isTopicMatched (if fs = [] then [] else CHR ''/'' # join fs) (if ns = [] then [] else CHR ''/'' # join ns) \<longleftrightarrow>
   (if fs = [] then ns = [] else ns \<noteq> [] \<and> isTopicMatched (join fs) (join ns))"
  by simp

lemma topic_levels:
  assumes "proper_filter fs" and "ns \<noteq> []" and "list_all (\<lambda>n. CHR ''/'' \<notin> set n) ns"
  shows "isTopicMatched (join fs) (join ns) \<longleftrightarrow> levels_match fs ns"
  using assms
proof (induction fs arbitrary: ns)
  case (Cons f fs)
  obtain n ns' where ns: "ns = n # ns'" using Cons.prems(2) by (cases ns) auto
  have n: "CHR ''/'' \<notin> set n" using Cons.prems(3) ns by simp
  let ?r = "if fs = [] then [] else CHR ''/'' # join fs" and ?s = "if ns' = [] then [] else CHR ''/'' # join ns'"
  have rest: "isTopicMatched ?r ?s \<longleftrightarrow> (if fs = [] then ns' = [] else ns' \<noteq> [] \<and> levels_match fs ns')"
    unfolding match_rest using Cons.IH [of ns'] Cons.prems ns by (cases fs) auto
  consider "f = ''#''" "fs = []" | "f = ''+''" | "wildcard_free f" "CHR ''/'' \<notin> set f"
    using Cons.prems(1) by (cases fs) auto
  then show ?case
  proof cases
    case 1
    then show ?thesis using match_hash [OF n join_end [of ns']] by (simp add: ns join_Cons)
  next
    case 2
    then show ?thesis using match_plus [OF n join_end [of ns'], of ?r] rest by (simp add: ns join_Cons)
  next
    case 3
    then have "f \<noteq> ''#''" "f \<noteq> ''+''" by (auto simp: wildcard_free_def)
    then show ?thesis
      using match_plain [OF 3(1,2) n join_end [of fs] join_end [of ns']] rest by (simp add: ns join_Cons)
  qed
qed simp

section \<open>Reading a packet\<close>

text \<open>The inbox once the front of a chunk has been taken.\<close>

definition pending :: "string \<Rightarrow> recv_result list \<Rightarrow> recv_result list" where
  "pending xs rest = (if xs = [] then rest else Chunk xs # rest)"

lemma recv_chunk: "recv n (c\<lparr>inbox := Chunk xs # rest\<rparr>) = (Chunk (take n xs), c\<lparr>inbox := pending (drop n xs) rest\<rparr>)"
  by (simp add: recv_def pending_def)

lemma net_read_chunk:
  assumes "length ys = n" and "0 < n"
  shows "net_read off n t dst (c\<lparr>inbox := Chunk (ys @ zs) # rest\<rparr>) =
    do { dst' \<leftarrow> mem_store off ys dst; Some (int n, dst', c\<lparr>inbox := pending zs rest\<rparr>) }"
  using assms by (cases "mem_store off ys dst") (simp_all add: net_read_def net_pass_def recv_chunk)

lemma net_char_chunk:
  "net_char (c\<lparr>inbox := Chunk (x # zs) # rest\<rparr>) = Some (Some x, c\<lparr>inbox := pending zs rest\<rparr>)"
  using net_read_chunk [of "[x]" 1 0 True "[NUL]" zs rest c] by (simp add: net_char_def mem_store_def)

lemma decode_chunk:
  assumes "n < 128 ^ k" and "0 < k"
  shows "MQTTPacket_decode k net_char len mul v (c\<lparr>inbox := Chunk (MQTTPacket_encode n @ r) # rest\<rparr>) =
    Some (len + length (MQTTPacket_encode n), v + n * mul, c\<lparr>inbox := pending r rest\<rparr>)"
  using assms
proof (induction k arbitrary: n len mul v)
  case (Suc k)
  show ?case
  proof (cases "128 \<le> n")
    case False
    then show ?thesis by (simp add: encode_step net_char_chunk)
  next
    case True
    have "0 < k" using True Suc.prems(1) by (cases k) auto
    have "n div 128 < 128 ^ k" using Suc.prems(1) by (simp add: less_mult_imp_div_less mult.commute)
    have p: "pending (MQTTPacket_encode (n div 128) @ r) rest = Chunk (MQTTPacket_encode (n div 128) @ r) # rest"
      by (simp add: pending_def encode_step)
    have "(n mod 128 + 128) mod 256 = n mod 128 + 128" "(n mod 128 + 128) div 128 = 1" by simp_all
    moreover have "v + n mod 128 * mul + n div 128 * (mul * 128) = v + n * mul"
      using mod_div_mult_eq [of n 128] by (metis add.assoc add_mult_distrib mult.assoc mult.commute)
    ultimately show ?thesis
      using Suc.IH [OF \<open>n div 128 < 128 ^ k\<close> \<open>0 < k\<close>] True
      by (simp add: encode_step [of n] net_char_chunk Let_def p)
  qed
qed simp

lemma decodePacket_chunk:
  "n < 268435456 \<Longrightarrow> decodePacket (c\<lparr>inbox := Chunk (MQTTPacket_encode n @ r) # rest\<rparr>) =
    Some (length (MQTTPacket_encode n), n, c\<lparr>inbox := pending r rest\<rparr>)"
  using decode_chunk [of n 4 0 1 0 r rest c] by (simp add: decodePacket_def)

lemma store_twice:
  assumes "mem_store 0 xs m = Some m1"
  shows "mem_store (length xs) ys m1 = mem_store 0 (xs @ ys) m"
proof -
  have "length xs \<le> length m" "m1 = xs @ drop (length xs) m" using assms by (auto simp: mem_store_def split: if_splits)
  then show ?thesis by (auto simp: mem_store_def add.commute)
qed

lemma readPacket_chunk:
  assumes "length body < 268435456"
  shows "MQTTPacket_readPacket (c\<lparr>inbox := Chunk (packet h body @ tail) # rest\<rparr>) =
    (if length (packet h body) \<le> length (readbuf c)
     then Some (int (header_type h),
       c\<lparr>readbuf := packet h body @ drop (length (packet h body)) (readbuf c), inbox := pending tail rest\<rparr>)
     else None)"
proof -
  let ?e = "MQTTPacket_encode (length body)" and ?c = "\<lambda>b i. c\<lparr>readbuf := b, inbox := i\<rparr>"
  have e: "?e \<noteq> []" by (subst MQTTPacket_encode.simps) simp
  have p: "packet h body @ tail = [h] @ ?e @ body @ tail" by (simp add: packet_def)
  have c: "c\<lparr>inbox := i, readbuf := b\<rparr> = c\<lparr>readbuf := b, inbox := i\<rparr>" for i b by simp
  have 1: "net_read 0 1 False (readbuf c) (c\<lparr>inbox := Chunk (packet h body @ tail) # rest\<rparr>) =
      do { b1 \<leftarrow> mem_store 0 [h] (readbuf c); Some (1, b1, c\<lparr>inbox := Chunk (?e @ body @ tail) # rest\<rparr>) }"
    unfolding p using net_read_chunk [of "[h]" 1 0 False "readbuf c" "?e @ body @ tail" rest c]
    by (simp add: pending_def e)
  have 2: "decodePacket (?c b (Chunk (?e @ body @ tail) # rest)) = Some (length ?e, length body, ?c b (pending (body @ tail) rest))" for b
    using decodePacket_chunk [OF assms, of "body @ tail" rest "c\<lparr>readbuf := b\<rparr>"] by simp
  have 3: "net_read off (length body) True dst (?c b (pending (body @ tail) rest)) =
      do { dst' \<leftarrow> (if body = [] then Some dst else mem_store off body dst); Some (int (length body), dst', ?c b (pending tail rest)) }" for off dst b
  proof (cases "body = []")
    case False
    then show ?thesis
      using net_read_chunk [of body "length body" off True dst tail rest "c\<lparr>readbuf := b\<rparr>"] by (simp add: pending_def)
  qed (simp add: net_read_def)
  show ?thesis
  proof (cases "length (packet h body) \<le> length (readbuf c)")
    case True
    then have l: "1 + length ?e + length body \<le> length (readbuf c)" by (simp add: packet_def)
    define b1 where "b1 = [h] @ drop 1 (readbuf c)"
    define b2 where "b2 = (h # ?e) @ drop (1 + length ?e) (readbuf c)"
    have s1: "mem_store 0 [h] (readbuf c) = Some b1" using l by (simp add: mem_store_def b1_def)
    have s2: "mem_store 1 ?e b1 = Some b2"
      using store_twice [OF s1, of ?e] l by (simp add: mem_store_def b2_def)
    have s2': "mem_store 0 (h # ?e) (readbuf c) = Some b2" using l by (simp add: mem_store_def b2_def)
    have s3: "mem_store (1 + length ?e) body b2 = Some (packet h body @ drop (length (packet h body)) (readbuf c))"
      using store_twice [OF s2', of body] l by (simp add: mem_store_def packet_def)
    define b3 where "b3 = packet h body @ drop (length (packet h body)) (readbuf c)"
    have "(if body = [] then Some b2 else mem_store (1 + length ?e) body b2) = Some b3"
      using s3 by (auto simp: b2_def b3_def packet_def)
    then have "(if body = [] then Some b2 else mem_store (Suc (length ?e)) body b2) = Some b3"
      by (simp only: plus_1_eq_Suc)
    then have s4: "net_read (Suc (length ?e)) (length body) True b2 (?c b1 (pending (body @ tail) rest)) =
        Some (int (length body), b3, ?c b1 (pending tail rest))"
      unfolding 3 by (simp only: bind.bind_lunit)
    have "mem_load 0 1 b3 = Some [h]" by (simp add: mem_load_def b3_def packet_def)
    then show ?thesis
      using True 1 s1 s2 s4 2 [of b1] unfolding MQTTPacket_readPacket_def b3_def [symmetric]
      by (simp add: c Let_def)
  next
    case False
    then have l: "length (readbuf c) < 1 + length ?e + length body" by (simp add: packet_def)
    show ?thesis
    proof (cases "mem_store 0 [h] (readbuf c)")
      case None
      then show ?thesis using False 1 by (simp add: MQTTPacket_readPacket_def)
    next
      case (Some b1)
      then have b1: "length b1 = length (readbuf c)" by (rule mem_store_length)
      show ?thesis
      proof (cases "mem_store 1 ?e b1")
        case None
        then show ?thesis using False 1 2 Some by (simp add: c MQTTPacket_readPacket_def Let_def)
      next
        case s2: (Some b2)
        then have "length b2 = length (readbuf c)" "1 + length ?e \<le> length b1"
          using mem_store_length [OF s2] b1 by (auto simp: mem_simps)
        then have "body \<noteq> []" "mem_store (1 + length ?e) body b2 = None" using l b1 by (auto simp: mem_simps)
        then show ?thesis using False 1 2 3 Some s2 by (simp add: c MQTTPacket_readPacket_def Let_def)
      qed
    qed
  qed
qed

section \<open>A message comes in\<close>

lemma send_ack_ok:
  assumes "4 \<le> length (buf c)" and "send_results c = True # ss" and "ty \<noteq> PUBREL"
  shows "send_ack ty i c = Some (0, c\<lparr>buf := packet (header_byte ty 0 0 0) (int_bytes i) @ drop 4 (buf c), send_results := ss,
    sent := sent c @ [packet (header_byte ty 0 0 0) (int_bytes i)]\<rparr>)"
proof -
  have "length (packet (header_byte ty 0 0 0) (int_bytes i)) = 4" by (simp add: packet_def encode_small)
  then show ?thesis using assms by (simp add: send_ack_def serialize_def ack_delivers sendPacket_def)
qed

text \<open>Where the payload of a publish packet begins.\<close>

definition payload_at :: "nat \<Rightarrow> nat \<Rightarrow> string \<Rightarrow> string \<Rightarrow> nat" where
  "payload_at qos packetid topic payload =
     1 + length (MQTTPacket_encode (length (publish_body qos packetid topic payload))) + 2 + length topic +
     (if qos > 0 then 2 else 0)"

lemma cycle_publish:
  fixes body rb topic payload :: string and qos packetid dup retained :: nat and c :: mclient
  defines "body \<equiv> publish_body qos packetid topic payload"
  defines "rb \<equiv> packet (header_byte PUBLISH dup qos retained) body @ drop (length (packet (header_byte PUBLISH dup qos retained) body)) (readbuf c)"
  assumes "dup < 2" and "qos < 4" and "retained < 2" and "packetid < 65536" and "length topic < 65536" and "length body < 268435456"
    and "length (packet (header_byte PUBLISH dup qos retained) body) \<le> length (readbuf c)"
  shows "take (length payload) (drop (payload_at qos packetid topic payload) rb) = payload"
    and "MQTT_cycle cb default_cb now (c\<lparr>inbox := Chunk (packet (header_byte PUBLISH dup qos retained) body @ tail) # rest\<rparr>) a =
      do { (_, c2, a1) \<leftarrow> deliverMessage cb default_cb \<lparr>cstring = None, lenstring = topic\<rparr> (payload_at qos packetid topic payload)
             (int (length payload)) (c\<lparr>readbuf := rb, inbox := pending tail rest\<rparr>) a;
           if qos = 0 then Some (PAHO_SUCCESS, c2, a1)
           else if qos = 1 then do { (rc, c3) \<leftarrow> send_ack PUBACK packetid c2; Some (rc, c3, a1) }
           else if qos = 2 then do { (rc, c3) \<leftarrow> send_ack PUBREC packetid c2; Some (rc, c3, a1) }
           else Some (PAHO_FAILURE, c2, a1) }"
proof -
  obtain p where p: "MQTTDeserialize_publish rb =
      Some (1, \<lparr>pub_flags = Some (dup, qos, retained), pub_packetid = (if qos > 0 then Some packetid else None),
                pub_topic = Some \<lparr>cstring = None, lenstring = topic\<rparr>, pub_payload = Some (p, int (length payload))\<rparr>)"
    "drop p rb = payload @ drop (length (packet (header_byte PUBLISH dup qos retained) body)) (readbuf c)"
    "p = payload_at qos packetid topic payload"
    using deserialize_publish [OF _ assms(3-7), of rb payload] assms(8) unfolding rb_def body_def payload_at_def by blast
  show "take (length payload) (drop (payload_at qos packetid topic payload) rb) = payload"
    using p(2) unfolding p(3) by simp
  have r: "MQTTPacket_readPacket (c\<lparr>inbox := Chunk (packet (header_byte PUBLISH dup qos retained) body @ tail) # rest\<rparr>) =
      Some (3, c\<lparr>readbuf := rb, inbox := pending tail rest\<rparr>)"
    using readPacket_chunk [OF assms(8), of "header_byte PUBLISH dup qos retained" tail rest c] assms(9) header_fields(1) [of 3 dup qos retained] assms(3-5)
    by (simp add: rb_def)
  show "MQTT_cycle cb default_cb now (c\<lparr>inbox := Chunk (packet (header_byte PUBLISH dup qos retained) body @ tail) # rest\<rparr>) a =
      do { (_, c2, a1) \<leftarrow> deliverMessage cb default_cb \<lparr>cstring = None, lenstring = topic\<rparr> (payload_at qos packetid topic payload)
             (int (length payload)) (c\<lparr>readbuf := rb, inbox := pending tail rest\<rparr>) a;
           if qos = 0 then Some (PAHO_SUCCESS, c2, a1)
           else if qos = 1 then do { (rc, c3) \<leftarrow> send_ack PUBACK packetid c2; Some (rc, c3, a1) }
           else if qos = 2 then do { (rc, c3) \<leftarrow> send_ack PUBREC packetid c2; Some (rc, c3, a1) }
           else Some (PAHO_FAILURE, c2, a1) }"
    unfolding MQTT_cycle_def r using p(1) unfolding p(3) by (cases "qos = 0") (simp_all cong: if_cong)
qed

lemma deliver_one:
  assumes "handlers c = [h]" and "matches h topic" and "has_callback h" and "cb 0 off len (readbuf c) a = Some (rb', a')"
  shows "deliverMessage cb default_cb topic off len c a = Some (0, c\<lparr>readbuf := rb'\<rparr>, a')"
  using assms by (simp add: deliverMessage_def)

lemma message_delivered:
  assumes "inbox c = Chunk (packet (header_byte PUBLISH dup qos retained) (publish_body qos packetid topic payload) @ tail) # rest"
    and "rb = packet (header_byte PUBLISH dup qos retained) (publish_body qos packetid topic payload) @
      drop (length (packet (header_byte PUBLISH dup qos retained) (publish_body qos packetid topic payload))) (readbuf c)"
    and "dup < 2" and "qos < 3" and "retained < 2" and "packetid < 65536" and "length topic < 65536"
    and "length (publish_body qos packetid topic payload) < 268435456"
    and "length (packet (header_byte PUBLISH dup qos retained) (publish_body qos packetid topic payload)) \<le> length (readbuf c)"
    and "handlers c = [h]" and "matches h \<lparr>cstring = None, lenstring = topic\<rparr>" and "has_callback h"
    and "cb 0 (payload_at qos packetid topic payload) (int (length payload)) rb a = Some (rb', a')"
    and "4 \<le> length (buf c)" and "send_results c = True # ss"
  shows "take (length payload) (drop (payload_at qos packetid topic payload) rb) = payload \<and>
    (\<exists>c'. MQTT_cycle cb default_cb now c a = Some (0, c', a') \<and> readbuf c' = rb' \<and> inbox c' = pending tail rest \<and>
      sent c' = sent c @
        (if qos = 0 then [] else [packet (header_byte (if qos = 1 then PUBACK else PUBREC) 0 0 0) (int_bytes packetid)]))"
proof -
  let ?body = "publish_body qos packetid topic payload" and ?c = "c\<lparr>readbuf := rb, inbox := pending tail rest\<rparr>"
  have q: "qos < 4" using assms(4) by simp
  note cyc = cycle_publish [OF assms(3) q assms(5-9)]
  have d: "deliverMessage cb default_cb \<lparr>cstring = None, lenstring = topic\<rparr> (payload_at qos packetid topic payload)
      (int (length payload)) ?c a = Some (0, ?c\<lparr>readbuf := rb'\<rparr>, a')"
    by (rule deliver_one [where h = h]) (use assms(10-13) in simp_all)
  have c: "c\<lparr>inbox := Chunk (packet (header_byte PUBLISH dup qos retained) ?body @ tail) # rest\<rparr> = c" using assms(1) by simp
  have ack: "send_ack ty packetid (?c\<lparr>readbuf := rb'\<rparr>) = Some (0, (?c\<lparr>readbuf := rb'\<rparr>)
      \<lparr>buf := packet (header_byte ty 0 0 0) (int_bytes packetid) @ drop 4 (buf c), send_results := ss,
       sent := sent c @ [packet (header_byte ty 0 0 0) (int_bytes packetid)]\<rparr>)" if "ty \<noteq> PUBREL" for ty
    using send_ack_ok [of "?c\<lparr>readbuf := rb'\<rparr>" ss ty] assms(14,15) that by simp
  have "qos = 0 \<or> qos = 1 \<or> qos = 2" using assms(4) by linarith
  then show ?thesis
    using cyc(1) cyc(2) [of cb default_cb now tail rest a] d ack [of PUBACK] ack [of PUBREC]
    unfolding c assms(2) [symmetric] by auto
qed

section \<open>A message goes out\<close>

lemma le_value_bytes: "x < 256 ^ n \<Longrightarrow> le_value (le_bytes n x) = x"
proof (induction n arbitrary: x)
  case (Suc n)
  then have "le_value (le_bytes n (x div 256)) = x div 256" by (simp add: less_mult_imp_div_less mult.commute)
  then show ?case by simp
qed simp

lemma length_le_bytes [simp]: "length (le_bytes n x) = n"
  by (induction n arbitrary: x) auto

lemma length_message_bytes [simp]: "length (message_bytes m) = 16"
  by (simp add: message_bytes_def)

lemma load_number_at:
  assumes "drop p m = le_bytes n x @ r" and "x < 256 ^ n" and "p + n \<le> length m"
  shows "load_number p n m = Some x"
  using mem_load_at [OF assms(1)] assms(2,3) by (simp add: load_number_def le_value_bytes)

text \<open>The bytes of a message, the payload's address replaced, in a buffer, and what the thread makes of them.\<close>

lemma publish_message_ok:
  assumes "rb = message_bytes m @ msg_payload m @ topic @ NUL # r"
    and "msg_qos m < 4294967296" and "msg_retained m < 256" and "msg_id m < 65536" and "length (msg_payload m) < 4294967296"
    and "NUL \<notin> set topic"
  shows "publish_message rb c =
    do { (len, c1) \<leftarrow> serialize (\<lambda>b. MQTTSerialize_publish b 0 (msg_qos m) (msg_retained m) (msg_id m) (cstr topic) (msg_payload m))
           (c\<lparr>readbuf := rb\<rparr>);
         if len \<le> 0 then Some (To_disconnect, c1)
         else let (rc, c2) = sendPacket (nat len) c1
              in Some (if rc \<noteq> PAHO_SUCCESS then To_disconnect else Continue, c2) }"
proof -
  let ?pl = "msg_payload m" and ?rest = "msg_payload m @ topic @ NUL # r"
  have l: "length rb = 16 + length ?pl + length topic + 1 + length r" by (simp add: assms(1))
  have d: "rb = le_bytes 4 (msg_qos m) @ le_bytes 1 (msg_retained m) @ le_bytes 1 (msg_dup m) @ le_bytes 2 (msg_id m) @
      le_bytes 4 (msg_addr m) @ le_bytes 4 (length ?pl) @ ?rest"
    using assms(3) by (simp add: assms(1) message_bytes_def byte_eq_iff)
  have b: "load_number 0 4 rb = Some (msg_qos m)"
    by (rule load_number_at [of 0 rb 4 "msg_qos m" "drop 4 rb"]) (use assms(2) d l in simp_all)
  have r: "load_number 4 1 rb = Some (msg_retained m)"
    by (rule load_number_at [of 4 rb 1 "msg_retained m" "drop 5 rb"]) (use assms(3) d l in simp_all)
  have i: "load_number 6 2 rb = Some (msg_id m)"
    by (rule load_number_at [of 6 rb 2 "msg_id m" "drop 8 rb"]) (use assms(4) d l in simp_all)
  have n: "load_number 12 4 rb = Some (length ?pl)"
    by (rule load_number_at [of 12 rb 4 "length ?pl" "drop 16 rb"]) (use assms(5) d l in simp_all)
  have t: "c_string (16 + length ?pl) rb = Some topic"
    by (rule c_stringI [of _ _ _ r]) (use assms(1,6) in simp_all)
  have p: "mem_load 16 (length ?pl) rb = Some ?pl" by (simp add: mem_load_def l assms(1))
  show ?thesis using b r i n t p by (simp add: publish_message_def)
qed

definition wire :: "MQTTMessage \<Rightarrow> string \<Rightarrow> string" where
  "wire m topic = message_bytes m @ msg_payload m @ topic @ [NUL]"

lemma pipe_write_fits:
  assumes "pipe_ok p" and "xs \<noteq> []" and "length (pipe_bytes p) + length xs \<le> pipe_size p"
  shows "\<exists>p'. pipe_fops_write False xs p = Some (Done (int (length xs)), [Wake_reader], p') \<and> pipe_ok p' \<and>
    pipe_size p' = pipe_size p \<and> pipe_bytes p' = pipe_bytes p @ xs"
proof -
  have "readers p \<noteq> 0" using assms(1) by (simp add: pipe_ok_def)
  then show ?thesis
    using write_pass_eq [OF assms(1), of 0 xs False False] assms(2,3) by (auto simp: pipe_fops_write_def Let_def)
qed

lemma MQTTPublish_ok:
  assumes "isconnected c" and "\<not> isblocking c" and "pipe_ok (pub_pipe c)"
    and "length (pipe_bytes (pub_pipe c)) + length (wire m topic) \<le> pipe_size (pub_pipe c)"
  shows "\<exists>p'. MQTTPublish True lock_rc topic m c = Some (Done PAHO_SUCCESS, c\<lparr>pub_pipe := p'\<rparr>) \<and> pipe_ok p' \<and>
    pipe_size p' = pipe_size (pub_pipe c) \<and> pipe_bytes p' = pipe_bytes (pub_pipe c) @ wire m topic"
proof -
  have "wire m topic \<noteq> []" by (simp add: wire_def)
  from pipe_write_fits [OF assms(3) this assms(4)] show ?thesis
    using assms(1,2) by (auto simp: MQTTPublish_def MQTT_local_send_def wire_def publish_result_def Let_def)
qed

lemma pipe_read_all:
  assumes "pipe_ok p" and "pipe_bytes p \<noteq> []" and "length (pipe_bytes p) \<le> n"
  shows "\<exists>p'. pipe_fops_read False n p = Some (Done (int (length (pipe_bytes p)), pipe_bytes p), [Wake_writer], p') \<and>
    pipe_ok p' \<and> pipe_size p' = pipe_size p \<and> pipe_bytes p' = []"
proof -
  have "writers p \<noteq> 0" using assms(1) by (simp add: pipe_ok_def)
  then show ?thesis using read_pass_eq [OF assms(1), of False n] assms(2,3) by (auto simp: pipe_fops_read_def)
qed

lemma addr_stored:
  "mem_store 8 (le_bytes 4 addr) (message_bytes m @ xs) = Some (message_bytes (m\<lparr>msg_addr := addr\<rparr>) @ xs)"
  by (simp add: mem_store_def message_bytes_def)

lemma pipe_ready_message:
  assumes "pipe_ok (pub_pipe c)" and "pipe_bytes (pub_pipe c) = wire m topic @ r"
    and "length (wire m topic @ r) \<le> length (readbuf c)"
    and "msg_qos m < 4294967296" and "msg_retained m < 256" and "msg_id m < 65536" and "length (msg_payload m) < 4294967296"
    and "NUL \<notin> set topic"
  shows "\<exists>p' rb. pipe_ok p' \<and> pipe_size p' = pipe_size (pub_pipe c) \<and> pipe_bytes p' = [] \<and> length rb = length (readbuf c) \<and>
    pipe_ready_pass addr c =
      do { (len, c1) \<leftarrow> serialize (\<lambda>b. MQTTSerialize_publish b 0 (msg_qos m) (msg_retained m) (msg_id m) (cstr topic) (msg_payload m))
             (c\<lparr>pub_pipe := p', readbuf := rb\<rparr>);
           if len \<le> 0 then Some (To_disconnect, c1)
           else let (rc, c2) = sendPacket (nat len) c1
                in Some (if rc \<noteq> PAHO_SUCCESS then To_disconnect else Continue, c2) }"
proof -
  let ?xs = "wire m topic @ r"
  have ne: "pipe_bytes (pub_pipe c) \<noteq> []" using assms(2) by (simp add: wire_def)
  obtain p' where p': "pipe_fops_read False (length (readbuf c)) (pub_pipe c) = Some (Done (int (length ?xs), ?xs), [Wake_writer], p')"
      "pipe_ok p'" "pipe_size p' = pipe_size (pub_pipe c)" "pipe_bytes p' = []"
    using pipe_read_all [OF assms(1) ne] assms(2,3) by auto
  let ?m = "m\<lparr>msg_addr := addr + 16\<rparr>" and ?t = "r @ drop (length ?xs) (readbuf c)"
  let ?rb = "message_bytes ?m @ msg_payload ?m @ topic @ NUL # ?t"
  have s: "mem_store 0 ?xs (readbuf c) = Some (message_bytes m @ msg_payload m @ topic @ NUL # ?t)"
    using assms(3) by (simp add: mem_store_def wire_def)
  have l: "length ?rb = length (readbuf c)" using assms(3) by (simp add: wire_def)
  have "\<not> int (length ?xs) < 16" by (simp add: wire_def)
  then have "pipe_ready_pass addr c = publish_message ?rb (c\<lparr>pub_pipe := p'\<rparr>)"
    using p'(1) s addr_stored [of "addr + 16" m] by (simp add: pipe_ready_pass_def)
  moreover have "msg_qos ?m < 4294967296" "msg_retained ?m < 256" "msg_id ?m < 65536" "length (msg_payload ?m) < 4294967296"
    using assms(4-7) by simp_all
  note publish_message_ok [OF refl this assms(8), of ?t "c\<lparr>pub_pipe := p'\<rparr>"]
  ultimately show ?thesis using p'(2-4) l by (intro exI [of _ p'] exI [of _ ?rb]) simp
qed

text \<open>The packet that is sent for a message.\<close>

definition publish_packet :: "MQTTMessage \<Rightarrow> string \<Rightarrow> string" where
  "publish_packet m topic =
     packet (header_byte PUBLISH 0 (msg_qos m) (msg_retained m)) (publish_body (msg_qos m) (msg_id m) topic (msg_payload m))"

lemma pipe_message_sent:
  assumes "pipe_ok (pub_pipe c)" and "pipe_bytes (pub_pipe c) = wire m topic @ r"
    and "length (wire m topic @ r) \<le> length (readbuf c)"
    and "msg_qos m < 4" and "msg_retained m < 256" and "msg_id m < 65536" and "length (msg_payload m) + length topic < 268435000"
    and "NUL \<notin> set topic" and "MQTTPacket_len (length (publish_body (msg_qos m) (msg_id m) topic (msg_payload m))) \<le> length (buf c)"
    and "send_results c = True # ss"
  shows "\<exists>c'. pipe_ready_pass addr c = Some (Continue, c') \<and> sent c' = sent c @ [publish_packet m topic] \<and>
    pipe_ok (pub_pipe c') \<and> pipe_bytes (pub_pipe c') = [] \<and> isconnected c' = isconnected c \<and> send_results c' = ss"
proof -
  let ?body = "publish_body (msg_qos m) (msg_id m) topic (msg_payload m)"
    and ?h = "header_byte PUBLISH 0 (msg_qos m) (msg_retained m)"
  have q: "msg_qos m < 4294967296" "length (msg_payload m) < 4294967296" using assms(4,7) by simp_all
  obtain p' rb where p': "pipe_ok p'" "pipe_bytes p' = []"
    "pipe_ready_pass addr c =
      do { (len, c1) \<leftarrow> serialize (\<lambda>b. MQTTSerialize_publish b 0 (msg_qos m) (msg_retained m) (msg_id m) (cstr topic) (msg_payload m))
             (c\<lparr>pub_pipe := p', readbuf := rb\<rparr>);
           if len \<le> 0 then Some (To_disconnect, c1)
           else let (rc, c2) = sendPacket (nat len) c1
                in Some (if rc \<noteq> PAHO_SUCCESS then To_disconnect else Continue, c2) }"
    using pipe_ready_message [OF assms(1-3) q(1) assms(5,6) q(2) assms(8)] by blast
  have b: "length ?body < 268435456" using assms(7) by (simp add: publish_body_def)
  have "MQTTSerialize_publish (buf c) 0 (msg_qos m) (msg_retained m) (msg_id m) (cstr topic) (msg_payload m) =
      Some (int (length (packet ?h ?body)), packet ?h ?body @ drop (length (packet ?h ?body)) (buf c))"
    using publish_delivers [of "cstr topic" "msg_qos m" "msg_id m" "msg_payload m" "buf c" 0 "msg_retained m"] b assms(9)
    by (simp add: delivers_def cstr_def proper_string_def string_of_def)
  moreover have "0 < length (packet ?h ?body)" by (simp add: packet_def)
  ultimately show ?thesis
    using p' assms(10) by (simp add: serialize_def sendPacket_def publish_packet_def)
qed

section \<open>Sessions\<close>

text \<open>Which calls leave the connection flag and the list of handlers alone.\<close>

named_theorems conn_dests \<open>preservation of the connection flag and the handlers\<close>

definition same_session :: "mclient \<Rightarrow> mclient \<Rightarrow> bool" where
  "same_session c c' \<longleftrightarrow> isconnected c' = isconnected c \<and> handlers c' = handlers c \<and> freed c' = freed c"

lemma same_session_refl [simp, intro]: "same_session c c"
  by (simp add: same_session_def)

lemma same_session_trans [trans]: "same_session c c1 \<Longrightarrow> same_session c1 c2 \<Longrightarrow> same_session c c2"
  by (simp add: same_session_def)

lemma same_session_upd [simp]:
  "same_session c (c'\<lparr>readbuf := b\<rparr>) = same_session c c'" "same_session c (c'\<lparr>buf := b\<rparr>) = same_session c c'"
  "same_session c (c'\<lparr>inbox := i\<rparr>) = same_session c c'" "same_session c (c'\<lparr>pub_pipe := p\<rparr>) = same_session c c'"
  "same_session c (c'\<lparr>tick_ping := t\<rparr>) = same_session c c'" "same_session c (c'\<lparr>next_packetid := n\<rparr>) = same_session c c'"
  "same_session c (c'\<lparr>keepAlive := k\<rparr>) = same_session c c'" "same_session c (c'\<lparr>sock := n'\<rparr>) = same_session c c'"
  "same_session c (c'\<lparr>send_results := rs\<rparr>) = same_session c c'" "same_session c (c'\<lparr>sent := xs\<rparr>) = same_session c c'"
  "same_session (c\<lparr>readbuf := b\<rparr>) c' = same_session c c'" "same_session (c\<lparr>buf := b\<rparr>) c' = same_session c c'"
  "same_session (c\<lparr>pub_pipe := p\<rparr>) c' = same_session c c'" "same_session (c\<lparr>next_packetid := n\<rparr>) c' = same_session c c'"
  "same_session (c\<lparr>keepAlive := k\<rparr>) c' = same_session c c'"
  by (simp_all add: same_session_def)

lemma recv_session: "same_session c (snd (recv n c))"
  by (auto simp: recv_def split: list.split recv_result.split)

lemma net_pass_session [conn_dests]: "net_pass off len n dst c = Some (r, dst', c') \<Longrightarrow> same_session c c'"
  using recv_session [of c "len - n"]
  by (auto simp: net_pass_def split: prod.splits recv_result.splits bind_splits)

lemma net_read_session [conn_dests]: "net_read off len t dst c = Some (r, dst', c') \<Longrightarrow> same_session c c'"
  by (auto simp: net_read_def split: if_splits bind_splits dest!: conn_dests simp: same_session_def)

lemma net_char_session [conn_dests]: "net_char c = Some (r, c') \<Longrightarrow> same_session c c'"
  by (auto simp: net_char_def split: bind_splits dest: net_read_session)

lemma decode_session: "MQTTPacket_decode k net_char len mul v c = Some (n, v', c') \<Longrightarrow> same_session c c'"
proof (induction k arbitrary: len mul v c)
  case (Suc k)
  then show ?case
    by (auto simp: Let_def split: bind_splits option.splits if_splits dest!: net_char_session simp: same_session_def)
qed simp

lemma readPacket_session [conn_dests]: "MQTTPacket_readPacket c = Some (r, c') \<Longrightarrow> same_session c c'"
  by (auto simp: MQTTPacket_readPacket_def decodePacket_def Let_def split: bind_splits if_splits
      dest!: net_read_session decode_session simp: same_session_def)

lemma sendPacket_session [conn_dests]: "sendPacket n c = (r, c') \<Longrightarrow> same_session c c'"
  by (auto simp: sendPacket_def split: list.splits bool.splits)

lemma serialize_session [conn_dests]: "serialize f c = Some (r, c') \<Longrightarrow> same_session c c'"
  by (auto simp: serialize_def split: bind_splits)

lemma send_ack_session [conn_dests]: "send_ack ty i c = Some (r, c') \<Longrightarrow> same_session c c'"
  by (auto simp: send_ack_def split: bind_splits if_splits dest!: sendPacket_session serialize_session simp: same_session_def)

lemma deliverMessage_session [conn_dests]:
  "deliverMessage cb default_cb topic off len c a = Some (r, c', a') \<Longrightarrow> same_session c c'"
  by (auto simp: deliverMessage_def split: bind_splits if_splits)

lemma MQTT_cycle_session [conn_dests]:
  assumes "MQTT_cycle cb default_cb now c a = Some (r, c', a')"
  shows "same_session c c'"
proof -
  obtain ty c1 where c1: "MQTTPacket_readPacket c = Some (ty, c1)" using assms by (auto simp: MQTT_cycle_def bind_eq_Some_conv)
  have "same_session c1 c'"
    using assms c1 unfolding MQTT_cycle_def
    by (simp add: bind_eq_Some_conv split: if_splits)
      (auto simp: bind_eq_Some_conv same_session_def Let_def split: if_splits dest!: send_ack_session deliverMessage_session)
  then show ?thesis using readPacket_session [OF c1] same_session_trans by blast
qed

lemma MQTTSubscribe_session [conn_dests]: "MQTTSubscribe sel filt qos c = Some (r, c') \<Longrightarrow> same_session c c'"
  by (auto simp: MQTTSubscribe_def getNextPacketId_def Let_def split: bind_splits if_splits prod.splits
      dest!: readPacket_session sendPacket_session serialize_session simp: same_session_def)

lemma subscribe_all_session: "subscribe_all sel i hs c = Some (r, c') \<Longrightarrow> same_session c c'"
proof (induction hs arbitrary: i c)
  case (Cons h hs)
  then show ?case
    by (auto split: option.splits bind_splits if_splits dest!: MQTTSubscribe_session simp: same_session_def)
qed simp

lemma MQTTConnect_session:
  assumes "MQTTConnect sel c = Some (rc, c')" and "\<not> isconnected c"
  shows "isconnected c' \<longleftrightarrow> rc = 0" and "handlers c' = handlers c" and "freed c' = freed c"
proof -
  show "isconnected c' \<longleftrightarrow> rc = 0" and "handlers c' = handlers c" and "freed c' = freed c"
    using assms
    by (auto simp: MQTTConnect_def Let_def same_session_def split: bind_splits if_splits prod.splits
        dest!: readPacket_session sendPacket_session serialize_session)
qed

lemma net_connect_session: "net_connect mem_ok lookup fd conn c = (rc, c') \<Longrightarrow> same_session c c'"
  by (auto simp: net_connect_def Let_def split: prod.splits if_splits)

lemma MQTTDisconnect_session: "MQTTDisconnect c = Some (rc, c') \<Longrightarrow> \<not> isconnected c' \<and> freed c' = freed c"
  by (auto simp: MQTTDisconnect_def same_session_def Let_def split: bind_splits if_splits prod.splits
      dest!: sendPacket_session serialize_session)

lemma start_session_ok:
  assumes "start_session env now c = Some (n, es, c')" and "\<not> isconnected c"
  shows "isconnected c' \<longleftrightarrow> n = Continue \<or> n = To_disconnect" and "freed c' = freed c"
    and "n = Continue \<and> es = [Connect_cb, Online_cb] \<or> (n = To_disconnect \<or> n = To_restart) \<and> es = [Connect_cb]"
proof -
  obtain rc c1 where c1: "net_connect (host_mem env) (host_lookup env) (socket_fd env) (connect_result env) c = (rc, c1)"
    by (cases "net_connect (host_mem env) (host_lookup env) (socket_fd env) (connect_result env) c")
  have s1: "same_session c c1" by (rule net_connect_session [OF c1])
  then have n1: "\<not> isconnected c1" using assms(2) by (simp add: same_session_def)
  have "(isconnected c' \<longleftrightarrow> n = Continue \<or> n = To_disconnect) \<and> freed c' = freed c \<and>
    (n = Continue \<and> es = [Connect_cb, Online_cb] \<or> (n = To_disconnect \<or> n = To_restart) \<and> es = [Connect_cb])"
  proof (cases "rc = 0")
    case False
    then show ?thesis using assms c1 s1 by (auto simp: start_session_def same_session_def)
  next
    case True
    then obtain rc2 c2 where c2: "MQTTConnect (connack_select env) c1 = Some (rc2, c2)"
      using assms(1) c1 by (auto simp: start_session_def split: bind_splits)
    show ?thesis
    proof (cases "rc2 = 0")
      case False
      then show ?thesis using assms(1) c1 True c2 MQTTConnect_session [OF c2 n1] s1
        by (auto simp: start_session_def same_session_def)
    next
      case rc2: True
      then obtain rc3 c3 where c3: "subscribe_all (suback_select env) 0 (handlers c2) c2 = Some (rc3, c3)"
        using assms(1) c1 True c2 by (auto simp: start_session_def split: bind_splits)
      then show ?thesis
        using assms(1) c1 True c2 rc2 MQTTConnect_session [OF c2 n1] s1 subscribe_all_session [OF c3]
        by (auto simp: start_session_def same_session_def split: if_splits)
    qed
  qed
  then show "isconnected c' \<longleftrightarrow> n = Continue \<or> n = To_disconnect" and "freed c' = freed c"
    and "n = Continue \<and> es = [Connect_cb, Online_cb] \<or> (n = To_disconnect \<or> n = To_restart) \<and> es = [Connect_cb]"
    by auto
qed

lemma publish_message_session:
  assumes "publish_message rb c = Some (n, c')"
  shows "same_session c c' \<and> n \<noteq> To_restart"
proof -
  obtain f len c1 where c1: "serialize f (c\<lparr>readbuf := rb\<rparr>) = Some (len, c1)"
    "(if len \<le> 0 then Some (To_disconnect, c1)
      else let (rc, c2) = sendPacket (nat len) c1
           in Some (if rc \<noteq> PAHO_SUCCESS then To_disconnect else Continue, c2)) = Some (n, c')"
    using assms by (auto simp: publish_message_def bind_eq_Some_conv simp del: not_le)
  then show ?thesis
    by (auto simp: same_session_def split: if_splits prod.splits dest!: sendPacket_session serialize_session)
qed

lemma pipe_ready_pass_session:
  assumes "pipe_ready_pass addr c = Some (n, c')"
  shows "same_session c c' \<and> n \<noteq> To_restart"
proof -
  obtain r ws p where p: "pipe_fops_read False (length (readbuf c)) (pub_pipe c) = Some (r, ws, p)"
    using assms by (auto simp: pipe_ready_pass_def bind_eq_Some_conv)
  show ?thesis
  proof (cases r)
    case (Done d)
    then show ?thesis using assms p
      by (cases d) (auto simp: pipe_ready_pass_def bind_eq_Some_conv Let_def split: if_splits dest!: publish_message_session)
  next
    case (Waiting d)
    then show ?thesis using assms p by (cases d) (auto simp: pipe_ready_pass_def)
  qed
qed

lemma cycle_pass_session:
  "cycle_pass cb default_cb now c a = Some (n, c', a') \<Longrightarrow> same_session c c' \<and> (n = Continue \<or> n = To_disconnect)"
  by (auto simp: cycle_pass_def bind_eq_Some_conv dest!: MQTT_cycle_session)

lemma loop_pass_session:
  assumes "loop_pass cb default_cb env c a = Some (n, c', a')"
  shows "same_session c c' \<and> n \<noteq> To_restart"
  using assms unfolding loop_pass_def
  by (auto simp: bind_eq_Some_conv Let_def same_session_def split: if_splits prod.splits
      dest!: sendPacket_session serialize_session cycle_pass_session pipe_ready_pass_session)

lemma restart_session: "restart c = (es, c') \<Longrightarrow> same_session c c' \<and> (\<exists>d. es = [Offline_cb, Delay d])"
  by (auto simp: restart_def net_disconnect_def)

lemma net_disconnect_exit_session: "\<not> isconnected (net_disconnect_exit c) \<and> freed (net_disconnect_exit c)"
  by (simp add: net_disconnect_exit_def)

text \<open>Whether the application has been told last that it is online.\<close>

definition online :: "client_event list \<Rightarrow> bool" where
  "online es = fold (\<lambda>e b. case e of Online_cb \<Rightarrow> True | Offline_cb \<Rightarrow> False | _ \<Rightarrow> b) es False"

lemma online_simps [simp]:
  "online [] = False" "online (es @ [Online_cb]) = True" "online (es @ [Connect_cb, Online_cb]) = True"
  "online (es @ [Connect_cb]) = online es" "online (es @ [Offline_cb, Delay d]) = False"
  "online (es @ [Connect_cb, Offline_cb, Delay d]) = False"
  by (simp_all add: online_def)

inductive thread_run :: "(nat \<Rightarrow> 'a callback) \<Rightarrow> 'a callback \<Rightarrow> 'a mstate \<Rightarrow> client_event list \<Rightarrow> bool"
  for cb default_cb where
  begin_run: "\<not> isconnected c \<Longrightarrow> \<not> freed c \<Longrightarrow> thread_run cb default_cb (At_start, c, a) []"
| next_run: "thread_run cb default_cb s es \<Longrightarrow> thread_step cb default_cb s es' s' \<Longrightarrow> thread_run cb default_cb s' (es @ es')"

text \<open>The session a location stands for.\<close>

definition session_ok :: "'a mstate \<Rightarrow> client_event list \<Rightarrow> bool" where
  "session_ok s es \<longleftrightarrow> (case s of (l, c, a) \<Rightarrow>
     (isconnected c \<longleftrightarrow> l = In_loop \<or> l = Reading) \<and> (online es \<longleftrightarrow> l \<noteq> At_start) \<and> (freed c \<longleftrightarrow> l = Ended))"

lemma jump_session:
  assumes "jump n c = Some (l, es', c')" and "isconnected c \<longleftrightarrow> n \<noteq> To_restart" and "\<not> freed c"
    and "n \<noteq> To_restart \<Longrightarrow> n \<noteq> To_disconnect \<Longrightarrow> online es"
  shows "session_ok (l, c', a) (es @ es')"
  using assms
  by (cases n)
    (auto simp: jump_def session_ok_def bind_eq_Some_conv same_session_def net_disconnect_exit_session split: prod.splits
      dest!: restart_session MQTTDisconnect_session)

lemma step_session:
  assumes "thread_step cb default_cb s es' s'" and "session_ok s es"
  shows "session_ok s' (es @ es')"
  using assms(1)
proof (cases rule: thread_step.cases)
  case (session env now c n es1 c1 l es2 c2 a)
  then have c: "\<not> isconnected c" "\<not> freed c" using assms(2) by (auto simp: session_ok_def)
  have "session_ok (l, c2, a) ((es @ es1) @ es2)"
    by (rule jump_session [OF session(5)]) (use start_session_ok [OF session(4) c(1)] c in auto)
  then show ?thesis using session by simp
next
  case (pass env c a n c1 a1 l c2)
  then have c: "isconnected c" "\<not> freed c" "online es" using assms(2) by (auto simp: session_ok_def)
  have "session_ok (l, c2, a1) (es @ es')"
    by (rule jump_session [OF pass(4)]) (use loop_pass_session [OF pass(3)] c in \<open>auto simp: same_session_def\<close>)
  then show ?thesis using pass by simp
next
  case (read_again addr c n c1 l c2 a)
  then have c: "isconnected c" "\<not> freed c" "online es" using assms(2) by (auto simp: session_ok_def)
  have "session_ok (l, c2, a) (es @ es')"
    by (rule jump_session [OF read_again(4)])
      (use pipe_ready_pass_session [OF read_again(3)] c in \<open>auto simp: same_session_def\<close>)
  then show ?thesis using read_again by simp
qed (use assms in \<open>auto simp: session_ok_def\<close>)

lemma run_session: "thread_run cb default_cb s es \<Longrightarrow> session_ok s es"
  by (induction rule: thread_run.induct) (auto simp: session_ok_def [of "(At_start, c, a)" "[]" for c a] intro: step_session)

section \<open>Keeping the connection alive\<close>

lemma sint_small: "-2147483648 \<le> i \<Longrightarrow> i < 2147483648 \<Longrightarrow> sint (word_of_int i :: u32) = i"
  by transfer (simp add: signed_take_bit_int_eq_self)

text \<open>The interval and the seconds since the last response as numbers.\<close>

lemma select_seconds_eq:
  assumes "unat (keepAlive c) = k" and "10 \<le> k" and "k < 2000000" and "unat (now - tick_ping c) div 1000 = s"
  shows "select_seconds now c = (if s > k - 5 then 1 else int k - 10 - int s)"
proof -
  let ?ka = "keepAlive c" and ?e = "(now - tick_ping c) div 1000"
  have e: "unat ?e = s" using assms(4) by (simp add: unat_div)
  have "unat (5 :: u32) \<le> unat ?ka" using assms(1,2) by simp
  then have k: "unat (?ka - 5) = k - 5" using assms(1) by (simp add: unat_sub word_le_nat_alt)
  have k1: "?ka = word_of_int (int k)" using assms(1) by auto
  have e1: "?e = word_of_int (int s)" unfolding e [symmetric] by simp
  have w: "?ka - 10 - ?e = word_of_int (int k - 10 - int s)" unfolding k1 e1 by simp
  have "sint (?ka - 10 - ?e) = int k - 10 - int s" if "s \<le> k - 5"
    unfolding w by (rule sint_small) (use that assms(2,3) in linarith)+
  then show ?thesis using e k by (simp add: select_seconds_def Let_def word_less_nat_alt)
qed

lemma select_ticks_eq:
  assumes "-2000000 < t" and "t < 2000000"
  shows "select_ticks t = (if 0 \<le> t then Some (nat (1000 * t)) else None)"
proof -
  have s: "sint (word_of_int (t * 1000) :: u32) = t * 1000" by (rule sint_small) (use assms in linarith)+
  show ?thesis
  proof (cases "0 \<le> t")
    case True
    have "sint (word_of_nat (nat (t * 1000)) :: u32) = t * 1000"
      using True assms sint_small [of "t * 1000"] by simp
    then show ?thesis using True s by (simp add: select_ticks_def rt_tick_from_millisecond_eq mult.commute)
  next
    case False
    have "sint (word_of_nat (2 ^ 32 - 1) :: u32) = -1" by simp
    then show ?thesis using False s by (simp add: select_ticks_def rt_tick_from_millisecond_def)
  qed
qed

section \<open>Comparing topics\<close>

lemma schar_zero: "-256 < i \<Longrightarrow> i < 256 \<Longrightarrow> schar i = 0 \<longleftrightarrow> i = 0"
  by (auto simp: schar_def) presburger

lemma char_code_inj: "char_code c = char_code d \<longleftrightarrow> c = d"
  by (metis byte_code)

lemma strncmp_prefix: "NUL \<notin> set t \<Longrightarrow> rt_strncmp f t (length t) = 0 \<longleftrightarrow> take (length t) f = t"
proof (induction t arbitrary: f)
  case (Cons x t)
  have x: "char_code x \<noteq> 0" using Cons.prems char_code_inj [of x NUL] by (auto simp: char_code_def)
  show ?case
  proof (cases f)
    case Nil
    then show ?thesis using x code_less [of x] by (simp add: schar_zero)
  next
    case (Cons y f')
    have "schar (int (char_code y) - int (char_code x)) = 0 \<longleftrightarrow> int (char_code y) - int (char_code x) = 0"
      by (rule schar_zero) (use code_less [of x] code_less [of y] in linarith)+
    then show ?thesis using Cons Cons.IH [of f'] Cons.prems by (auto simp: char_code_inj)
  qed
qed simp

section \<open>Properties\<close>

text \<open>Property C35. A topic filter is compared level by level: \<open>+\<close> stands for one level and \<open>#\<close> for the rest, but neither for
  levels that are empty, so that, unlike in MQTT, \<open>+\<close> does not match an empty level, \<open>a/#\<close> does not match \<open>a\<close>,
  and \<open>#\<close> no topic that begins with a separator.\<close>

theorem topic_matching:
  assumes "proper_filter fs" and "ns \<noteq> []" and "list_all (\<lambda>n. CHR ''/'' \<notin> set n) ns"
  shows "isTopicMatched (join fs) (join ns) \<longleftrightarrow> levels_match fs ns"
  by (rule topic_levels [OF assms])

theorem topic_matching_witness:
  "isTopicMatched ''home/+/state/#'' ''home/pc/state/power/now'' \<and> \<not> isTopicMatched ''home/#'' ''home'' \<and>
   \<not> isTopicMatched ''home/+'' ''home/''"
  using topic_matching [of "[''home'', ''+'', ''state'', ''#'']" "[''home'', ''pc'', ''state'', ''power'', ''now'']"]
    topic_matching [of "[''home'', ''#'']" "[''home'']"] topic_matching [of "[''home'', ''+'']" "[''home'', []]"]
  by (simp add: wildcard_free_def)

text \<open>Property C7. Reading a packet that has arrived in one piece: exactly when it is not longer than the read buffer is it read
  whole, its type returned and what follows it left for the next call; the length field of a longer one is
  believed all the same and the bytes are written past the end of the buffer.\<close>

theorem read_packet_bound:
  assumes "length body < 268435456"
  shows "MQTTPacket_readPacket (c\<lparr>inbox := Chunk (packet h body @ tail) # rest\<rparr>) =
    (if length (packet h body) \<le> length (readbuf c)
     then Some (int (header_type h),
       c\<lparr>readbuf := packet h body @ drop (length (packet h body)) (readbuf c), inbox := pending tail rest\<rparr>)
     else None)"
  by (rule readPacket_chunk [OF assms])

definition example_client :: mclient where
  "example_client =
     \<lparr>server_uri = ''tcp://host:1883'', sock = 3, isconnected = True, next_packetid = 1, buf = replicate 2048 NUL,
      readbuf = replicate 2048 NUL, keepAlive = 30, connect_timeout = 0, reconnect_interval = 0, isblocking = False,
      tick_ping = 0, condata = example_options,
      handlers = [\<lparr>topicFilter = Some ''down/dev'', has_callback = True, h_qos = 1\<rparr>], has_default = False,
      inbox = [], send_results = [True, True], sent = [], has_mutex = True, pub_pipe = example_pipe, freed = False\<rparr>"

theorem read_packet_bound_witness:
  "MQTTPacket_readPacket (example_client\<lparr>inbox := Chunk (packet (byte 208) [] @ ''xy'') # []\<rparr>) =
     Some (13, example_client\<lparr>readbuf := packet (byte 208) [] @ replicate 2046 NUL, inbox := [Chunk ''xy'']\<rparr>) \<and>
   MQTTPacket_readPacket (example_client\<lparr>inbox := Chunk (packet (byte 48) (replicate 2048 NUL) @ []) # []\<rparr>) = None"
proof -
  have "length (packet (byte 208) []) = 2" by (simp add: packet_def encode_small)
  moreover have "length (readbuf example_client) = 2048" "readbuf example_client = replicate 2048 NUL"
    by (simp_all add: example_client_def)
  moreover have "2048 < length (packet (byte 48) (replicate 2048 NUL))" by (simp add: packet_def)
  ultimately show ?thesis
    using read_packet_bound [of "[]" "byte 208" "''xy''" "[]" example_client]
      read_packet_bound [of "replicate 2048 NUL" "byte 48" "[]" "[]" example_client]
    by (simp add: header_type_def pending_def)
qed

text \<open>Property C4. A message from the server that arrives in one piece, fits and matches the only filter reaches its callback,
  with the payload where the callback is told it is, and, for the qualities of service 1 and 2, is
  acknowledged once with its packet identifier; nothing else is sent.\<close>

theorem publish_delivered:
  assumes "inbox c = Chunk (packet (header_byte PUBLISH dup qos retained) (publish_body qos packetid topic payload) @ tail) # rest"
    and "rb = packet (header_byte PUBLISH dup qos retained) (publish_body qos packetid topic payload) @
      drop (length (packet (header_byte PUBLISH dup qos retained) (publish_body qos packetid topic payload))) (readbuf c)"
    and "dup < 2" and "qos < 3" and "retained < 2" and "packetid < 65536" and "length topic < 65536"
    and "length (publish_body qos packetid topic payload) < 268435456"
    and "length (packet (header_byte PUBLISH dup qos retained) (publish_body qos packetid topic payload)) \<le> length (readbuf c)"
    and "handlers c = [h]" and "matches h \<lparr>cstring = None, lenstring = topic\<rparr>" and "has_callback h"
    and "cb 0 (payload_at qos packetid topic payload) (int (length payload)) rb a = Some (rb', a')"
    and "4 \<le> length (buf c)" and "send_results c = True # ss"
  shows "take (length payload) (drop (payload_at qos packetid topic payload) rb) = payload \<and>
    (\<exists>c'. MQTT_cycle cb default_cb now c a = Some (0, c', a') \<and> readbuf c' = rb' \<and> inbox c' = pending tail rest \<and>
      sent c' = sent c @
        (if qos = 0 then [] else [packet (header_byte (if qos = 1 then PUBACK else PUBREC) 0 0 0) (int_bytes packetid)]))"
  by (rule message_delivered [where cb = cb, OF assms])

text \<open>A callback for examples: it keeps the payload and ends it with a NUL.\<close>

definition note_payload :: "string callback" where
  "note_payload off len rb a = do { rb' \<leftarrow> array_set (off + nat len) NUL rb; Some (rb', take (nat len) (drop off rb)) }"

theorem publish_delivered_witness:
  "\<exists>c' a. MQTT_cycle (\<lambda>i. note_payload) note_payload 5
      (example_client\<lparr>inbox := [Chunk (packet (header_byte PUBLISH 0 1 0) (publish_body 1 77 ''down/dev'' ''on'') @ [])]\<rparr>) [] =
      Some (0, c', a) \<and> inbox c' = [] \<and> sent c' = [packet (header_byte PUBACK 0 0 0) (int_bytes 77)]"
proof -
  let ?p = "packet (header_byte PUBLISH 0 1 0) (publish_body 1 77 ''down/dev'' ''on'')"
  let ?c = "example_client\<lparr>inbox := [Chunk (?p @ [])]\<rparr>" and ?h = "\<lparr>topicFilter = Some ''down/dev'', has_callback = True, h_qos = 1\<rparr>"
  let ?rb = "?p @ drop (length ?p) (readbuf ?c)"
  have l: "length ?p = 16" by (simp add: packet_def publish_body_def encode_small)
  have o: "payload_at 1 77 ''down/dev'' ''on'' = 14" by (simp add: payload_at_def publish_body_def encode_small)
  have b: "length (readbuf ?c) = 2048" "length (buf ?c) = 2048" by (simp_all add: example_client_def)
  have r: "length ?rb = 2048" using l b by simp
  have cb: "note_payload (payload_at 1 77 ''down/dev'' ''on'') (int (length ''on'')) ?rb [] =
      Some (?rb[16 := NUL], take 2 (drop 14 ?rb))"
    unfolding o using r by (simp add: note_payload_def array_set_def)
  have m: "matches ?h \<lparr>cstring = None, lenstring = ''down/dev''\<rparr>" by (simp add: matches_def MQTTPacket_equals_def Let_def)
  have i: "inbox ?c = Chunk (?p @ []) # []" "handlers ?c = [?h]" "send_results ?c = True # [True]" "sent ?c = []" "has_callback ?h"
    by (simp_all add: example_client_def)
  have n: "(0::nat) < 2" "(1::nat) < 3" "(77::nat) < 65536" "length ''down/dev'' < 65536" by simp_all
  have s: "length (publish_body 1 77 ''down/dev'' ''on'') < 268435456" "length ?p \<le> length (readbuf ?c)" "4 \<le> length (buf ?c)"
    using l b by (simp_all add: publish_body_def)
  show ?thesis
    using publish_delivered [where cb = "\<lambda>i. note_payload" and default_cb = note_payload and now = 5,
        OF i(1) refl n(1,2,1,3,4) s(1,2) i(2) m i(5) cb s(3) i(3)] i(4) by (auto simp: pending_def)
qed

text \<open>Property C36. A message published while the pipe is empty is what the thread sends next, as one packet. But the thread takes all
  that is in the pipe with one read and sends only the first message: a second message published before
  that read is reported as published and is never sent.\<close>

theorem second_publish_lost:
  assumes "isconnected c" and "\<not> isblocking c" and "pipe_ok (pub_pipe c)" and "pipe_bytes (pub_pipe c) = []"
    and "length (wire m topic) + length (wire m2 topic2) \<le> min (pipe_size (pub_pipe c)) (length (readbuf c))"
    and "msg_qos m < 4" and "msg_retained m < 256" and "msg_id m < 65536" and "length (msg_payload m) + length topic < 268435000"
    and "NUL \<notin> set topic" and "MQTTPacket_len (length (publish_body (msg_qos m) (msg_id m) topic (msg_payload m))) \<le> length (buf c)"
    and "send_results c = True # ss"
  shows "\<exists>c1 c2 c1' c2'. MQTTPublish True rc topic m c = Some (Done PAHO_SUCCESS, c1) \<and>
    pipe_ready_pass addr c1 = Some (Continue, c1') \<and> sent c1' = sent c @ [publish_packet m topic] \<and>
    MQTTPublish True rc topic2 m2 c1 = Some (Done PAHO_SUCCESS, c2) \<and>
    pipe_ready_pass addr c2 = Some (Continue, c2') \<and> sent c2' = sent c @ [publish_packet m topic] \<and>
    pipe_bytes (pub_pipe c2') = []"
proof -
  obtain p1 where p1: "MQTTPublish True rc topic m c = Some (Done PAHO_SUCCESS, c\<lparr>pub_pipe := p1\<rparr>)" "pipe_ok p1"
      "pipe_size p1 = pipe_size (pub_pipe c)" "pipe_bytes p1 = wire m topic"
    using MQTTPublish_ok [OF assms(1-3), of m topic rc] assms(4,5) by auto
  obtain p2 where p2: "MQTTPublish True rc topic2 m2 (c\<lparr>pub_pipe := p1\<rparr>) = Some (Done PAHO_SUCCESS, c\<lparr>pub_pipe := p2\<rparr>)" "pipe_ok p2"
      "pipe_bytes p2 = wire m topic @ wire m2 topic2"
    using MQTTPublish_ok [of "c\<lparr>pub_pipe := p1\<rparr>" m2 topic2 rc] assms(1,2,5) p1 by auto
  obtain c1' where c1': "pipe_ready_pass addr (c\<lparr>pub_pipe := p1\<rparr>) = Some (Continue, c1')" "sent c1' = sent c @ [publish_packet m topic]"
    using pipe_message_sent [of "c\<lparr>pub_pipe := p1\<rparr>" m topic "[]" ss addr] assms(5-12) p1 by auto
  obtain c2' where "pipe_ready_pass addr (c\<lparr>pub_pipe := p2\<rparr>) = Some (Continue, c2')" "sent c2' = sent c @ [publish_packet m topic]"
      "pipe_bytes (pub_pipe c2') = []"
    using pipe_message_sent [of "c\<lparr>pub_pipe := p2\<rparr>" m topic "wire m2 topic2" ss addr] assms(5-12) p2 by auto
  then show ?thesis using p1(1) p2(1) c1' by blast
qed

definition big_pipe :: pipe where
  "big_pipe = \<lparr>fifo = Some \<lparr>buffer_ptr = replicate 1024 NUL, read_mirror = False, read_index = 0, write_mirror = False,
     write_index = 0, buffer_size = 1024\<rparr>, bufsz = 1024, readers = 1, writers = 1, ref_count = 2, is_named = True\<rparr>"

lemma big_pipe_ok: "pipe_ok big_pipe" "pipe_size big_pipe = 1024" "pipe_bytes big_pipe = []"
  by (simp_all add: pipe_ok_def pipe_size_def pipe_bytes_def big_pipe_def rb_inv_def rb_abs_def rb_data_len_def
      rb_status_def ring_slice_def)

definition example_message :: "string \<Rightarrow> MQTTMessage" where
  "example_message s = \<lparr>msg_qos = 1, msg_retained = 0, msg_dup = 9, msg_id = 4711, msg_addr = 0, msg_payload = s\<rparr>"

theorem second_publish_lost_witness:
  "\<exists>c1 c2 c2'. MQTTPublish True 0 ''up'' (example_message ''one'') (example_client\<lparr>pub_pipe := big_pipe\<rparr>) = Some (Done 0, c1) \<and>
    MQTTPublish True 0 ''up'' (example_message ''two'') c1 = Some (Done 0, c2) \<and>
    pipe_ready_pass 0 c2 = Some (Continue, c2') \<and> sent c2' = [publish_packet (example_message ''one'') ''up''] \<and>
    pipe_bytes (pub_pipe c2') = []"
proof -
  let ?c = "example_client\<lparr>pub_pipe := big_pipe\<rparr>"
  have c: "isconnected ?c" "\<not> isblocking ?c" "pipe_ok (pub_pipe ?c)" "pipe_bytes (pub_pipe ?c) = []" "send_results ?c = True # [True]"
    "sent ?c = []" "length (buf ?c) = 2048" "length (readbuf ?c) = 2048" "pipe_size (pub_pipe ?c) = 1024"
    by (simp_all add: example_client_def big_pipe_ok)
  have m: "length (wire (example_message ''one'') ''up'') + length (wire (example_message ''two'') ''up'') \<le>
      min (pipe_size (pub_pipe ?c)) (length (readbuf ?c))" "msg_qos (example_message s) < 4" "msg_retained (example_message s) < 256"
    "msg_id (example_message s) < 65536" "length (msg_payload (example_message ''one'')) + length ''up'' < 268435000" "NUL \<notin> set ''up''"
    "MQTTPacket_len (length (publish_body (msg_qos (example_message ''one'')) (msg_id (example_message ''one'')) ''up''
      (msg_payload (example_message ''one'')))) \<le> length (buf ?c)" for s
    unfolding c by (simp_all add: wire_def example_message_def publish_body_def MQTTPacket_len_def)
  from second_publish_lost [OF c(1-4) m c(5), of 0 0] show ?thesis unfolding c(6) by auto
qed


text \<open>Property C37. The wait of the loop with a keep-alive interval of \<open>k\<close> seconds, \<open>s\<close> seconds after the last response: until \<open>k - 10\<close>
  seconds have passed it lasts to that moment, after \<open>k - 5\<close> one second; but in the five seconds in between the
  difference is negative, which is a wait for ever, and no ping is sent.\<close>

theorem keepalive_wait:
  assumes "unat (keepAlive c) = k" and "10 \<le> k" and "k < 2000000" and "unat (now - tick_ping c) div 1000 = s"
  shows "select_ticks (select_seconds now c) =
    (if s \<le> k - 10 then Some (1000 * (k - 10 - s)) else if s \<le> k - 5 then None else Some 1000)"
proof -
  have "-2000000 < select_seconds now c" "select_seconds now c < 2000000"
    using select_seconds_eq [OF assms] assms(2,3) by (auto split: if_splits)
  note t = select_ticks_eq [OF this]
  show ?thesis unfolding t unfolding select_seconds_eq [OF assms] using assms(2) by auto
qed

theorem keepalive_wait_witness:
  "select_ticks (select_seconds 5000 example_client) = Some 15000 \<and> select_ticks (select_seconds 21000 example_client) = None \<and>
   select_ticks (select_seconds 26000 example_client) = Some 1000"
  using keepalive_wait [of example_client 30 5000 5] keepalive_wait [of example_client 30 21000 21]
    keepalive_wait [of example_client 30 26000 26]
  by (simp add: example_client_def)

section \<open>Establishing a session\<close>

lemma serialize_Some: "f (buf c) = Some (len, b) \<Longrightarrow> serialize f c = Some (len, c\<lparr>buf := b\<rparr>)"
  by (simp add: serialize_def)

lemma delivers_fits:
  assumes "delivers r b h body" and "MQTTPacket_len (length body) \<le> length b" and "length body < 268435456"
  shows "\<exists>b'. r = Some (int (length (packet h body)), b') \<and> take (length (packet h body)) b' = packet h body \<and> length b' = length b"
  using assms length_packet [OF assms(3), of h] by (auto simp: delivers_def)

lemma send_serialized:
  assumes "delivers (f (buf c)) (buf c) h body" and "MQTTPacket_len (length body) \<le> length (buf c)" and "length body < 268435456"
    and "send_results c = True # ss"
  obtains b' where "serialize f c = Some (int (length (packet h body)), c\<lparr>buf := b'\<rparr>)" and "length b' = length (buf c)"
    and "0 < length (packet h body)"
    and "sendPacket (length (packet h body)) (c\<lparr>buf := b'\<rparr>) =
      (0, c\<lparr>buf := b', send_results := ss, sent := sent c @ [packet h body]\<rparr>)"
proof -
  obtain b' where "f (buf c) = Some (int (length (packet h body)), b')" "take (length (packet h body)) b' = packet h body"
      "length b' = length (buf c)"
    using delivers_fits [OF assms(1-3)] by blast
  moreover have "0 < length (packet h body)" by (simp add: packet_def)
  ultimately show ?thesis by (intro that [of b']) (simp_all add: serialize_Some sendPacket_def assms(4))
qed

lemma MQTTConnect_ok:
  assumes "\<not> isconnected c" and "proper_options (condata c)" and "length (connect_body (condata c)) < 268435456"
    and "MQTTPacket_len (length (connect_body (condata c))) \<le> length (buf c)" and "send_results c = True # ss" and "0 < selected"
    and "inbox c = Chunk (packet (header_byte CONNACK 0 0 0) [x, y] @ tail) # rest" and "4 \<le> length (readbuf c)"
  shows "\<exists>b rb. length b = length (buf c) \<and> length rb = length (readbuf c) \<and>
    MQTTConnect selected c = Some (int (char_code y),
      c\<lparr>keepAlive := word_of_nat (keepAliveInterval (condata c)), buf := b, readbuf := rb, inbox := pending tail rest,
        send_results := ss, sent := sent c @ [packet (header_byte CONNECT 0 0 0) (connect_body (condata c))],
        isconnected := (char_code y = 0)\<rparr>)"
proof -
  let ?k = "c\<lparr>keepAlive := word_of_nat (keepAliveInterval (condata c))\<rparr>"
  let ?body = "connect_body (condata c)" and ?h = "header_byte CONNECT 0 0 0" and ?a = "packet (header_byte CONNACK 0 0 0) [x, y]"
  obtain b where b: "serialize (\<lambda>b. MQTTSerialize_connect b (condata c)) ?k = Some (int (length (packet ?h ?body)), ?k\<lparr>buf := b\<rparr>)"
    "length b = length (buf ?k)" "0 < length (packet ?h ?body)"
    "sendPacket (length (packet ?h ?body)) (?k\<lparr>buf := b\<rparr>) =
      (0, ?k\<lparr>buf := b, send_results := ss, sent := sent ?k @ [packet ?h ?body]\<rparr>)"
    by (rule send_serialized [of "\<lambda>b. MQTTSerialize_connect b (condata c)" ?k ?h ?body ss])
      (use connect_delivers [OF assms(2,3)] assms(3-5) in simp_all)
  let ?c2 = "?k\<lparr>buf := b, send_results := ss, sent := sent c @ [packet ?h ?body]\<rparr>"
  have l: "length ?a = 4" by (simp add: packet_def encode_small)
  have i: "?c2 = ?c2\<lparr>inbox := Chunk (?a @ tail) # rest\<rparr>" using assms(7) by simp
  let ?rb = "?a @ drop (length ?a) (readbuf c)"
  have r: "MQTTPacket_readPacket ?c2 = Some (2, ?c2\<lparr>readbuf := ?rb, inbox := pending tail rest\<rparr>)"
    using readPacket_chunk [of "[x, y]" "header_byte CONNACK 0 0 0" tail rest ?c2] header_fields(1) [of 2 0 0 0] l assms(8)
    by (subst i) simp
  have d: "MQTTDeserialize_connack ?rb = Some (1, Some (char_code x div 128, char_code y))"
    by (rule deserialize_connack [OF refl]) simp_all
  show ?thesis
    using b r d assms(1,6) l assms(8)
    by (intro exI [of _ b] exI [of _ ?rb] conjI) (auto simp: MQTTConnect_def Let_def)
qed

lemma MQTTSubscribe_ok:
  assumes "isconnected c" and "next_packetid c < MAX_PACKET_ID" and "length filt < 65536"
    and "MQTTPacket_len (5 + length filt) \<le> length (buf c)" and "send_results c = True # ss" and "0 < selected"
    and "inbox c = Chunk (packet (header_byte SUBACK 0 0 0) (int_bytes i @ [g]) @ tail) # rest" and "i < 65536" and "5 \<le> length (readbuf c)"
  shows "\<exists>b rb. length b = length (buf c) \<and> length rb = length (readbuf c) \<and>
    MQTTSubscribe selected filt qos c = Some (if char_code g = 128 then 128 else 0,
      c\<lparr>next_packetid := next_packetid c + 1, buf := b, readbuf := rb, inbox := pending tail rest, send_results := ss,
        sent := sent c @ [packet (header_byte SUBSCRIBE 0 1 0) (int_bytes (next_packetid c + 1) @ utf_bytes filt @ [byte qos])]\<rparr>)"
proof -
  let ?n = "next_packetid c + 1" and ?h = "header_byte SUBSCRIBE 0 1 0" and ?a = "packet (header_byte SUBACK 0 0 0) (int_bytes i @ [g])"
  let ?k = "c\<lparr>next_packetid := ?n\<rparr>" and ?body = "int_bytes (next_packetid c + 1) @ utf_bytes filt @ [byte qos]"
  have body: "subscribe_body ?n [(cstr filt, qos)] = ?body" by (simp add: subscribe_body_def cstr_def string_of_def)
  have p: "proper_string (cstr filt)" by (simp add: proper_string_def cstr_def)
  have lb: "length ?body = 5 + length filt" by simp
  have dl: "delivers (MQTTSerialize_subscribe (buf ?k) 0 ?n [(cstr filt, qos)]) (buf ?k) ?h ?body"
    using subscribe_delivers [of "[(cstr filt, qos)]" ?n "buf ?k" 0] p assms(3) unfolding body lb by simp
  have m: "MQTTPacket_len (length ?body) \<le> length (buf ?k)" using assms(4) unfolding lb by simp
  have ss: "send_results ?k = True # ss" and lt: "length ?body < 268435456" using assms(3,5) by simp_all
  obtain b where b: "serialize (\<lambda>b. MQTTSerialize_subscribe b 0 ?n [(cstr filt, qos)]) ?k = Some (int (length (packet ?h ?body)), ?k\<lparr>buf := b\<rparr>)"
    "length b = length (buf ?k)" "0 < length (packet ?h ?body)"
    "sendPacket (length (packet ?h ?body)) (?k\<lparr>buf := b\<rparr>) =
      (0, ?k\<lparr>buf := b, send_results := ss, sent := sent ?k @ [packet ?h ?body]\<rparr>)"
    by (rule send_serialized [of "\<lambda>b. MQTTSerialize_subscribe b 0 ?n [(cstr filt, qos)]" ?k ?h ?body ss, OF dl m lt ss])
  let ?c2 = "?k\<lparr>buf := b, send_results := ss, sent := sent c @ [packet ?h ?body]\<rparr>"
  have l: "length ?a = 5" by (simp add: packet_def encode_small)
  have i: "?c2 = ?c2\<lparr>inbox := Chunk (?a @ tail) # rest\<rparr>" using assms(7) by simp
  let ?rb = "?a @ drop (length ?a) (readbuf c)"
  have r: "MQTTPacket_readPacket ?c2 = Some (9, ?c2\<lparr>readbuf := ?rb, inbox := pending tail rest\<rparr>)"
    using readPacket_chunk [of "int_bytes i @ [g]" "header_byte SUBACK 0 0 0" tail rest ?c2] header_fields(1) [of 9 0 0 0] l assms(9)
    by (subst i) simp
  have sl: "length [g] < 126" by simp
  have z: "(0 :: nat) < 2" "(0 :: nat) < 4" by simp_all
  note ds = deserialize_suback [OF refl z(1,2,1) assms(8) sl, of "drop (length ?a) (readbuf c)"]
  have d: "MQTTDeserialize_suback ?rb 1 [-1] = Some (1, [int (char_code g)])"
    using ds(1) [of 1 "[-1]"] suback_codes [of ?rb g "[]" "drop (length ?a) (readbuf c)" "-1"] ds(2) by simp
  have g: "getNextPacketId c = (?n, ?k)" using assms(2) by (simp add: getNextPacketId_def)
  show ?thesis
    using b r d g assms(1,6) l assms(9)
    by (intro exI [of _ b] exI [of _ ?rb] conjI) (auto simp: MQTTSubscribe_def Let_def)
qed

lemma session_outcome:
  assumes "\<not> isconnected c" and "split_uri (server_uri c) = Some (host, port)" and "host_mem env"
    and "host_lookup env host port = (0, True)" and "socket_fd env \<noteq> -1" and "connect_result env = 0"
    and "0 < connack_select env" and "0 < suback_select env 0"
    and "proper_options (condata c)" and "length (connect_body (condata c)) < 268435456"
    and "MQTTPacket_len (length (connect_body (condata c))) \<le> length (buf c)" and "5 \<le> length (readbuf c)"
    and "handlers c = [h]" and "topicFilter h = Some filt" and "length filt < 65536" and "MQTTPacket_len (5 + length filt) \<le> length (buf c)"
    and "inbox c = Chunk (packet (header_byte CONNACK 0 0 0) [x, y]) # Chunk (packet (header_byte SUBACK 0 0 0) (int_bytes i @ [g])) # rest"
    and "i < 65536" and "send_results c = True # True # ss"
  shows "\<exists>c'. (let conn = packet (header_byte CONNECT 0 0 0) (connect_body (condata c));
            subs = packet (header_byte SUBSCRIBE 0 1 0) (int_bytes 1 @ utf_bytes filt @ [byte (h_qos h)]) in
    if char_code y \<noteq> 0
    then start_session env now c = Some (To_restart, [Connect_cb], c') \<and> \<not> isconnected c' \<and> sent c' = sent c @ [conn]
    else sent c' = sent c @ [conn, subs] \<and> isconnected c' \<and>
      (if char_code g = 128 then start_session env now c = Some (To_disconnect, [Connect_cb], c')
       else start_session env now c = Some (Continue, [Connect_cb, Online_cb], c') \<and> tick_ping c' = now \<and> inbox c' = rest))"
proof -
  let ?c1 = "c\<lparr>sock := socket_fd env, next_packetid := 0\<rparr>"
  have n: "net_connect (host_mem env) (host_lookup env) (socket_fd env) (connect_result env) c = (0, ?c1)"
    using assms(2-6) by (simp add: net_connect_def mqtt_resolve_uri_def Let_def)
  have h: "4 \<le> length (readbuf ?c1)" using assms(12) by simp
  have i: "inbox ?c1 = Chunk (packet (header_byte CONNACK 0 0 0) [x, y] @ []) # Chunk (packet (header_byte SUBACK 0 0 0) (int_bytes i @ [g]) @ []) # rest"
    using assms(17) by simp
  obtain b rb c2 where c2: "MQTTConnect (connack_select env) ?c1 = Some (int (char_code y), c2)" "length b = length (buf c)" "length rb = length (readbuf c)"
    "c2 = ?c1\<lparr>keepAlive := word_of_nat (keepAliveInterval (condata c)), buf := b, readbuf := rb,
        inbox := Chunk (packet (header_byte SUBACK 0 0 0) (int_bytes i @ [g]) @ []) # rest,
        send_results := True # ss, sent := sent c @ [packet (header_byte CONNECT 0 0 0) (connect_body (condata c))],
        isconnected := (char_code y = 0)\<rparr>"
    using MQTTConnect_ok [OF _ _ _ _ _ assms(7) i h, of "True # ss"] assms(1,9-11,19) by (auto simp: pending_def)
  show ?thesis
  proof (cases "char_code y = 0")
    case False
    then show ?thesis using n c2 by (intro exI [of _ c2]) (simp add: start_session_def Let_def)
  next
    case True
    have hs: "handlers c2 = [h]" using assms(13) c2(4) by simp
    have "\<exists>c3. MQTTSubscribe (suback_select env 0) filt (h_qos h) c2 = Some (if char_code g = 128 then 128 else 0, c3) \<and>
        isconnected c3 \<and> inbox c3 = rest \<and> sent c3 = sent c @ [packet (header_byte CONNECT 0 0 0) (connect_body (condata c)),
          packet (header_byte SUBSCRIBE 0 1 0) (int_bytes 1 @ utf_bytes filt @ [byte (h_qos h)])]"
      using MQTTSubscribe_ok [of c2 filt ss "suback_select env 0" i g "[]" rest "h_qos h"] assms(8,12,15,16,18) c2(2-4) True
      by (auto simp: pending_def)
    then obtain c3 where c3: "MQTTSubscribe (suback_select env 0) filt (h_qos h) c2 = Some (if char_code g = 128 then 128 else 0, c3)"
        "isconnected c3" "inbox c3 = rest" "sent c3 = sent c @ [packet (header_byte CONNECT 0 0 0) (connect_body (condata c)),
          packet (header_byte SUBSCRIBE 0 1 0) (int_bytes 1 @ utf_bytes filt @ [byte (h_qos h)])]" by blast
    show ?thesis
    proof (cases "char_code g = 128")
      case g: True
      then show ?thesis using n c2(1) c3 True assms(14) hs
        by (intro exI [of _ c3]) (simp add: start_session_def Let_def)
    next
      case False
      then show ?thesis using n c2(1) c3 True assms(14) hs
        by (intro exI [of _ "c3\<lparr>tick_ping := now\<rparr>"]) (simp add: start_session_def Let_def)
    qed
  qed
qed

definition offline_client :: mclient where
  "offline_client = example_client\<lparr>isconnected := False, inbox :=
     [Chunk (packet (header_byte CONNACK 0 0 0) [byte 0, byte 0]), Chunk (packet (header_byte SUBACK 0 0 0) (int_bytes 1 @ [byte 1]))]\<rparr>"

definition good_env :: session_env where
  "good_env = \<lparr>host_mem = True, host_lookup = (\<lambda>host port. (0, True)), socket_fd = 3, connect_result = 0, connack_select = 1,
     suback_select = (\<lambda>i. 1)\<rparr>"

lemma split_uri_plain:
  assumes "CHR '':'' \<notin> set host" and "hd (host @ [CHR '':'']) \<noteq> CHR ''[''" and "1 \<le> length host" and "1 \<le> length port" and "length port \<le> 5"
  shows "split_uri (''tcp://'' @ host @ CHR '':'' # port) = Some (host, port)"
proof -
  have t: "takeWhile (\<lambda>x. x \<noteq> CHR '':'') (host @ CHR '':'' # port) = host" using assms(1) by (rule takeWhile_until)
  obtain c r where "host = c # r" using assms(3) by (cases host) auto
  then have "take 1 (host @ CHR '':'' # port) \<noteq> ''[''" "host \<noteq> []" "port \<noteq> []" using assms(2,4) by auto
  then show ?thesis using assms(3-5) t by (simp add: split_uri_def find_char_def Let_def)
qed

lemma example_connect:
  "proper_options example_options" "length (connect_body example_options) < 1000" "MQTTPacket_len (length (connect_body example_options)) < 1000"
  by (simp_all add: proper_options_def example_options_def proper_string_def connect_body_def string_of_def given_def MQTTPacket_len_def)

lemma offline_client_simps:
  "isconnected offline_client = False" "server_uri offline_client = ''tcp://host:1883''" "condata offline_client = example_options"
  "length (buf offline_client) = 2048" "length (readbuf offline_client) = 2048" "sent offline_client = []" "freed offline_client = False"
  "handlers offline_client = [\<lparr>topicFilter = Some ''down/dev'', has_callback = True, h_qos = 1\<rparr>]"
  "send_results offline_client = True # True # []"
  "inbox offline_client = Chunk (packet (header_byte CONNACK 0 0 0) [byte 0, byte 0]) #
     Chunk (packet (header_byte SUBACK 0 0 0) (int_bytes 1 @ [byte 1])) # []"
  by (simp_all add: offline_client_def example_client_def)

lemma offline_client_starts:
  "\<exists>c'. start_session good_env 77 offline_client = Some (Continue, [Connect_cb, Online_cb], c')"
proof -
  have u: "split_uri (server_uri offline_client) = Some (''host'', ''1883'')"
    using split_uri_plain [of "''host''" "''1883''"] by (simp add: offline_client_simps)
  have m: "MQTTPacket_len (5 + length ''down/dev'') < 2000" by (simp add: MQTTPacket_len_def)
  let ?g = good_env
  have e: "host_mem ?g" "host_lookup ?g ''host'' ''1883'' = (0, True)" "socket_fd ?g \<noteq> -1" "connect_result ?g = 0"
    "0 < connack_select ?g" "0 < suback_select ?g 0" by (simp_all add: good_env_def)
  from session_outcome [OF _ u e _ _ _ _ offline_client_simps(8) _ _ _ offline_client_simps(10) _ offline_client_simps(9), of "''down/dev''" 77]
  show ?thesis using example_connect m by (auto simp: offline_client_simps Let_def)
qed

text \<open>Property C5. How a session begins when address and connection are found and the server answers: the client sends its connect packet;
  a refusal ends the attempt without a notice to the application. Otherwise it sends its subscription, and unless
  that is refused with code 128 the application is told that it is online and the loop begins.\<close>

theorem session_established:
  assumes "\<not> isconnected c" and "split_uri (server_uri c) = Some (host, port)" and "host_mem env"
    and "host_lookup env host port = (0, True)" and "socket_fd env \<noteq> -1" and "connect_result env = 0"
    and "0 < connack_select env" and "0 < suback_select env 0"
    and "proper_options (condata c)" and "length (connect_body (condata c)) < 268435456"
    and "MQTTPacket_len (length (connect_body (condata c))) \<le> length (buf c)" and "5 \<le> length (readbuf c)"
    and "handlers c = [h]" and "topicFilter h = Some filt" and "length filt < 65536" and "MQTTPacket_len (5 + length filt) \<le> length (buf c)"
    and "inbox c = Chunk (packet (header_byte CONNACK 0 0 0) [x, y]) # Chunk (packet (header_byte SUBACK 0 0 0) (int_bytes i @ [g])) # rest"
    and "i < 65536" and "send_results c = True # True # ss"
  shows "\<exists>c'. (let conn = packet (header_byte CONNECT 0 0 0) (connect_body (condata c));
            subs = packet (header_byte SUBSCRIBE 0 1 0) (int_bytes 1 @ utf_bytes filt @ [byte (h_qos h)]) in
    if char_code y \<noteq> 0
    then start_session env now c = Some (To_restart, [Connect_cb], c') \<and> \<not> isconnected c' \<and> sent c' = sent c @ [conn]
    else sent c' = sent c @ [conn, subs] \<and> isconnected c' \<and>
      (if char_code g = 128 then start_session env now c = Some (To_disconnect, [Connect_cb], c')
       else start_session env now c = Some (Continue, [Connect_cb, Online_cb], c') \<and> tick_ping c' = now \<and> inbox c' = rest))"
  by (rule session_outcome [OF assms])

theorem session_established_witness:
  "\<exists>c'. start_session good_env 77 offline_client = Some (Continue, [Connect_cb, Online_cb], c') \<and> isconnected c' \<and>
    sent c' = [packet (header_byte CONNECT 0 0 0) (connect_body example_options),
      packet (header_byte SUBSCRIBE 0 1 0) (int_bytes 1 @ utf_bytes ''down/dev'' @ [byte 1])]"
proof -
  have u: "split_uri (server_uri offline_client) = Some (''host'', ''1883'')"
    using split_uri_plain [of "''host''" "''1883''"] by (simp add: offline_client_simps)
  have m: "MQTTPacket_len (5 + length ''down/dev'') < 2000" by (simp add: MQTTPacket_len_def)
  let ?g = good_env
  have e: "host_mem ?g" "host_lookup ?g ''host'' ''1883'' = (0, True)" "socket_fd ?g \<noteq> -1" "connect_result ?g = 0"
    "0 < connack_select ?g" "0 < suback_select ?g 0" by (simp_all add: good_env_def)
  from session_established [OF _ u e _ _ _ _ offline_client_simps(8) _ _ _ offline_client_simps(10) _ offline_client_simps(9), of "''down/dev''" 77]
  show ?thesis using example_connect m by (auto simp: offline_client_simps Let_def)
qed


text \<open>Whether a topic is subscribed already is decided on its length only: if an existing filter begins with the new topic,
  the call reports success and nothing is subscribed, and unsubscribing the shorter topic removes the
  longer filter's handler.\<close>

theorem subscribe_prefix_ignored:
  assumes "NUL \<notin> set topic" and "topicFilter (handlers c ! 0) = Some (topic @ more_levels)" and "handlers c \<noteq> []"
    and "length topic < 65536" and "MQTTPacket_len (4 + length topic) \<le> length (buf c)" and "send_results c = True # ss"
    and "next_packetid c < MAX_PACKET_ID"
  shows "paho_mqtt_subscribe dup_ok 1 topic callback c = Some (PAHO_SUCCESS, c) \<and>
    (\<exists>c'. paho_mqtt_unsubscribe topic c = Some (PAHO_SUCCESS, c') \<and> topicFilter (handlers c' ! 0) = None \<and>
      sent c' = sent c @ [packet (header_byte UNSUBSCRIBE 0 1 0) (int_bytes (next_packetid c + 1) @ utf_bytes topic)])"
proof
  have h: "handles topic (handlers c ! 0)" using strncmp_prefix [OF assms(1)] assms(2) by (simp add: handles_def)
  then have "list_ex (handles topic) (handlers c)" using assms(3) by (cases "handlers c") auto
  then show "paho_mqtt_subscribe dup_ok 1 topic callback c = Some (PAHO_SUCCESS, c)" by (simp add: paho_mqtt_subscribe_def)
  have f: "find (\<lambda>i. handles topic (handlers c ! i)) [0..<length (handlers c)] = Some 0"
    using h assms(3) by (cases "handlers c") (simp_all add: upt_conv_Cons del: upt_Suc)
  let ?k = "c\<lparr>next_packetid := next_packetid c + 1\<rparr>" and ?b = "int_bytes (next_packetid c + 1) @ utf_bytes topic"
  have body: "unsubscribe_body (next_packetid c + 1) [cstr topic] = ?b" by (simp add: unsubscribe_body_def cstr_def string_of_def)
  have lb: "length ?b = 4 + length topic" by simp
  have d: "delivers (MQTTSerialize_unsubscribe (buf ?k) 0 (next_packetid c + 1) [cstr topic]) (buf ?k) (header_byte UNSUBSCRIBE 0 1 0) ?b"
    using unsubscribe_delivers [of "[cstr topic]" "next_packetid c + 1" "buf ?k" 0] assms(4) unfolding body lb
    by (simp add: proper_string_def cstr_def)
  have m: "MQTTPacket_len (length ?b) \<le> length (buf ?k)" using assms(5) unfolding lb by simp
  have s: "send_results ?k = True # ss" and lt: "length ?b < 268435456" using assms(4,6) by simp_all
  from send_serialized [of "\<lambda>b. MQTTSerialize_unsubscribe b 0 (next_packetid c + 1) [cstr topic]" ?k, OF d m lt s]
  obtain b' where b': "serialize (\<lambda>b. MQTTSerialize_unsubscribe b 0 (next_packetid c + 1) [cstr topic]) ?k =
      Some (int (length (packet (header_byte UNSUBSCRIBE 0 1 0) ?b)), ?k\<lparr>buf := b'\<rparr>)"
    "0 < length (packet (header_byte UNSUBSCRIBE 0 1 0) ?b)"
    "sendPacket (length (packet (header_byte UNSUBSCRIBE 0 1 0) ?b)) (?k\<lparr>buf := b'\<rparr>) =
      (0, ?k\<lparr>buf := b', send_results := ss, sent := sent ?k @ [packet (header_byte UNSUBSCRIBE 0 1 0) ?b]\<rparr>)" by metis
  have g: "getNextPacketId c = (next_packetid c + 1, ?k)" using assms(7) by (simp add: getNextPacketId_def)
  show "\<exists>c'. paho_mqtt_unsubscribe topic c = Some (PAHO_SUCCESS, c') \<and> topicFilter (handlers c' ! 0) = None \<and>
      sent c' = sent c @ [packet (header_byte UNSUBSCRIBE 0 1 0) ?b]"
    using f g b' assms(3) by (simp add: paho_mqtt_unsubscribe_def Let_def)
qed

theorem subscribe_prefix_ignored_witness:
  "paho_mqtt_subscribe True 1 ''down'' True example_client = Some (0, example_client) \<and>
   (\<exists>c'. paho_mqtt_unsubscribe ''down'' example_client = Some (0, c') \<and> topicFilter (handlers c' ! 0) = None)"
  using subscribe_prefix_ignored [of "''down''" example_client "''/dev''" "[True]" True True]
  by (auto simp: example_client_def MQTTPacket_len_def)

text \<open>The address of a server is taken apart as it was put together: with a host that has no colon and a port of one to five
  characters.\<close>

theorem uri_roundtrip:
  assumes "CHR '':'' \<notin> set host" and "hd (host @ [CHR '':'']) \<noteq> CHR ''[''" and "1 \<le> length host" and "1 \<le> length port" and "length port \<le> 5"
  shows "split_uri (''tcp://'' @ host @ CHR '':'' # port) = Some (host, port)"
  by (rule split_uri_plain [OF assms])

theorem uri_roundtrip_witness:
  "split_uri ''tcp://AFP2CEYM1W.iotcloud.tencentdevices.com:1883'' = Some (''AFP2CEYM1W.iotcloud.tencentdevices.com'', ''1883'')"
  using uri_roundtrip [of "''AFP2CEYM1W.iotcloud.tencentdevices.com''" "''1883''"] by simp

end
