(* ===== verification/BootCheck.thy ===== *)
theory BootCheck
  imports CommonParam
begin

text \<open>
  \<open>applications/boot_check.c\<close>, and \<open>get_ip_from_mac\<close>, which the application adds to lwIP's
  \<open>etharp.c\<close>: finding the computer in the subnet by its hardware address, pinging it, and the thread
  that reports whether it is running.  The network is the environment: the default interface, the
  socket calls and the ARP table as it is after each probe.
\<close>

section \<open>The ARP table\<close>

record arp_entry =
  arp_ipaddr :: u32
  arp_ethaddr :: "u8 list"
  arp_state :: nat

abbreviation (input) ETHARP_STATE_STABLE :: nat where "ETHARP_STATE_STABLE \<equiv> 2"

fun get_ip_from_mac :: "arp_entry list \<Rightarrow> u8 list \<Rightarrow> u32" where
  "get_ip_from_mac [] mac_addr = 0"
| "get_ip_from_mac (e # es) mac_addr =
     (if arp_state e = ETHARP_STATE_STABLE \<and> arp_ethaddr e = mac_addr then arp_ipaddr e
      else get_ip_from_mac es mac_addr)"

definition find_mac :: "u8 list" where
  "find_mac = [0x88, 0xae, 0xdd, 0x15, 0x60, 0x95]"

section \<open>Scanning the subnet\<close>

definition popcount :: "u32 \<Rightarrow> nat" where
  "popcount w = length (filter (bit w) [0..<32])"

text \<open>\<open>num_addresses\<close>, doubled once per bit that is clear in the mask.\<close>

definition num_addresses :: "u32 \<Rightarrow> u32" where
  "num_addresses subnet_mask = ((\<lambda>n. n * 2) ^^ (32 - popcount subnet_mask)) 1"

definition probe_addr :: "u32 \<Rightarrow> nat \<Rightarrow> u32" where
  "probe_addr base_ip i = or base_ip (push_bit 24 (word_of_nat i))"

text \<open>The loop: \<open>lim\<close> is \<open>num_addresses - 1\<close>, \<open>arp i\<close> the ARP table after probe \<open>i\<close>. The results are the
  return value, \<open>computer_ip_addr\<close> and the addresses probed.\<close>

function ping_scan :: "u32 \<Rightarrow> (nat \<Rightarrow> arp_entry list) \<Rightarrow> nat \<Rightarrow> nat \<Rightarrow> u32 \<Rightarrow> u32 list \<Rightarrow> int \<times> u32 \<times> u32 list" where
  "ping_scan base_ip arp lim i addr sent =
     (if i < lim
      then let sent' = sent @ [probe_addr base_ip i];
               addr' = get_ip_from_mac (arp i) find_mac
           in if addr' \<noteq> 0 then (0, addr', sent') else ping_scan base_ip arp lim (i + 1) addr' sent'
      else (-1, addr, sent))"
  by pat_completeness auto
termination by (relation "measure (\<lambda>(base_ip, arp, lim, i, addr, sent). lim - i)") auto

declare ping_scan.simps [simp del]

text \<open>\<open>netif\<close>: address and mask of the default interface. Without one the function returns no value.\<close>

definition ping_and_find_ip ::
  "(u32 \<times> u32) option \<Rightarrow> bool \<Rightarrow> (nat \<Rightarrow> arp_entry list) \<Rightarrow> u32 \<Rightarrow> int option \<times> u32 \<times> u32 list" where
  "ping_and_find_ip netif sock_ok arp computer_ip_addr =
     (case netif of
        None \<Rightarrow> (None, computer_ip_addr, [])
      | Some (ipaddr, netmask) \<Rightarrow>
          if \<not> sock_ok then (Some (-1), computer_ip_addr, [])
          else case ping_scan (and ipaddr netmask) arp (unat (num_addresses netmask - 1)) 1 computer_ip_addr [] of
                 (r, addr, sent) \<Rightarrow> (Some r, addr, sent))"

section \<open>Pinging\<close>

text \<open>\<open>recv\<close>: the datagram received before the timeout, at most 64 bytes; \<open>junk\<close> the buffer before.\<close>

definition ping :: "bool \<Rightarrow> bool \<Rightarrow> u8 list option \<Rightarrow> u8 list \<Rightarrow> int option" where
  "ping sock_ok send_ok recv junk =
     (if \<not> sock_ok then Some 0
      else if \<not> send_ok then Some 0
      else case recv of
             None \<Rightarrow> Some 0
           | Some data \<Rightarrow>
               do { recv_buf \<leftarrow> mem_store 0 data junk;
                    if length data > 0
                    then do { hdr \<leftarrow> mem_load 0 1 recv_buf;
                              ty \<leftarrow> mem_load (unat (and (hd hdr) 0xF) * 4) 1 recv_buf;
                              Some (if hd ty = 0 then 1 else 0) }
                    else Some 0 })"

section \<open>The reporting thread\<close>

text \<open>One turn of either loop begins with a report, when the status has changed.\<close>

definition report_change :: "u32 \<Rightarrow> u32 \<Rightarrow> app \<Rightarrow> app option" where
  "report_change computer_status computer_status_bak a =
     (if computer_status \<noteq> computer_status_bak then send_status computer_status a else Some a)"

text \<open>The loops over the results of \<open>ping_and_find_ip\<close> and of \<open>ping\<close>; a missing return value is used.\<close>

fun watch_scan :: "int option list \<Rightarrow> u32 \<Rightarrow> u32 \<Rightarrow> app \<Rightarrow> (u32 \<times> u32 \<times> app) option" where
  "watch_scan [] status bak a = Some (status, bak, a)"
| "watch_scan (r # rs) status bak a =
     do { a' \<leftarrow> report_change status bak a;
          v \<leftarrow> r;
          if v = -1 then watch_scan rs status status a' else Some (1, status, a') }"

fun watch_ping :: "int list \<Rightarrow> u32 \<Rightarrow> u32 \<Rightarrow> app \<Rightarrow> (u32 \<times> u32 \<times> app) option" where
  "watch_ping [] status bak a = Some (status, bak, a)"
| "watch_ping (r # rs) status bak a =
     do { a' \<leftarrow> report_change status bak a; watch_ping rs (if r = 1 then 1 else 0) status a' }"

definition computer_status_check_thread ::
  "u32 \<Rightarrow> int option list \<Rightarrow> int list \<Rightarrow> app \<Rightarrow> (u32 \<times> u32 \<times> app) option" where
  "computer_status_check_thread computer_ip_addr scans pings a =
     (if computer_ip_addr = 0
      then do { (status, bak, a') \<leftarrow> watch_scan scans 0 1 a; watch_ping pings status bak a' }
      else watch_ping pings 0 1 a)"

section \<open>What the scan probes\<close>

lemma ping_scan_find:
  "ping_scan base arp lim i addr sent =
    (case find (\<lambda>j. get_ip_from_mac (arp j) find_mac \<noteq> 0) [i..<lim] of
       None \<Rightarrow> (-1, if i < lim then 0 else addr, sent @ map (probe_addr base) [i..<lim])
     | Some j \<Rightarrow> (0, get_ip_from_mac (arp j) find_mac, sent @ map (probe_addr base) [i..<j + 1]))"
proof (induction "lim - i" arbitrary: i addr sent)
  case 0
  then show ?case by (subst ping_scan.simps) simp
next
  case (Suc n)
  then have i: "i < lim" "[i..<lim] = i # [Suc i..<lim]" by (simp_all add: upt_conv_Cons)
  show ?case
  proof (cases "get_ip_from_mac (arp i) find_mac = 0")
    case False
    then show ?thesis using i by (simp add: ping_scan.simps [of base arp lim i])
  next
    case True
    have "ping_scan base arp lim i addr sent = ping_scan base arp lim (i + 1) 0 (sent @ [probe_addr base i])"
      using i True by (simp add: ping_scan.simps [of base arp lim i])
    also have "\<dots> = (case find (\<lambda>j. get_ip_from_mac (arp j) find_mac \<noteq> 0) [Suc i..<lim] of
       None \<Rightarrow> (-1, 0, (sent @ [probe_addr base i]) @ map (probe_addr base) [Suc i..<lim])
     | Some j \<Rightarrow> (0, get_ip_from_mac (arp j) find_mac, (sent @ [probe_addr base i]) @ map (probe_addr base) [Suc i..<j + 1]))"
      using Suc.hyps(1) [of "i + 1"] Suc.hyps(2) i by (simp split: option.split)
    finally have e: "ping_scan base arp lim i addr sent = \<dots>" .
    have "\<And>j. find (\<lambda>j. get_ip_from_mac (arp j) find_mac \<noteq> 0) [Suc i..<lim] = Some j \<Longrightarrow> i < j"
      by (auto simp: find_Some_iff)
    then show ?thesis
      unfolding e using i True by (auto split: option.split simp: upt_conv_Cons)
  qed
qed

lemma get_ip_from_mac_found:
  "get_ip_from_mac es mac \<noteq> 0 \<Longrightarrow>
   \<exists>e \<in> set es. arp_state e = ETHARP_STATE_STABLE \<and> arp_ethaddr e = mac \<and> arp_ipaddr e = get_ip_from_mac es mac"
  by (induction es) (auto split: if_splits)

lemma low_mask: "(0xFFFFFF :: u32) = mask 24"
  by (simp add: mask_eq_exp_minus_1)

lemma high_mask: "(0xFF000000 :: u32) = push_bit 24 (mask 8)"
  by (simp add: mask_eq_exp_minus_1 push_bit_eq_mult)

lemma probe_addr_low: "and (probe_addr base i) 0xFFFFFF = and base 0xFFFFFF"
  unfolding low_mask probe_addr_def
  by (rule bit_word_eqI) (auto simp: bit_and_iff bit_or_iff bit_push_bit_iff bit_mask_iff)

lemma bit_of_byte: "i < 256 \<Longrightarrow> bit (word_of_nat i :: u32) n \<longleftrightarrow> n < 8 \<and> bit i n"
proof -
  assume i: "i < 256"
  have "\<not> bit i n" if "8 \<le> n"
  proof -
    have "(2 :: nat) ^ 8 \<le> 2 ^ n" using that by (intro power_increasing) simp_all
    then have "i div 2 ^ n = 0" using i by simp
    then show ?thesis by (simp add: bit_iff_odd)
  qed
  then show ?thesis by (cases "n < 8") (auto simp: bit_of_nat_iff dest: bit_imp_le_length)
qed

lemma probe_addr_high:
  assumes "and base 0xFF000000 = 0" and "i < 256"
  shows "unat (drop_bit 24 (probe_addr base i)) = i"
proof -
  have b: "\<not> bit base (24 + n)" if "n < 8" for n
  proof -
    have "\<not> bit (and base (push_bit 24 (mask 8))) (24 + n)" using assms(1) by (simp add: high_mask)
    then show ?thesis using that by (simp add: bit_and_iff bit_push_bit_iff bit_mask_iff)
  qed
  have "drop_bit 24 (probe_addr base i) = (word_of_nat i :: u32)"
  proof (rule bit_word_eqI)
    fix n assume n: "n < LENGTH(32)"
    have "\<not> bit base (24 + n)" if "8 \<le> n" using that bit_imp_le_length [of base "24 + n"] by auto
    then have "\<not> bit base (24 + n)" using b by (cases "n < 8") auto
    then show "bit (drop_bit 24 (probe_addr base i)) n = bit (word_of_nat i :: u32) n"
      using n by (auto simp: probe_addr_def bit_drop_bit_eq bit_or_iff bit_push_bit_iff bit_of_byte [OF assms(2)])
  qed
  then show ?thesis using assms(2) by (simp add: unat_of_nat)
qed

section \<open>Reports\<close>

fun changes :: "'a \<Rightarrow> 'a list \<Rightarrow> 'a list" where
  "changes b [] = []"
| "changes b (x # xs) = (if x = b then changes b xs else x # changes x xs)"

lemma remdups_adj_changes: "remdups_adj (b # xs) = b # changes b xs"
  by (induction xs arbitrary: b) auto

lemma changes_append: "changes b (xs @ ys) = changes b xs @ changes (last (b # xs)) ys"
  by (induction xs arbitrary: b) auto

text \<open>What the application state keeps while the thread reports, and what its mailbox receives.\<close>

definition reported :: "app \<Rightarrow> app \<Rightarrow> u32 list \<Rightarrow> bool" where
  "reported a a' rs \<longleftrightarrow> app_ok a' \<and> mails_of_ten a' \<and> page_queue a' = page_queue a \<and> on_tokens a' = on_tokens a \<and>
     status_queue a' = status_queue a @ take (10 - length (status_queue a)) rs"

lemma reported_refl: "app_ok a \<Longrightarrow> mails_of_ten a \<Longrightarrow> reported a a []"
  by (simp add: reported_def)

lemma reported_trans: "reported a b xs \<Longrightarrow> reported b c ys \<Longrightarrow> reported a c (xs @ ys)"
  by (auto simp: reported_def min_def)

lemma report_change_ok:
  assumes "app_ok a" and "mails_of_ten a"
  shows "\<exists>a'. report_change s b a = Some a' \<and> reported a a' (changes b [s])"
  using send_status_ok [OF assms(1), of s] assms
  by (cases "s = b") (auto simp: report_change_def reported_def)

definition ping_status :: "int \<Rightarrow> u32" where
  "ping_status r = (if r = 1 then 1 else 0)"

text \<open>The statuses at the beginnings of the turns.\<close>

fun turns :: "u32 \<Rightarrow> int list \<Rightarrow> u32 list" where
  "turns s [] = []"
| "turns s (r # rs) = s # turns (ping_status r) rs"

lemma watch_ping_ok:
  assumes "app_ok a" and "mails_of_ten a"
  shows "\<exists>s' b' a'. watch_ping rs s b a = Some (s', b', a') \<and> reported a a' (changes b (turns s rs))"
  using assms
proof (induction rs arbitrary: s b a)
  case Nil
  then show ?case by (simp add: reported_refl)
next
  case (Cons r rs)
  obtain a1 where a1: "report_change s b a = Some a1" "reported a a1 (changes b [s])"
    using report_change_ok [OF Cons.prems] by blast
  then have "app_ok a1" "mails_of_ten a1" by (simp_all add: reported_def)
  from Cons.IH [OF this, of "ping_status r" s] obtain s' b' a' where
    w: "watch_ping rs (ping_status r) s a1 = Some (s', b', a')" "reported a1 a' (changes s (turns (ping_status r) rs))"
    by blast
  have "reported a a' (changes b [s] @ changes s (turns (ping_status r) rs))"
    by (rule reported_trans [OF a1(2) w(2)])
  then show ?case using a1(1) w(1) by (auto simp: ping_status_def split: if_splits)
qed

lemma watch_scan_ok:
  assumes "app_ok a" and "mails_of_ten a" and "v \<noteq> -1"
  shows "\<exists>a'. watch_scan (replicate n (Some (-1)) @ [Some v]) s b a = Some (1, s, a') \<and> reported a a' (changes b [s])"
  using assms
proof (induction n arbitrary: b a)
  case 0
  then show ?case using report_change_ok [OF 0(1,2), of s b] by auto
next
  case (Suc n)
  obtain a1 where a1: "report_change s b a = Some a1" "reported a a1 (changes b [s])"
    using report_change_ok [OF Suc.prems(1,2)] by blast
  then have "app_ok a1" "mails_of_ten a1" by (simp_all add: reported_def)
  from Suc.IH [OF this Suc.prems(3), of s] obtain a' where
    w: "watch_scan (replicate n (Some (-1)) @ [Some v]) s s a1 = Some (1, s, a')" "reported a1 a' []"
    by auto
  show ?case using a1(1) w(1) reported_trans [OF a1(2) w(2)] by auto
qed

section \<open>The addresses of a scan\<close>

lemma num_addresses_24: "num_addresses 0x00FFFFFF = 256"
proof -
  have "filter (bit (0xFFFFFF :: u32)) [0..<32] = [0..<24]"
    unfolding low_mask by (simp add: bit_mask_iff upt_rec)
  then show ?thesis by (simp add: num_addresses_def popcount_def numeral_eq_Suc)
qed

lemma scan_sent:
  assumes "ping_and_find_ip (Some (ipaddr, netmask)) True arp old = (r, addr, sent)"
  shows "\<exists>m \<le> unat (num_addresses netmask - 1). sent = map (probe_addr (and ipaddr netmask)) [1..<m] \<and>
    (r = Some (-1) \<longrightarrow> m = unat (num_addresses netmask - 1))"
proof (cases "find (\<lambda>i. get_ip_from_mac (arp i) find_mac \<noteq> 0) [1..<unat (num_addresses netmask - 1)]")
  case None
  then show ?thesis using assms unfolding ping_and_find_ip_def by (auto simp: ping_scan_find)
next
  case (Some i)
  then have "sent = map (probe_addr (and ipaddr netmask)) [1..<i + 1]" "r = Some 0"
    using assms unfolding ping_and_find_ip_def by (simp_all add: ping_scan_find)
  then show ?thesis using find_in_range(2) [OF Some] by (intro exI [of _ "i + 1"]) simp
qed

section \<open>Properties\<close>

text \<open>Property C13. Finding the computer: with an interface and a socket the scan probes the addresses in
  increasing order up to the first one after which the computer's hardware address has a stable
  entry in the ARP table, returns success with the address of that entry, and otherwise probes
  all and fails.\<close>

theorem scan_finds_computer:
  "ping_and_find_ip (Some (ipaddr, netmask)) True arp old =
    (let found = (\<lambda>i. get_ip_from_mac (arp i) find_mac);
         n = unat (num_addresses netmask - 1);
         addr_of = probe_addr (and ipaddr netmask)
     in case find (\<lambda>i. found i \<noteq> 0) [1..<n] of
          None \<Rightarrow> (Some (-1), if 1 < n then 0 else old, map addr_of [1..<n])
        | Some i \<Rightarrow> (Some 0, found i, map addr_of [1..<i + 1]))"
  by (simp add: ping_and_find_ip_def ping_scan_find Let_def split: option.split)

definition example_arp :: "nat \<Rightarrow> arp_entry list" where
  "example_arp i = (if i = 7 then [\<lparr>arp_ipaddr = 0x0701A8C0, arp_ethaddr = find_mac, arp_state = 2\<rparr>] else [])"

theorem scan_finds_computer_witness:
  "ping_and_find_ip (Some (0x0501A8C0, 0x00FFFFFF)) True example_arp 0 =
     (Some 0, 0x0701A8C0, map (probe_addr 0x0001A8C0) [1..<8])"
proof -
  have "find (\<lambda>i. get_ip_from_mac (example_arp i) find_mac \<noteq> 0) [1..<255] = Some 7"
    by (subst find_Some_iff) (auto simp: example_arp_def intro!: exI [of _ "6::nat"])
  then show ?thesis
    using scan_finds_computer [where ipaddr = "0x0501A8C0" and netmask = "0x00FFFFFF" and arp = example_arp and old = 0]
    by (simp add: num_addresses_24 example_arp_def)
qed

text \<open>What is probed: in a subnet of 256 addresses every host address exactly once, and
  neither the network nor the broadcast address. But only the last octet of an address is ever
  varied, so in a larger subnet the hosts that differ from the network address in another octet
  are never asked, however often the scan goes round.\<close>

theorem scan_range:
  "(\<forall>r addr sent. ping_and_find_ip (Some (ipaddr, 0x00FFFFFF)) True arp old = (r, addr, sent) \<longrightarrow>
      distinct sent \<and> (r = Some (-1) \<longrightarrow> length sent = 254) \<and>
      (\<forall>a \<in> set sent. and a 0xFFFFFF = and ipaddr 0xFFFFFF \<and> 1 \<le> unat (drop_bit 24 a) \<and> unat (drop_bit 24 a) \<le> 254)) \<and>
   (\<forall>netmask r addr sent. ping_and_find_ip (Some (ipaddr, netmask)) True arp old = (r, addr, sent) \<longrightarrow>
      (\<forall>a \<in> set sent. and a 0xFFFFFF = and (and ipaddr netmask) 0xFFFFFF))"
proof (intro conjI allI impI)
  fix r addr sent
  assume "ping_and_find_ip (Some (ipaddr, 0x00FFFFFF)) True arp old = (r, addr, sent)"
  from scan_sent [OF this] obtain m where m: "m \<le> 255" "r = Some (-1) \<longrightarrow> m = 255"
    and sent: "sent = map (probe_addr (and ipaddr 0xFFFFFF)) [1..<m]"
    by (auto simp: num_addresses_24)
  have b: "and (and ipaddr 0xFFFFFF) 0xFF000000 = 0"
    unfolding low_mask high_mask by (rule bit_word_eqI) (auto simp: bit_and_iff bit_push_bit_iff bit_mask_iff)
  have hi: "unat (drop_bit 24 (probe_addr (and ipaddr 0xFFFFFF) i)) = i" if "i < m" for i
    using probe_addr_high [OF b, of i] that m(1) by simp
  show "distinct sent"
    unfolding sent distinct_map by (auto intro!: inj_onI dest: arg_cong [of _ _ "\<lambda>a. unat (drop_bit 24 a)"] simp: hi)
  show "length sent = 254" if "r = Some (-1)" using m(2) that by (simp add: sent)
  show "\<forall>a \<in> set sent. and a 0xFFFFFF = and ipaddr 0xFFFFFF \<and> 1 \<le> unat (drop_bit 24 a) \<and> unat (drop_bit 24 a) \<le> 254"
    using hi m(1) by (auto simp: sent probe_addr_low)
next
  fix netmask r addr sent
  assume "ping_and_find_ip (Some (ipaddr, netmask)) True arp old = (r, addr, sent)"
  from scan_sent [OF this] show "\<forall>a \<in> set sent. and a 0xFFFFFF = and (and ipaddr netmask) 0xFFFFFF"
    by (auto simp: probe_addr_low)
qed

theorem scan_range_witness:
  "list_all (\<lambda>a. and a 0xFFFFFF = 0xA8C0) (snd (snd (ping_and_find_ip (Some (0x0105A8C0, 0x0000FFFF)) True (\<lambda>i. []) 0)))"
  using scan_range [where ipaddr = "0x0105A8C0" and arp = "\<lambda>i. []" and old = 0]
  by (cases "ping_and_find_ip (Some (0x0105A8C0, 0x0000FFFF)) True (\<lambda>i. []) 0") (auto simp: list_all_iff)

text \<open>What counts as an answer: any datagram whose byte behind the IP header is zero, the
  type of an echo reply, makes the computer count as running. The sender's address in bytes 12 to
  15 is never looked at, so a reply of another host to another ping is as good as the computer's.\<close>

theorem ping_any_reply:
  assumes "length junk = 64" and "length data \<le> 64" and "5 \<le> unat (and (data ! 0) 0xF)"
    and "unat (and (data ! 0) 0xF) * 4 < length data"
  shows "ping True True (Some data) junk = Some (if data ! (unat (and (data ! 0) 0xF) * 4) = 0 then 1 else 0) \<and>
    (\<forall>source. length source = 4 \<longrightarrow>
       ping True True (Some (take 12 data @ source @ drop 16 data)) junk = ping True True (Some data) junk)"
proof -
  have p: "ping True True (Some xs) junk = Some (if xs ! (unat (and (xs ! 0) 0xF) * 4) = 0 then 1 else 0)"
    if "length xs \<le> 64" "unat (and (xs ! 0) 0xF) * 4 < length xs" for xs
  proof -
    have s: "mem_store 0 xs junk = Some (xs @ drop (length xs) junk)" using that assms(1) by (simp add: mem_store_def)
    have l: "mem_load i 1 (xs @ drop (length xs) junk) = Some [xs ! i]" if "i < length xs" for i
      using that by (simp add: mem_load_def take_Suc_conv_app_nth take_Suc hd_drop_conv_nth)
    have "0 < length xs" using that(2) by (cases xs) auto
    then show ?thesis using s l [of 0] l [OF that(2)] by (auto simp: ping_def)
  qed
  have "ping True True (Some (take 12 data @ source @ drop 16 data)) junk = ping True True (Some data) junk"
    if "length source = 4" for source
  proof -
    let ?xs = "take 12 data @ source @ drop 16 data"
    have l: "16 \<le> length data" using assms(3,4) by simp
    have "?xs ! i = data ! i" if "i = 0 \<or> 16 \<le> i" for i
      using that l \<open>length source = 4\<close> by (auto simp: nth_append min_def)
    moreover have "length ?xs = length data" using l that by simp
    ultimately show ?thesis using p [of ?xs] p [of data] assms(2-4) by simp
  qed
  then show ?thesis using p [of data] assms(2,4) by simp
qed

theorem ping_any_reply_witness:
  "ping True True (Some (0x45 # replicate 19 7 @ [0, 0])) (replicate 64 0) = Some 1"
  using ping_any_reply [of "replicate 64 0" "0x45 # replicate 19 7 @ [0, 0]"] by (simp add: nth_append)

text \<open>Property C12. What is reported: started while the computer's address is unknown, the thread sends the
  sequence of statuses at the beginnings of its turns, off until the scan succeeds, then on, then
  the result of each ping, with every repetition left out. Each change is queued once and in order;
  what does not fit the ten places of an unread mailbox is lost without notice.\<close>

theorem monitor_reports_changes:
  assumes "app_ok a" and "mails_of_ten a" and "v \<noteq> -1"
  shows "\<exists>s b a'. computer_status_check_thread 0 (replicate n (Some (-1)) @ [Some v]) pings a = Some (s, b, a') \<and>
    app_ok a' \<and> page_queue a' = page_queue a \<and> on_tokens a' = on_tokens a \<and>
    status_queue a' = status_queue a @ take (10 - length (status_queue a))
      (remdups_adj (0 # butlast (1 # map ping_status pings)))"
proof -
  obtain a1 where a1: "watch_scan (replicate n (Some (-1)) @ [Some v]) 0 1 a = Some (1, 0, a1)" "reported a a1 [0]"
    using watch_scan_ok [OF assms, of n 0 1] by auto
  then have "app_ok a1" "mails_of_ten a1" by (simp_all add: reported_def)
  from watch_ping_ok [OF this, of pings 1 0] obtain s b a' where
    w: "watch_ping pings 1 0 a1 = Some (s, b, a')" "reported a1 a' (changes 0 (turns 1 pings))"
    by blast
  have "turns x rs = butlast (x # map ping_status rs)" for x rs
    by (induction rs arbitrary: x) auto
  then have "remdups_adj (0 # butlast (1 # map ping_status pings)) = 0 # changes 0 (turns 1 pings)"
    by (simp only: remdups_adj_changes)
  then show ?thesis
    using a1(1) w(1) reported_trans [OF a1(2) w(2)] by (simp add: computer_status_check_thread_def reported_def)
qed

theorem monitor_reports_changes_witness:
  "\<exists>s b a'. computer_status_check_thread 0 [Some (-1), Some (-1), Some 0] [1, 1, 0, 0, 1] example_app = Some (s, b, a') \<and>
    status_queue a' = [0, 1, 0]"
  using monitor_reports_changes [OF example_app_ok(1,2), of 0 2 "[1, 1, 0, 0, 1]"]
  by (auto simp: example_app_ok ping_status_def numeral_2_eq_2)

end
