(* ===== verification/Ui.thy ===== *)
theory Ui
  imports CommonParam FileConfig CLib
begin

text \<open>
  \<open>applications/ui.c\<close>: the display thread, one pass of its loop at a time, and the line output of the
  boot sequence.  The graphics library (u8g2, not part of the repository) is a sink for drawing
  commands; the clock, the card and the mail that a pass may receive are its environment.
\<close>

section \<open>State\<close>

datatype draw =
    SetFont string
  | ClearBuffer
  | DrawStr nat nat string
  | DrawXBMP nat nat nat nat
  | DrawHLine nat nat nat
  | SendBuffer

record ui =
  page_index :: u32
  page_index_bak :: u32
  page_changed_flag :: bool
  ui_config :: config_info
  ui_str :: "char list"

abbreviation (input) PAGE_MAX :: u32 where "PAGE_MAX \<equiv> 3"

text \<open>\<open>rt_sprintf(str, ...)\<close> with the text it makes.\<close>

definition rt_sprintf :: "string \<Rightarrow> char list \<Rightarrow> char list option" where
  "rt_sprintf msg str = mem_store 0 (msg @ [NUL]) str"

section \<open>One pass of the thread\<close>

text \<open>A received page number; 100 is the key, which asks for the page after the one last shown.\<close>

definition select_page :: "u32 option \<Rightarrow> ui \<Rightarrow> ui" where
  "select_page mail u =
     (case mail of
        None \<Rightarrow> u
      | Some v \<Rightarrow>
          u\<lparr>page_changed_flag := True,
            page_index := (if v = 100 then (if page_index_bak u = PAGE_MAX then 0 else page_index_bak u + 1) else v)\<rparr>)"

definition clock_text :: "nat \<times> nat \<times> nat \<Rightarrow> string" where
  "clock_text t = (case t of (h, m, s) \<Rightarrow> dec_2 h @ '':'' @ dec_2 m @ '':'' @ dec_2 s @ [CR, LF])"

definition show_clock :: "nat \<times> nat \<times> nat \<Rightarrow> ui \<Rightarrow> (draw list \<times> ui) option" where
  "show_clock t u =
     do { str \<leftarrow> rt_sprintf (clock_text t) (ui_str u);
          Some ([SetFont ''u8g2_font_ncenB14_tf'', ClearBuffer, DrawStr 20 40 (clock_text t), SendBuffer],
                u\<lparr>ui_str := str\<rparr>) }"

text \<open>The pages drawn once; the flag of the result tells whether the pass goes on to its end.\<close>

definition show_page :: "char list \<Rightarrow> sdcard \<Rightarrow> ui \<Rightarrow> (bool \<times> draw list \<times> ui) option" where
  "show_page junk fs u =
     (if page_index u = 1
      then do { (ret, c) \<leftarrow> init_from_file junk ''config.txt'' (ui_config u) fs;
                let ds = [DrawStr 44 20 ''WIFI'', SetFont ''u8g2_font_7x14_tf''];
                if ret = RT_ERROR then Some (False, ds, u\<lparr>ui_config := c\<rparr>)
                else do { name \<leftarrow> config_field wifi_name_ix c;
                          str1 \<leftarrow> rt_sprintf (''ssid:'' @ name) (ui_str u);
                          passwd \<leftarrow> config_field wifi_password_ix c;
                          str2 \<leftarrow> rt_sprintf (''passwd:'' @ passwd) str1;
                          Some (True, ds @ [DrawStr 0 34 (''ssid:'' @ name), DrawStr 0 48 (''passwd:'' @ passwd)],
                                u\<lparr>ui_config := c, ui_str := str2\<rparr>) } }
      else if page_index u = 2
      then do { (ret, c) \<leftarrow> init_from_file junk ''config.txt'' (ui_config u) fs;
                let ds = [DrawStr 49 20 ''MAC'', SetFont ''u8g2_font_7x14_tf''];
                if ret = RT_ERROR then Some (False, ds, u\<lparr>ui_config := c\<rparr>)
                else do { mac \<leftarrow> config_field mac_address_ix c;
                          str1 \<leftarrow> rt_sprintf mac (ui_str u);
                          Some (True, ds @ [DrawStr 0 34 mac], u\<lparr>ui_config := c, ui_str := str1\<rparr>) } }
      else if page_index u = 3 then Some (True, [DrawXBMP 31 0 64 64], u)
      else Some (True, [], u))"

definition ui_pass ::
  "u32 option \<Rightarrow> nat \<times> nat \<times> nat \<Rightarrow> char list \<Rightarrow> sdcard \<Rightarrow> ui \<Rightarrow> (draw list \<times> ui) option" where
  "ui_pass mail time junk fs u0 =
     (let u = select_page mail u0
      in if page_index u = 0
         then do { (ds, u1) \<leftarrow> show_clock time u; Some (ds, u1\<lparr>page_index_bak := page_index u1\<rparr>) }
         else if page_changed_flag u
         then do { (through, ds, u1) \<leftarrow> show_page junk fs u;
                   let first = [SetFont ''u8g2_font_10x20_tf'', ClearBuffer];
                   if \<not> through then Some (first @ ds, u1)
                   else Some (first @ ds @ [SendBuffer],
                              u1\<lparr>page_changed_flag := False, page_index_bak := page_index u1\<rparr>) }
         else Some ([], u\<lparr>page_index_bak := page_index u\<rparr>))"

text \<open>The thread's start: its array \<open>str\<close> has ten bytes.\<close>

definition ui_start :: "char list \<Rightarrow> config_info \<Rightarrow> ui" where
  "ui_start str c = \<lparr>page_index = 0, page_index_bak = 0, page_changed_flag = False, ui_config = c, ui_str = take 10 str\<rparr>"

section \<open>Other output\<close>

text \<open>\<open>line_index\<close> is a static unsigned char: it is never reset.\<close>

definition oled_show_system_boot :: "string \<Rightarrow> u8 \<Rightarrow> draw list \<times> u8" where
  "oled_show_system_boot str line_index = ([DrawStr 0 (12 * unat line_index + 11) str, SendBuffer], line_index + 1)"

definition draw_line :: "u8 \<Rightarrow> draw list \<times> u8" where
  "draw_line index = ([ClearBuffer, DrawHLine 0 (unat index) 128, SendBuffer], index + 1)"

text \<open>The shell command, with \<open>argv[1]\<close> to \<open>argv[3]\<close>; \<open>str\<close> is its array of twenty bytes.\<close>

definition ui_test :: "string \<Rightarrow> string \<Rightarrow> string \<Rightarrow> char list \<Rightarrow> draw list option" where
  "ui_test a1 a2 a3 str =
     (let x = word_of_int (atoi a1) :: u8; y = word_of_int (atoi a2) :: u8
      in do { str' \<leftarrow> rt_sprintf a3 str; Some [ClearBuffer, DrawStr (unat x) (unat y) a3, SendBuffer] })"

section \<open>Lemmas\<close>

lemma rt_sprintf_None: "rt_sprintf msg str = None \<longleftrightarrow> length str \<le> length msg"
  by (auto simp: rt_sprintf_def mem_simps)

lemma rt_sprintf_length: "rt_sprintf msg str = Some str' \<Longrightarrow> length str' = length str"
  by (simp add: rt_sprintf_def mem_store_length)

lemma clock_text_length: "h < 100 \<Longrightarrow> m < 100 \<Longrightarrow> s < 100 \<Longrightarrow> length (clock_text (h, m, s)) = 10"
  by (simp add: clock_text_def dec_2_length)

lemma show_page_index: "show_page junk fs u = Some (b, ds, u') \<Longrightarrow> page_index u' = page_index u"
  by (auto simp: show_page_def Let_def bind_eq_Some_conv split: if_splits)

lemma show_clock_index: "show_clock t u = Some (ds, u') \<Longrightarrow> page_index u' = page_index u"
  by (auto simp: show_clock_def bind_eq_Some_conv)

lemma ui_pass_index:
  assumes "ui_pass mail t junk fs u = Some (ds, u')"
  shows "page_index u' = page_index (select_page mail u)"
proof -
  let ?u = "select_page mail u"
  consider "page_index ?u = 0" | "page_index ?u \<noteq> 0" "page_changed_flag ?u" | "page_index ?u \<noteq> 0" "\<not> page_changed_flag ?u"
    by blast
  then show ?thesis
  proof cases
    case 1
    then show ?thesis using assms by (auto simp: ui_pass_def bind_eq_Some_conv dest!: show_clock_index)
  next
    case 2
    then obtain through ds1 u1 where "show_page junk fs ?u = Some (through, ds1, u1)" "page_index u' = page_index u1"
      using assms by (auto simp: ui_pass_def Let_def bind_eq_Some_conv split: if_splits)
    then show ?thesis using show_page_index by metis
  next
    case 3
    then show ?thesis using assms by (auto simp: ui_pass_def Let_def)
  qed
qed

text \<open>Which texts of the pages fit the array.\<close>

definition page_fits :: "config_info \<Rightarrow> ui \<Rightarrow> bool" where
  "page_fits c u \<longleftrightarrow>
     (page_index u = 1 \<longrightarrow> (\<exists>name passwd. config_field wifi_name_ix c = Some name \<and> config_field wifi_password_ix c = Some passwd \<and>
        5 + length name < length (ui_str u) \<and> 7 + length passwd < length (ui_str u))) \<and>
     (page_index u = 2 \<longrightarrow> (\<exists>mac. config_field mac_address_ix c = Some mac \<and> length mac < length (ui_str u)))"

lemma rt_sprintf_ok: "(\<exists>str'. rt_sprintf msg str = Some str') \<longleftrightarrow> length msg < length str"
  using rt_sprintf_None [of msg str] by (cases "rt_sprintf msg str") auto

lemma show_page_fits:
  assumes "init_from_file junk ''config.txt'' (ui_config u) fs = Some (RT_EOK, c)"
  shows "(\<exists>r. show_page junk fs u = Some r) \<longleftrightarrow> page_fits c u"
proof -
  consider "page_index u = 1" | "page_index u = 2" | "page_index u \<noteq> 1" "page_index u \<noteq> 2" by blast
  then show ?thesis
  proof cases
    case 1
    show ?thesis
    proof (cases "config_field wifi_name_ix c")
      case None
      then show ?thesis using 1 assms by (simp add: show_page_def page_fits_def)
    next
      case (Some name)
      show ?thesis
      proof (cases "rt_sprintf (''ssid:'' @ name) (ui_str u)")
        case None
        then show ?thesis
          using 1 assms Some rt_sprintf_ok [of "''ssid:'' @ name" "ui_str u"] by (simp add: show_page_def page_fits_def)
      next
        case s1: (Some str1)
        then have l: "length str1 = length (ui_str u)" "5 + length name < length (ui_str u)"
          using rt_sprintf_length [OF s1] rt_sprintf_ok [of "''ssid:'' @ name" "ui_str u"] by auto
        show ?thesis
        proof (cases "config_field wifi_password_ix c")
          case None
          then show ?thesis using 1 assms Some s1 by (simp add: show_page_def page_fits_def)
        next
          case (Some passwd)
          then show ?thesis
            using 1 assms \<open>config_field wifi_name_ix c = Some name\<close> s1 l rt_sprintf_ok [of "''passwd:'' @ passwd" str1]
            by (cases "rt_sprintf (''passwd:'' @ passwd) str1") (auto simp: show_page_def page_fits_def)
        qed
      qed
    qed
  next
    case 2
    show ?thesis
    proof (cases "config_field mac_address_ix c")
      case None
      then show ?thesis using 2 assms by (simp add: show_page_def page_fits_def)
    next
      case (Some mac)
      then show ?thesis
        using 2 assms rt_sprintf_ok [of mac "ui_str u"]
        by (cases "rt_sprintf mac (ui_str u)") (auto simp: show_page_def page_fits_def)
    qed
  next
    case 3
    then show ?thesis by (auto simp: show_page_def page_fits_def)
  qed
qed

section \<open>The key\<close>

text \<open>\<open>key_check\<close> of \<open>system_boot.c\<close>: one reading of the pin per turn, \<open>True\<close> is high; a press is a
  change to low.\<close>

fun key_check :: "bool list \<Rightarrow> bool \<Rightarrow> app \<Rightarrow> (bool \<times> app) option" where
  "key_check [] bak a = Some (bak, a)"
| "key_check (v # vs) bak a =
     do { a' \<leftarrow> (if v \<noteq> bak \<and> \<not> v then send_page 100 a else Some a); key_check vs v a' }"

fun presses :: "bool \<Rightarrow> bool list \<Rightarrow> nat" where
  "presses b [] = 0"
| "presses b (v # vs) = (if b \<and> \<not> v then 1 else 0) + presses v vs"

lemma key_check_ok:
  assumes "app_ok a" and "mails_of_ten a"
  shows "\<exists>b a'. key_check vs bak a = Some (b, a') \<and> app_ok a' \<and> mails_of_ten a' \<and>
    page_queue a' = page_queue a @ replicate (min (presses bak vs) (10 - length (page_queue a))) 100"
  using assms
proof (induction vs arbitrary: bak a)
  case (Cons v vs)
  show ?case
  proof (cases "bak \<and> \<not> v")
    case True
    obtain a1 where a1: "send_page 100 a = Some a1" "app_ok a1" "mails_of_ten a1"
      "page_queue a1 = (if length (page_queue a) < 10 then page_queue a @ [100] else page_queue a)"
      using send_page_ok [OF Cons.prems(1), of 100] Cons.prems(2) by auto
    have r: "length (page_queue a) < 10 \<Longrightarrow>
        min (Suc n) (10 - length (page_queue a)) = Suc (min n (9 - length (page_queue a)))" for n
      by auto
    show ?thesis
      using True a1 Cons.IH [OF a1(2,3), of v] by (cases "length (page_queue a) < 10") (auto simp: r)
  next
    case False
    then show ?thesis using Cons.IH [OF Cons.prems, of v] by auto
  qed
qed simp

section \<open>Properties\<close>

text \<open>Going through the pages: whatever a pass of the display thread draws, the page it ends
  on is decided by the mail alone: none keeps the page, a number selects that page, and the key
  goes from the last page drawn to the next, round the four pages 0 to 3. From a page beyond them,
  which a number from the cloud can select, the key goes on upwards and does not come back.\<close>

theorem ui_page_selection:
  assumes "ui_pass mail time junk fs u = Some (ds, u')"
  shows "page_index u' =
    (case mail of
       None \<Rightarrow> page_index u
     | Some v \<Rightarrow> if v \<noteq> 100 then v
                else if page_index_bak u \<le> 3 then (page_index_bak u + 1) mod 4
                else page_index_bak u + 1)"
proof -
  have "(if b = 3 then 0 else b + 1) = (if b \<le> 3 then (b + 1) mod 4 else b + 1)" for b :: u32
  proof (cases "b \<le> 3")
    case True
    then have "unat b \<le> 3" by (simp add: word_le_nat_alt)
    then have "unat b = 0 \<or> unat b = 1 \<or> unat b = 2 \<or> unat b = 3" by auto
    then have "b = 0 \<or> b = 1 \<or> b = 2 \<or> b = 3" by (simp add: word_unat_eq_iff)
    then show ?thesis by auto
  qed auto
  then have key: "page_index (select_page (Some 100) u) =
      (if page_index_bak u \<le> 3 then (page_index_bak u + 1) mod 4 else page_index_bak u + 1)"
    by (simp only: select_page_def) simp
  show ?thesis
  proof (cases "mail = Some 100")
    case True
    then show ?thesis using ui_pass_index [OF assms] key by simp
  next
    case False
    then show ?thesis using ui_pass_index [OF assms] by (auto simp: select_page_def split: option.splits)
  qed
qed

definition example_ui :: "nat \<Rightarrow> ui" where
  "example_ui n = \<lparr>page_index = 2, page_index_bak = 2, page_changed_flag = False, ui_config = replicate CONFIG_SIZE NUL,
     ui_str = replicate n NUL\<rparr>"

lemma example_key: "\<exists>ds u'. ui_pass (Some 100) (0, 0, 0) [] example_card (example_ui 10) = Some (ds, u')"
  by (simp add: ui_pass_def select_page_def example_ui_def show_page_def)

theorem ui_page_selection_witness:
  "\<exists>ds u'. ui_pass (Some 100) (0, 0, 0) [] example_card (example_ui 10) = Some (ds, u') \<and> page_index u' = 3"
proof -
  obtain ds u' where p: "ui_pass (Some 100) (0, 0, 0) [] example_card (example_ui 10) = Some (ds, u')"
    using example_key by blast
  then show ?thesis using ui_page_selection [OF p] by (simp add: example_ui_def)
qed

text \<open>The thread's array of ten bytes is too small for what it shows: drawing the clock always
  writes past its end, drawing the network page does unless the name has at most 4 and the password
  at most 2 characters, and drawing the address page does for every address of 10 or more.\<close>

theorem ui_text_overflow:
  assumes "length (ui_str u) = 10" and "h < 100" and "m < 100" and "s < 100"
  shows "(page_index (select_page mail u) = 0 \<longrightarrow> ui_pass mail (h, m, s) junk fs u = None) \<and>
    (\<forall>c ss. page_changed_flag (select_page mail u) \<longrightarrow>
       init_from_file junk ''config.txt'' (ui_config u) fs = Some (RT_EOK, c) \<longrightarrow> config_fields c = Some ss \<longrightarrow>
       (page_index (select_page mail u) = 1 \<longrightarrow>
          (ui_pass mail (h, m, s) junk fs u = None) = (4 < length (ss ! 0) \<or> 2 < length (ss ! 1))) \<and>
       (page_index (select_page mail u) = 2 \<longrightarrow>
          (ui_pass mail (h, m, s) junk fs u = None) = (9 < length (ss ! 4))))"
proof (intro conjI allI impI)
  let ?u = "select_page mail u"
  have u: "ui_str ?u = ui_str u" "ui_config ?u = ui_config u" by (simp_all add: select_page_def split: option.split)
  show "ui_pass mail (h, m, s) junk fs u = None" if "page_index ?u = 0"
    using that u(1) assms rt_sprintf_None [of "clock_text (h, m, s)" "ui_str u"]
    by (simp add: ui_pass_def show_clock_def clock_text_length)
  fix c ss
  assume f: "page_changed_flag ?u" and i: "init_from_file junk ''config.txt'' (ui_config u) fs = Some (RT_EOK, c)"
    and ss: "config_fields c = Some ss"
  have p: "(ui_pass mail (h, m, s) junk fs u = None) = (\<not> page_fits c ?u)" if "page_index ?u \<noteq> 0"
  proof -
    have "(ui_pass mail (h, m, s) junk fs u = None) = (show_page junk fs ?u = None)"
      using that f by (cases "show_page junk fs ?u") (auto simp: ui_pass_def Let_def)
    then show ?thesis using show_page_fits [of junk ?u fs c] i u(2) by (cases "show_page junk fs ?u") auto
  qed
  have fld: "config_field 0 c = Some (ss ! 0)" "config_field 1 c = Some (ss ! 1)" "config_field 4 c = Some (ss ! 4)"
    using ss by (simp_all add: config_fields_Some)
  show "(ui_pass mail (h, m, s) junk fs u = None) = (4 < length (ss ! 0) \<or> 2 < length (ss ! 1))" if "page_index ?u = 1"
    using p that fld assms(1) u(1) by (auto simp: page_fits_def)
  show "(ui_pass mail (h, m, s) junk fs u = None) = (9 < length (ss ! 4))" if "page_index ?u = 2"
    using p that fld assms(1) u(1) by (auto simp: page_fits_def)
qed

theorem ui_text_overflow_witness:
  "ui_pass (Some 0) (23, 59, 58) [] example_card (example_ui 10) = None"
  using ui_text_overflow [of "example_ui 10" 23 59 58 "Some 0" "[]" example_card]
  by (simp add: example_ui_def select_page_def)

text \<open>One page request per key press: however the pin bounces between two readings, the key
  thread queues one request for each change to low that it reads, as far as the mailbox has room.\<close>

theorem key_presses_queued:
  assumes "app_ok a" and "mails_of_ten a"
  shows "\<exists>b a'. key_check vs bak a = Some (b, a') \<and> app_ok a' \<and>
    page_queue a' = page_queue a @ replicate (min (presses bak vs) (10 - length (page_queue a))) 100"
  using key_check_ok [OF assms] by blast

theorem key_presses_queued_witness:
  "\<exists>b a'. key_check [True, False, False, True, False] True example_app = Some (b, a') \<and> page_queue a' = [100, 100]"
  using key_presses_queued [OF example_app_ok(1,2), of "[True, False, False, True, False]" True]
  by (auto simp: example_app_ok numeral_2_eq_2)

end
