(* ===== verification/SdCard.thy ===== *)
theory SdCard
  imports Prelude
begin

text \<open>
  \<open>board/port/filesystem.c\<close>: the thread that mounts and unmounts the SD card as its detection pin
  changes, and sets \<open>sd_status\<close>, which the boot sequence waits for.  The pin's readings and the
  results of finding the device and of mounting it are the environment; the card's file system
  itself is the one of the configuration file's model.
\<close>

section \<open>State and operations\<close>

record sd =
  re_sd_check_pin :: bool
  sd_status :: bool
  fs_mounted :: bool

text \<open>\<open>found\<close>: the device is there (again after waiting for it); \<open>ok\<close>: \<open>dfs_mount\<close> succeeds.\<close>

definition sdcard_mount :: "bool \<Rightarrow> bool \<Rightarrow> sd \<Rightarrow> sd" where
  "sdcard_mount found ok s =
     (if found then (if ok then s\<lparr>fs_mounted := True, sd_status := True\<rparr> else s\<lparr>sd_status := False\<rparr>) else s)"

definition sdcard_unmount :: "sd \<Rightarrow> sd" where
  "sdcard_unmount s = s\<lparr>fs_mounted := False, sd_status := False\<rparr>"

text \<open>The thread before its loop, with the first reading of the pin.\<close>

definition sd_start :: "bool \<Rightarrow> bool \<Rightarrow> bool \<Rightarrow> sd" where
  "sd_start pin found ok =
     (let s = \<lparr>re_sd_check_pin = True, sd_status = False, fs_mounted = False\<rparr>
      in if pin then sdcard_mount found ok s else s)"

text \<open>One turn of the loop: the readings at its two tests, the first one made only without a card.\<close>

definition sd_turn :: "bool \<times> bool \<times> bool \<times> bool \<Rightarrow> sd \<Rightarrow> sd" where
  "sd_turn t s =
     (case t of (pin1, pin2, found, ok) \<Rightarrow>
        let s1 = (if \<not> re_sd_check_pin s
                  then (let s' = s\<lparr>re_sd_check_pin := pin1\<rparr> in if pin1 then sdcard_mount found ok s' else s')
                  else s)
        in if re_sd_check_pin s1
           then (let s' = s1\<lparr>re_sd_check_pin := pin2\<rparr> in if \<not> pin2 then sdcard_unmount s' else s')
           else s1)"

fun sd_run :: "(bool \<times> bool \<times> bool \<times> bool) list \<Rightarrow> sd \<Rightarrow> sd" where
  "sd_run [] s = s"
| "sd_run (t # ts) s = sd_run ts (sd_turn t s)"

section \<open>Lemmas\<close>

lemma sd_run_append: "sd_run (ts @ us) s = sd_run us (sd_run ts s)"
  by (induction ts arbitrary: s) auto

text \<open>\<open>in_sync\<close>: mounted and reported exactly when the pin was last read as a card.\<close>

definition in_sync :: "sd \<Rightarrow> bool" where
  "in_sync s \<longleftrightarrow> fs_mounted s = re_sd_check_pin s \<and> sd_status s = re_sd_check_pin s"

definition mounts :: "(bool \<times> bool \<times> bool \<times> bool) list \<Rightarrow> bool" where
  "mounts ts \<longleftrightarrow> list_all (\<lambda>(pin1, pin2, found, ok). found \<and> ok) ts"

lemma sd_turn_sync: "in_sync s \<Longrightarrow> found \<Longrightarrow> ok \<Longrightarrow> in_sync (sd_turn (pin1, pin2, found, ok) s)"
  by (auto simp: in_sync_def sd_turn_def sdcard_mount_def sdcard_unmount_def Let_def)

lemma sd_run_sync: "in_sync s \<Longrightarrow> mounts ts \<Longrightarrow> in_sync (sd_run ts s)"
  by (induction ts arbitrary: s) (auto simp: mounts_def sd_turn_sync)

lemma sd_run_stuck:
  assumes "re_sd_check_pin s" and "list_all (\<lambda>(pin1, pin2, found, ok). pin2) ts"
  shows "sd_run ts s = s"
  using assms
proof (induction ts)
  case (Cons t ts)
  obtain pin1 pin2 found ok where t: "t = (pin1, pin2, found, ok)" by (cases t)
  have "sd_turn t s = s" using Cons.prems t by (simp add: sd_turn_def Let_def)
  then show ?case using Cons t by simp
qed simp

section \<open>Properties\<close>

text \<open>The reported card is the inserted card, but for one start: if every mount succeeds, the
  card is mounted and reported exactly when the pin was last read as a card, in every state after a
  start with a card, and after a start without one as soon as one turn has still found none. A
  card that is inserted between the first reading and the first turn is never mounted, however
  long it stays, until it is taken out.\<close>

theorem sd_status_follows_card:
  assumes "mounts ts"
  shows "in_sync (sd_run ts (sd_start True True True)) \<and>
    (\<forall>pin1 found ok. in_sync (sd_run ts (sd_turn (pin1, False, found, ok) (sd_start False found ok)))) \<and>
    (list_all (\<lambda>(pin1, pin2, found, ok). pin2) ts \<longrightarrow>
       \<not> sd_status (sd_run ts (sd_start False True True)) \<and> re_sd_check_pin (sd_run ts (sd_start False True True)))"
proof (intro conjI allI impI)
  have "in_sync (sd_start True True True)" by (simp add: in_sync_def sd_start_def sdcard_mount_def)
  then show "in_sync (sd_run ts (sd_start True True True))" using sd_run_sync assms by blast
  have "in_sync (sd_turn (pin1, False, found, ok) (sd_start False found ok))" for pin1 found ok
    by (simp add: in_sync_def sd_start_def sd_turn_def sdcard_unmount_def Let_def)
  then show "in_sync (sd_run ts (sd_turn (pin1, False, found, ok) (sd_start False found ok)))" for pin1 found ok
    using sd_run_sync assms by blast
  assume "list_all (\<lambda>(pin1, pin2, found, ok). pin2) ts"
  then have "sd_run ts (sd_start False True True) = sd_start False True True"
    by (intro sd_run_stuck) (simp_all add: sd_start_def)
  then show "\<not> sd_status (sd_run ts (sd_start False True True))" "re_sd_check_pin (sd_run ts (sd_start False True True))"
    by (simp_all add: sd_start_def)
qed

theorem sd_status_follows_card_witness:
  "\<not> sd_status (sd_run [(True, True, True, True), (True, True, True, True)] (sd_start False True True))"
  using sd_status_follows_card [of "[(True, True, True, True), (True, True, True, True)]"] by (simp add: mounts_def)

end
