(* ===== verification/SystemBoot.thy ===== *)
theory SystemBoot
  imports Ui MqttApp
begin

text \<open>
  \<open>applications/system_boot.c\<close>: the boot sequence.  Its environment is what it polls: the SD card's
  status, the results of the attempts to connect to the wireless network, of the attempts to get
  the time, and the connection flag that the MQTT thread sets, each indexed by the number of the
  poll.  A wait that never ends is \<open>None\<close>.
\<close>

section \<open>Environment, state and output\<close>

record boot_env =
  sd_present :: "nat \<Rightarrow> bool"
  wlan_result :: "nat \<Rightarrow> int"
  ntp_synced :: "nat \<Rightarrow> bool"
  mqtt_online :: "nat \<Rightarrow> bool"

datatype boot_event =
    Screen "draw list"
  | Console_line string
  | Slept nat
  | Wlan_connect string string nat
  | Mqtt_started string string
  | Params_ready
  | Thread_started string

record boot =
  events :: "boot_event list"
  line_index :: u8
  boot_config :: config_info
  boot_mqtt :: mqtt_ctx
  boot_app :: app

definition emit :: "boot_event \<Rightarrow> boot \<Rightarrow> boot" where
  "emit e b = b\<lparr>events := events b @ [e]\<rparr>"

definition show_line :: "string \<Rightarrow> boot \<Rightarrow> boot" where
  "show_line str b =
     (case oled_show_system_boot str (line_index b) of (ds, li) \<Rightarrow> emit (Screen ds) (b\<lparr>line_index := li\<rparr>))"

section \<open>Waiting\<close>

text \<open>The two waits with a counter up to 100: whether the condition came, and the number of sleeps.\<close>

function sd_wait :: "(nat \<Rightarrow> bool) \<Rightarrow> nat \<Rightarrow> bool \<times> nat" where
  "sd_wait present index =
     (if present index then (True, index)
      else if index + 1 \<ge> 100 then (False, index)
      else sd_wait present (index + 1))"
  by pat_completeness auto
termination by (relation "measure (\<lambda>(present, index). 100 - index)") auto

function online_wait :: "(nat \<Rightarrow> bool) \<Rightarrow> nat \<Rightarrow> bool \<times> nat" where
  "online_wait online index =
     (if online index then (True, index)
      else if index + 1 \<ge> 100 then (False, index + 1)
      else online_wait online (index + 1))"
  by pat_completeness auto
termination by (relation "measure (\<lambda>(online, index). 100 - index)") auto

declare sd_wait.simps [simp del] online_wait.simps [simp del]

text \<open>The two waits without a limit: the number of the poll that ended them.\<close>

partial_function (option) wlan_io_wait :: "(nat \<Rightarrow> int) \<Rightarrow> nat \<Rightarrow> nat option" where
  "wlan_io_wait result n = (if result n = - RT_EIO then wlan_io_wait result (n + 1) else Some n)"

partial_function (option) ntp_wait :: "(nat \<Rightarrow> bool) \<Rightarrow> nat \<Rightarrow> nat option" where
  "ntp_wait synced n = (if \<not> synced n then ntp_wait synced (n + 1) else Some n)"

text \<open>The bounded part of \<open>wifi_connect\<close>; the second result is the number of attempts made in all. Every
  attempt but the one that ended the unbounded wait and a successful last one is followed by a
  second of sleep.\<close>

fun wlan_tries :: "(nat \<Rightarrow> int) \<Rightarrow> nat \<Rightarrow> nat \<Rightarrow> rt_err \<times> nat" where
  "wlan_tries result 0 n = (RT_ERROR, n)"
| "wlan_tries result (Suc left) n = (if result n = RT_EOK then (RT_EOK, n + 1) else wlan_tries result left (n + 1))"

definition wifi_connect :: "(nat \<Rightarrow> int) \<Rightarrow> (rt_err \<times> nat) option" where
  "wifi_connect result = do { n \<leftarrow> wlan_io_wait result 0; Some (wlan_tries result 10 (n + 1)) }"

section \<open>The boot sequence\<close>

definition config_check :: "char list \<Rightarrow> sdcard \<Rightarrow> boot \<Rightarrow> (rt_err \<times> boot) option" where
  "config_check junk fs b =
     do { (ret, c) \<leftarrow> init_from_file junk ''config.txt'' (boot_config b) fs; Some (ret, b\<lparr>boot_config := c\<rparr>) }"

text \<open>After the network is up: \<open>alloc\<close> is \<open>common_param_init\<close> with the allocator's results, \<open>tick\<close> and
  \<open>bufs_ok\<close> what \<open>mqtt_start\<close> finds.\<close>

definition start_threads :: "(app \<Rightarrow> app option) \<Rightarrow> boot \<Rightarrow> boot option" where
  "start_threads alloc b =
     do { a \<leftarrow> alloc (boot_app b);
          let b1 = emit Params_ready (b\<lparr>boot_app := a\<rparr>);
          Some (emit (Thread_started ''key_check'') (emit (Thread_started ''ui_thread'') (emit (Thread_started ''wol_send'')
                 (emit (Thread_started ''boot_check'') (emit (Thread_started ''boot_status_report'') b1))))) }"

definition go_online :: "(app \<Rightarrow> app option) \<Rightarrow> u32 \<Rightarrow> bool \<Rightarrow> boot_env \<Rightarrow> boot \<Rightarrow> boot option" where
  "go_online alloc tick bufs_ok env b =
     do { user \<leftarrow> config_field mqtt_username_ix (boot_config b);
          passwd \<leftarrow> config_field mqtt_passwd_ix (boot_config b);
          let (r, calls, m) = mqtt_start tick bufs_ok user passwd (boot_mqtt b);
          let b1 = (if calls = [Start] then emit (Mqtt_started user passwd) (b\<lparr>boot_mqtt := m\<rparr>) else b\<lparr>boot_mqtt := m\<rparr>);
          case online_wait (mqtt_online env) 0 of
            (False, d) \<Rightarrow>
              Some (show_line ''Connect MQTT failed'' (emit (Console_line ''ERROR Please check MQTT status!'') (emit (Slept (d * 100)) b1)))
          | (True, d) \<Rightarrow>
              start_threads alloc (show_line ''System running...'' (show_line ''MQTT connected'' (emit (Slept (d * 100)) b1))) }"

definition system_boot ::
  "char list \<Rightarrow> sdcard \<Rightarrow> (app \<Rightarrow> app option) \<Rightarrow> u32 \<Rightarrow> bool \<Rightarrow> boot_env \<Rightarrow> boot \<Rightarrow> boot option" where
  "system_boot junk fs alloc tick bufs_ok env b0 =
     (case sd_wait (sd_present env) 0 of
        (False, d) \<Rightarrow> Some (show_line ''Please check sd card'' (emit (Slept (d * 50)) b0))
      | (True, d) \<Rightarrow>
          do { (ret, b1) \<leftarrow> config_check junk fs (emit (Slept (d * 50)) b0);
               if ret \<noteq> RT_EOK
               then Some (show_line ''Read config failed'' (emit (Console_line ''ERROR Please config the system first!'') b1))
               else do {
                 let b2 = show_line ''Read config successed'' b1;
                 name \<leftarrow> config_field wifi_name_ix (boot_config b2);
                 passwd \<leftarrow> config_field wifi_password_ix (boot_config b2);
                 (w, n) \<leftarrow> wifi_connect (wlan_result env);
                 let b3 = emit (Wlan_connect name passwd n) b2;
                 if w \<noteq> RT_EOK
                 then Some (show_line ''Connect wifi failed''
                        (emit (Console_line ''wifi connect failed!'') (emit (Slept ((n - 1) * 1000)) b3)))
                 else do {
                   let b4 = emit (Slept 1000) (show_line ''WIFI connected''
                        (emit (Console_line ''wifi connect successed!'') (emit (Slept ((n - 2) * 1000)) b3)));
                   k \<leftarrow> ntp_wait (ntp_synced env) 0;
                   go_online alloc tick bufs_ok env (emit (Slept (k * 100)) b4) } } })"

section \<open>The waits\<close>

lemma sd_wait_find:
  assumes "index < 100"
  shows "sd_wait present index = (case find present [index..<100] of None \<Rightarrow> (False, 99) | Some i \<Rightarrow> (True, i))"
  using assms
proof (induction "99 - index" arbitrary: index)
  case 0
  then have "index = 99" by simp
  then show ?case by (simp add: sd_wait.simps [of _ 99])
next
  case (Suc n)
  then have u: "[index..<100] = index # [index + 1..<100]" and i: "index + 1 < 100" "n = 99 - (index + 1)"
    by (simp_all add: upt_conv_Cons)
  from Suc.hyps(1) [OF i(2,1)] show ?case using i(1) unfolding u by (simp add: sd_wait.simps [of _ index])
qed

lemma online_wait_find:
  assumes "index < 100"
  shows "online_wait present index = (case find present [index..<100] of None \<Rightarrow> (False, 100) | Some i \<Rightarrow> (True, i))"
  using assms
proof (induction "99 - index" arbitrary: index)
  case 0
  then have "index = 99" by simp
  then show ?case by (simp add: online_wait.simps [of _ 99])
next
  case (Suc n)
  then have u: "[index..<100] = index # [index + 1..<100]" and i: "index + 1 < 100" "n = 99 - (index + 1)"
    by (simp_all add: upt_conv_Cons)
  from Suc.hyps(1) [OF i(2,1)] show ?case using i(1) unfolding u by (simp add: online_wait.simps [of _ index])
qed

lemma wlan_io_wait_Some:
  assumes "\<forall>i < m. result (n + i) = - RT_EIO" and "result (n + m) \<noteq> - RT_EIO"
  shows "wlan_io_wait result n = Some (n + m)"
  using assms
proof (induction m arbitrary: n)
  case 0
  then show ?case by (simp add: wlan_io_wait.simps [of _ n])
next
  case (Suc m)
  have "result n = - RT_EIO" using Suc.prems(1) by (metis add_0_right zero_less_Suc)
  moreover have "wlan_io_wait result (n + 1) = Some (n + 1 + m)"
    using Suc.prems by (intro Suc.IH) auto
  ultimately show ?case by (subst wlan_io_wait.simps) simp
qed

lemma wlan_io_wait_returns:
  assumes "wlan_io_wait result n = Some r"
  shows "result r \<noteq> - RT_EIO"
  by (rule wlan_io_wait.raw_induct [where P = "\<lambda>result n r. result r \<noteq> - RT_EIO", OF _ assms])
    (auto split: if_splits)

lemma ntp_wait_Some:
  assumes "\<forall>i < m. \<not> synced (n + i)" and "synced (n + m)"
  shows "ntp_wait synced n = Some (n + m)"
  using assms
proof (induction m arbitrary: n)
  case 0
  then show ?case by (simp add: ntp_wait.simps [of _ n])
next
  case (Suc m)
  have "\<not> synced n" using Suc.prems(1) by (metis add_0_right zero_less_Suc)
  moreover have "ntp_wait synced (n + 1) = Some (n + 1 + m)"
    using Suc.prems by (intro Suc.IH) auto
  ultimately show ?case by (subst ntp_wait.simps) simp
qed

lemma wlan_tries_find:
  "wlan_tries result left n =
    (case find (\<lambda>i. result i = RT_EOK) [n..<n + left] of None \<Rightarrow> (RT_ERROR, n + left) | Some i \<Rightarrow> (RT_EOK, i + 1))"
proof (induction left arbitrary: n)
  case (Suc left)
  have "[n..<n + Suc left] = n # [n + 1..<n + 1 + left]" by (simp add: upt_conv_Cons)
  then show ?case using Suc [of "n + 1"] by (simp del: upt_Suc add: add_ac split: option.split)
qed simp

section \<open>The parts of a successful boot\<close>

lemma show_line_simps [simp]:
  "events (show_line t b) = events b @ [Screen [DrawStr 0 (12 * unat (line_index b) + 11) t, SendBuffer]]"
  "line_index (show_line t b) = line_index b + 1"
  "boot_config (show_line t b) = boot_config b"
  "boot_mqtt (show_line t b) = boot_mqtt b"
  "boot_app (show_line t b) = boot_app b"
  by (simp_all add: show_line_def oled_show_system_boot_def emit_def)

lemma emit_simps [simp]:
  "events (emit e b) = events b @ [e]"
  "line_index (emit e b) = line_index b"
  "boot_config (emit e b) = boot_config b"
  "boot_mqtt (emit e b) = boot_mqtt b"
  "boot_app (emit e b) = boot_app b"
  by (simp_all add: emit_def)

section \<open>Properties\<close>

text \<open>Connecting to the wireless network: the call never returns exactly when every attempt
  ends in an input/output error; otherwise the first other result only ends the wait, a success
  as well as a failure, and of the next ten attempts the first success decides, none means
  failure, whatever errors, input/output errors included, they end in.\<close>

theorem wifi_connect_result:
  "wifi_connect result =
    (if \<forall>i. result i = - RT_EIO then None
     else let n = (LEAST i. result i \<noteq> - RT_EIO)
          in case find (\<lambda>i. result i = RT_EOK) [n + 1..<n + 11] of
               None \<Rightarrow> Some (RT_ERROR, n + 11)
             | Some i \<Rightarrow> Some (RT_EOK, i + 1))"
proof (cases "\<forall>i. result i = - RT_EIO")
  case True
  then have "wlan_io_wait result 0 = None"
    using wlan_io_wait_returns [of result 0] by (cases "wlan_io_wait result 0") auto
  then show ?thesis using True by (simp add: wifi_connect_def)
next
  case False
  define n where "n = (LEAST i. result i \<noteq> - RT_EIO)"
  have "result n \<noteq> - RT_EIO" unfolding n_def by (rule LeastI_ex) (use False in blast)
  moreover have "result i = - RT_EIO" if "i < n" for i using not_less_Least that unfolding n_def by blast
  ultimately have "wlan_io_wait result 0 = Some n" using wlan_io_wait_Some [of n result 0] by simp
  then show ?thesis
    using False unfolding n_def [symmetric] by (simp add: wifi_connect_def wlan_tries_find Let_def add.commute [of 11] split: option.split)
qed

theorem wifi_connect_result_witness:
  "wifi_connect (\<lambda>i. if i < 3 then -8 else 0) = Some (RT_EOK, 5)"
proof -
  have "(LEAST i. (if i < 3 then -8 else 0 :: int) \<noteq> - RT_EIO) = (3 :: nat)"
    by (rule Least_equality) (auto split: if_splits)
  moreover have "find (\<lambda>i. (if i < 3 then -8 else 0 :: int) = RT_EOK) [3 + 1..<3 + 11] = Some (4 :: nat)"
    by (simp add: upt_conv_Cons)
  moreover have "\<not> (\<forall>i :: nat. (if i < 3 then -8 else 0 :: int) = - RT_EIO)" by auto
  ultimately show ?thesis
    using wifi_connect_result [of "\<lambda>i. if i < 3 then -8 else 0"] by simp
qed

text \<open>A boot whose environment is in order: the card within the first 100 polls, a well-formed
  configuration on it, the network and the time after a while, the broker within 100 polls.\<close>

definition boots :: "char list \<Rightarrow> sdcard \<Rightarrow> boot_env \<Rightarrow> nat \<Rightarrow> nat \<Rightarrow> nat \<Rightarrow> nat \<Rightarrow> config_info \<Rightarrow> string list \<Rightarrow> boot \<Rightarrow> bool" where
  "boots junk fs env sd tries ntp mq c ss b0 \<longleftrightarrow>
     find (sd_present env) [0..<100] = Some sd \<and>
     init_from_file junk ''config.txt'' (boot_config b0) fs = Some (RT_EOK, c) \<and> config_fields c = Some ss \<and>
     wifi_connect (wlan_result env) = Some (RT_EOK, tries) \<and>
     (\<forall>i < ntp. \<not> ntp_synced env i) \<and> ntp_synced env ntp \<and>
     find (mqtt_online env) [0..<100] = Some mq \<and> \<not> is_started (boot_mqtt b0)"

lemma boot_trace:
  assumes "boots junk fs env sd tries ntp mq c ss b0" and "line_index b0 = 0" and "alloc (boot_app b0) = Some a"
  shows "\<exists>b. system_boot junk fs alloc tick True env b0 = Some b \<and> boot_app b = a \<and> boot_config b = c \<and>
    is_started (boot_mqtt b) \<and>
    events b = events b0 @
      [Slept (sd * 50), Screen [DrawStr 0 11 ''Read config successed'', SendBuffer],
       Wlan_connect (ss ! 0) (ss ! 1) tries, Slept ((tries - 2) * 1000), Console_line ''wifi connect successed!'',
       Screen [DrawStr 0 23 ''WIFI connected'', SendBuffer], Slept 1000, Slept (ntp * 100),
       Mqtt_started (ss ! 2) (ss ! 3), Slept (mq * 100), Screen [DrawStr 0 35 ''MQTT connected'', SendBuffer],
       Screen [DrawStr 0 47 ''System running...'', SendBuffer], Params_ready,
       Thread_started ''boot_status_report'', Thread_started ''boot_check'', Thread_started ''wol_send'',
       Thread_started ''ui_thread'', Thread_started ''key_check'']"
proof -
  have sd: "sd_wait (sd_present env) 0 = (True, sd)" and mq: "online_wait (mqtt_online env) 0 = (True, mq)"
    using assms(1) by (simp_all add: boots_def sd_wait_find online_wait_find)
  have ntp: "ntp_wait (ntp_synced env) 0 = Some ntp"
    using assms(1) ntp_wait_Some [of ntp "ntp_synced env" 0] by (simp add: boots_def)
  have fld: "config_field 0 c = Some (ss ! 0)" "config_field 1 c = Some (ss ! 1)" "config_field 2 c = Some (ss ! 2)"
    "config_field 3 c = Some (ss ! 3)"
    using assms(1) by (simp_all add: boots_def config_fields_Some)
  have cc: "config_check junk fs (emit (Slept (sd * 50)) b0) = Some (RT_EOK, (emit (Slept (sd * 50)) b0)\<lparr>boot_config := c\<rparr>)"
    using assms(1) by (simp add: config_check_def boots_def)
  have w: "wifi_connect (wlan_result env) = Some (RT_EOK, tries)" and m: "\<not> is_started (boot_mqtt b0)"
    using assms(1) by (simp_all add: boots_def)
  show ?thesis
    using fld m assms(2,3)
    by (auto simp: system_boot_def sd cc w ntp go_online_def mq mqtt_start_def start_threads_def Let_def)
qed

text \<open>Property C8. The boot sequence: in an environment that is in order it does, in this order, what the
  events say: wait for the card, read the configuration, connect with the configured name and
  password, set the clock, start the MQTT client with the configured user and password, wait for
  the broker, create the shared objects, and start the five threads.\<close>

theorem system_boot_sequence:
  assumes "boots junk fs env sd tries ntp mq c ss b0" and "line_index b0 = 0" and "alloc (boot_app b0) = Some a"
  shows "\<exists>b. system_boot junk fs alloc tick True env b0 = Some b \<and> boot_app b = a \<and> boot_config b = c \<and>
    is_started (boot_mqtt b) \<and>
    events b = events b0 @
      [Slept (sd * 50), Screen [DrawStr 0 11 ''Read config successed'', SendBuffer],
       Wlan_connect (ss ! 0) (ss ! 1) tries, Slept ((tries - 2) * 1000), Console_line ''wifi connect successed!'',
       Screen [DrawStr 0 23 ''WIFI connected'', SendBuffer], Slept 1000, Slept (ntp * 100),
       Mqtt_started (ss ! 2) (ss ! 3), Slept (mq * 100), Screen [DrawStr 0 35 ''MQTT connected'', SendBuffer],
       Screen [DrawStr 0 47 ''System running...'', SendBuffer], Params_ready,
       Thread_started ''boot_status_report'', Thread_started ''boot_check'', Thread_started ''wol_send'',
       Thread_started ''ui_thread'', Thread_started ''key_check'']"
  by (rule boot_trace [where alloc = alloc, OF assms])

definition example_env :: boot_env where
  "example_env = \<lparr>sd_present = (\<lambda>i. i = 2), wlan_result = (\<lambda>i. if i = 0 then -8 else 0), ntp_synced = (\<lambda>i. i = 1),
     mqtt_online = (\<lambda>i. i = 3)\<rparr>"

definition example_boot :: boot where
  "example_boot = \<lparr>events = [], line_index = 0, boot_config = replicate CONFIG_SIZE NUL,
     boot_mqtt = \<lparr>client = \<lparr>uri = [], client_id = [], keep_alive = 0, clean_session = False, username = [], password = [],
       will_message = ([], []), topic_filter = []\<rparr>, is_started = False, is_first_time_online = False\<rparr>,
     boot_app = app_reset (boot_kernel (\<lambda>_. 25))\<rparr>"

definition example_alloc :: "app \<Rightarrow> app option" where
  "example_alloc = common_param_init (Some 1) (Some (replicate 10 0)) (Some 2) (Some 3) (Some (replicate 10 0))"

lemma example_alloc_some: "\<exists>a. example_alloc (boot_app example_boot) = Some a"
  using common_param_init_ok [of "boot_app example_boot" 1 2 3 "replicate 10 0" "replicate 10 0"] boot_kernel_inv [of "\<lambda>_. 25"]
  by (auto simp: example_alloc_def example_boot_def app_reset_def)

lemma example_boots: "\<exists>fs c. boots [] fs example_env 2 3 1 3 c example_fields example_boot"
proof -
  obtain fs where r: "\<forall>c. length c = CONFIG_SIZE \<longrightarrow> (\<exists>c'. init_from_file [] ''config.txt'' c fs = Some (RT_EOK, c') \<and>
      length c' = CONFIG_SIZE \<and> config_fields c' = config_fields (config_of example_fields))"
    using config_file.save_restore [OF example_fits] by blast
  have len: "length (replicate CONFIG_SIZE NUL) = CONFIG_SIZE" by (rule length_replicate)
  obtain c where c: "init_from_file [] ''config.txt'' (replicate CONFIG_SIZE NUL) fs = Some (RT_EOK, c)"
    "config_fields c = config_fields (config_of example_fields)"
    using r [rule_format, OF len] by blast
  have f: "config_fields (config_of example_fields) = Some example_fields"
    by (rule config_of_ok) (simp_all add: example_fields_def)
  have w: "wifi_connect (wlan_result example_env) = Some (RT_EOK, 3)"
  proof -
    have "wlan_io_wait (wlan_result example_env) 0 = Some (0 + 1)"
      by (rule wlan_io_wait_Some) (simp_all add: example_env_def)
    moreover have "wlan_tries (wlan_result example_env) 10 (0 + 1 + 1) = (RT_EOK, 3)"
      using wlan_tries.simps(2) [of "wlan_result example_env" 9 "0 + 1 + 1"] by (simp add: example_env_def)
    ultimately show ?thesis by (simp only: wifi_connect_def bind.bind_lunit)
  qed
  have env: "sd_present example_env = (\<lambda>i. i = 2)" "mqtt_online example_env = (\<lambda>i. i = 3)"
    "ntp_synced example_env = (\<lambda>i. i = 1)"
    by (simp_all add: example_env_def)
  have "boots [] fs example_env 2 3 1 3 c example_fields example_boot"
    unfolding boots_def env
  proof (intro conjI)
    show "init_from_file [] ''config.txt'' (boot_config example_boot) fs = Some (RT_EOK, c)"
      using c(1) by (simp add: example_boot_def)
    show "config_fields c = Some example_fields" using c(2) f by simp
    show "\<not> is_started (boot_mqtt example_boot)" by (simp add: example_boot_def)
    show "find (\<lambda>i. i = 2) [0..<100] = Some (2 :: nat)" by (rule find_upt) simp_all
    show "find (\<lambda>i. i = 3) [0..<100] = Some (3 :: nat)" by (rule find_upt) simp_all
    show "wifi_connect (wlan_result example_env) = Some (RT_EOK, 3)" by (rule w)
  qed simp_all
  then show ?thesis by blast
qed

theorem system_boot_sequence_witness:
  "\<exists>fs b. system_boot [] fs example_alloc 7 True example_env example_boot = Some b \<and> last (events b) = Thread_started ''key_check''"
proof -
  obtain fs c where b: "boots [] fs example_env 2 3 1 3 c example_fields example_boot" using example_boots by blast
  obtain a where a: "example_alloc (boot_app example_boot) = Some a" using example_alloc_some by blast
  have "line_index example_boot = 0" by (simp add: example_boot_def)
  from system_boot_sequence [where tick = 7 and alloc = example_alloc, OF b this a] show ?thesis by fastforce
qed

text \<open>Property C32. The gap in the sequence: the MQTT client runs, and can deliver commands, before the
  objects its callback uses are created. In a boot that is otherwise in order, a command to switch
  the computer on or to show a page that arrives in this time uses a null semaphore or mailbox.\<close>

theorem early_command_faults:
  assumes "boots junk fs env sd tries ntp mq c ss b0" and "line_index b0 = 0" and "alloc (boot_app b0) = Some a"
    and "computer_on_sem (boot_app b0) = None" and "page_mail (boot_app b0) = None"
    and "off + payloadlen < length readbuf" and "parse (payload_text off payloadlen readbuf) = Some j"
    and "item j ''params'' = Some ps"
    and "(\<exists>s. print (item ps ''turn_on'') = Some s \<and> atoi s mod 256 = 1) \<or> (\<exists>s. print (item ps ''page'') = Some s)"
  shows "(\<exists>b before between after. system_boot junk fs alloc tick True env b0 = Some b \<and>
      events b = before @ Mqtt_started (ss ! 2) (ss ! 3) # between @ Params_ready # after \<and>
      Params_ready \<notin> set (drop (length (events b0)) before)) \<and>
    mqtt_sub_callback parse item print off payloadlen readbuf (boot_app b0) = None"
proof
  let ?before = "events b0 @ [Slept (sd * 50), Screen [DrawStr 0 11 ''Read config successed'', SendBuffer],
       Wlan_connect (ss ! 0) (ss ! 1) tries, Slept ((tries - 2) * 1000), Console_line ''wifi connect successed!'',
       Screen [DrawStr 0 23 ''WIFI connected'', SendBuffer], Slept 1000, Slept (ntp * 100)]"
  obtain b where "system_boot junk fs alloc tick True env b0 = Some b"
    and "events b = ?before @ Mqtt_started (ss ! 2) (ss ! 3) # [Slept (mq * 100),
       Screen [DrawStr 0 35 ''MQTT connected'', SendBuffer], Screen [DrawStr 0 47 ''System running...'', SendBuffer]] @
       Params_ready # [Thread_started ''boot_status_report'', Thread_started ''boot_check'', Thread_started ''wol_send'',
       Thread_started ''ui_thread'', Thread_started ''key_check'']"
    using boot_trace [where alloc = alloc and tick = tick, OF assms(1-3)] by fastforce
  moreover have "Params_ready \<notin> set (drop (length (events b0)) ?before)" by simp
  ultimately show "\<exists>b before between after. system_boot junk fs alloc tick True env b0 = Some b \<and>
      events b = before @ Mqtt_started (ss ! 2) (ss ! 3) # between @ Params_ready # after \<and>
      Params_ready \<notin> set (drop (length (events b0)) before)"
    by blast
  show "mqtt_sub_callback parse item print off payloadlen readbuf (boot_app b0) = None"
    using assms(4-9) payload_c_string [OF assms(6)]
    by (auto simp: mqtt_sub_callback_def array_set_def turn_on_request_def page_request_def release_computer_on_def
        send_page_def byte_is_one Let_def split: option.split)
qed

theorem early_command_faults_witness:
  "mqtt_sub_callback toy_parse toy_item toy_print 0 2 ''13x'' (boot_app example_boot) = None"
proof -
  obtain fs c where b: "boots [] fs example_env 2 3 1 3 c example_fields example_boot" using example_boots by blast
  obtain a where a: "example_alloc (boot_app example_boot) = Some a" using example_alloc_some by blast
  have l: "line_index example_boot = 0" "computer_on_sem (boot_app example_boot) = None"
    "page_mail (boot_app example_boot) = None"
    by (simp_all add: example_boot_def app_reset_def)
  have p: "toy_parse (payload_text 0 2 ''13x'') = Some (''1'', ''3'')" by (simp add: payload_text_def toy_parse_def)
  have "toy_item (''1'', ''3'') ''params'' = Some (''1'', ''3'')"
    "(\<exists>s. toy_print (toy_item (''1'', ''3'') ''turn_on'') = Some s \<and> atoi s mod 256 = 1) \<or>
     (\<exists>s. toy_print (toy_item (''1'', ''3'') ''page'') = Some s)"
    by (simp_all add: toy_item_def toy_print_def)
  from early_command_faults [where alloc = example_alloc and tick = 7 and parse = toy_parse and item = toy_item and print = toy_print
      and off = 0 and payloadlen = 2 and readbuf = "''13x''",
    OF b l(1) a l(2,3) _ p this]
  show ?thesis by simp
qed

end
