(* ===== verification/MemHeap.thy ===== *)
theory MemHeap
  imports Prelude
begin

text \<open>
  The memory heap behind \<open>rt_malloc\<close> (\<open>memheap.c\<close>).  Addresses and sizes are natural numbers below \<open>2 ^ 32\<close>;
  arithmetic that may wrap is written with \<open>add32\<close>, \<open>sub32\<close>.  The headers of the blocks,
  \<open>struct rt_memheap_item\<close>, are the map \<open>items\<close> from their addresses; the map of a heap holds the
  headers whose \<open>pool_ptr\<close> is that heap.  Reading or writing a header where there is none is \<open>None\<close>, which
  is also what a wrong magic number leads to; a header that was merged away is none any more.
  The bytes of the blocks are a function of the address.  The lock of a heap makes its operations
  atomic.  The first part links and unlinks headers, the second has the operations as the code has them,
  the third the invariant: the blocks tile the pool, both rings are intact, no two free blocks are
  neighbours, the counters are right.
\<close>

section \<open>Rings of headers\<close>

text \<open>\<open>ring n p xs\<close>: following \<open>n\<close> from the first of \<open>xs\<close> one meets \<open>xs\<close> in this order and is back, and \<open>p\<close> is the way back.\<close>

fun links :: "(nat \<Rightarrow> nat) \<Rightarrow> (nat \<Rightarrow> nat) \<Rightarrow> nat list \<Rightarrow> bool" where
  "links n p (a # b # xs) \<longleftrightarrow> n a = b \<and> p b = a \<and> links n p (b # xs)"
| "links n p xs \<longleftrightarrow> True"

definition ring :: "(nat \<Rightarrow> nat) \<Rightarrow> (nat \<Rightarrow> nat) \<Rightarrow> nat list \<Rightarrow> bool" where
  "ring n p xs \<longleftrightarrow> distinct xs \<and> links n p (xs @ [hd xs])"

lemma links_append: "links n p (xs @ a # ys) \<longleftrightarrow> links n p (xs @ [a]) \<and> links n p (a # ys)"
  by (induction xs rule: induct_list012) auto

lemma links_cong:
  assumes "\<And>a. a \<in> set (butlast xs) \<Longrightarrow> n' a = n a" and "\<And>a. a \<in> set (tl xs) \<Longrightarrow> p' a = p a"
  shows "links n' p' xs = links n p xs"
  using assms by (induction xs rule: induct_list012) auto

lemma ring_rotate: "ring n p (xs @ ys) = ring n p (ys @ xs)"
proof (cases xs; cases ys)
  fix a as b bs
  assume "xs = a # as" "ys = b # bs"
  then show ?thesis
    using links_append [of n p "a # as" b "bs @ [a]"] links_append [of n p "b # bs" a "as @ [b]"] by (auto simp: ring_def)
qed (simp_all add: ring_def)

lemma ring_cong:
  assumes "\<And>a. a \<in> set xs \<Longrightarrow> n' a = n a \<and> p' a = p a"
  shows "ring n' p' xs = ring n p xs"
proof -
  have "links n' p' (xs @ [hd xs]) = links n p (xs @ [hd xs])" if "xs \<noteq> []"
    using assms that by (intro links_cong) (auto simp: butlast_append dest: in_set_butlastD list.set_sel(2) split: if_splits)
  then show ?thesis by (cases xs) (auto simp: ring_def)
qed

lemma ring_next: "ring n p (xs @ a # b # ys) \<Longrightarrow> n a = b \<and> p b = a"
  using links_append [of n p xs a "b # ys @ [hd (xs @ a # b # ys)]"] by (simp add: ring_def)

lemma ring_last: "ring n p (a # xs) \<Longrightarrow> n (last (a # xs)) = a \<and> p a = last (a # xs)"
  using links_append [of n p "a # butlast xs" "last xs" "[a]"]
  by (cases xs rule: rev_cases) (auto simp: ring_def)

lemma ring_in:
  assumes "ring n p xs" and "a \<in> set xs"
  shows "n a \<in> set xs" and "p a \<in> set xs" and "p (n a) = a" and "n (p a) = a"
proof -
  obtain ys zs where "xs = ys @ a # zs" using assms(2) by (auto simp: in_set_conv_decomp)
  moreover obtain ws where ws: "ws = zs @ ys" by simp
  ultimately have r: "ring n p (a # ws)" "set xs = set (a # ws)" using assms(1) ring_rotate [of n p ys "a # zs"] by auto
  have f: "n a = hd (ws @ [a]) \<and> p (hd (ws @ [a])) = a" using r(1) by (cases ws) (auto simp: ring_def)
  have b: "p a = last (a # ws) \<and> n (last (a # ws)) = a" using ring_last [OF r(1)] by blast
  show "n a \<in> set xs" "p (n a) = a" unfolding r(2) using f by (cases ws; simp)+
  show "p a \<in> set xs" "n (p a) = a" unfolding r(2) using b by (cases ws; simp)+
qed

lemma ring_insert_hd:
  assumes "ring n p (a # xs)" and "y \<notin> set (a # xs)"
  shows "ring (n(y := n a, a := y)) (p(n a := y, y := a)) (a # y # xs)"
proof (cases xs)
  case (Cons b zs)
  have d: "b \<noteq> a" "b \<notin> set zs" "a \<notin> set zs" "y \<noteq> b" "y \<noteq> a" "y \<notin> set zs" "n a = b" "distinct zs"
    and s: "links n p (b # zs @ [a])"
    using assms Cons by (auto simp: ring_def)
  have "links (n(y := n a, a := y)) (p(n a := y, y := a)) (b # zs @ [a])"
    using s d by (subst links_cong [where n = n and p = p]) (auto simp: butlast_append split: if_splits)
  then show ?thesis using d Cons by (auto simp: ring_def)
qed (use assms in \<open>auto simp: ring_def\<close>)

lemma ring_remove_second:
  assumes "ring n p (a # y # xs)"
  shows "ring (n(a := n y)) (p(n y := a)) (a # xs)"
proof (cases xs)
  case (Cons b zs)
  have d: "b \<noteq> a" "b \<notin> set zs" "a \<notin> set zs" "n y = b" "distinct zs" and s: "links n p (b # zs @ [a])"
    using assms Cons by (auto simp: ring_def)
  have "links (n(a := n y)) (p(n y := a)) (b # zs @ [a])"
    using s d by (subst links_cong [where n = n and p = p]) (auto simp: butlast_append split: if_splits)
  then show ?thesis using d Cons by (auto simp: ring_def)
qed (use assms in \<open>auto simp: ring_def\<close>)

lemma ring_insert:
  assumes "ring n p (xs @ a # ys)" and "y \<notin> set (xs @ a # ys)"
  shows "ring (n(y := n a, a := y)) (p(n a := y, y := a)) (xs @ a # y # ys)"
  using ring_insert_hd [of n p a "ys @ xs" y] assms ring_rotate [of _ _ xs "a # ys"] ring_rotate [of _ _ xs "a # y # ys"] by simp

lemma ring_remove:
  assumes "ring n p (xs @ a # y # ys)"
  shows "ring (n(a := n y)) (p(n y := a)) (xs @ a # ys)"
  using ring_remove_second [of n p a y "ys @ xs"] assms ring_rotate [of _ _ xs "a # ys"] ring_rotate [of _ _ xs "a # y # ys"] by simp

section \<open>Headers and heaps\<close>

text \<open>\<open>struct rt_memheap_item\<close>; \<open>used\<close> is the flag in its magic number. A null pointer is 0.\<close>

record item =
  used :: bool
  inext :: nat
  iprev :: nat
  next_free :: nat
  prev_free :: nat

record memheap =
  start_addr :: nat
  pool_size :: nat
  available_size :: nat
  max_used_size :: nat
  block_list :: nat
  free_list :: nat
  items :: "nat \<rightharpoonup> item"

abbreviation HDR :: nat where "HDR \<equiv> 24"
abbreviation MINIALLOC :: nat where "MINIALLOC \<equiv> 12"

definition add32 :: "nat \<Rightarrow> nat \<Rightarrow> nat" where "add32 a b = (a + b) mod 2 ^ 32"

definition sub32 :: "nat \<Rightarrow> nat \<Rightarrow> nat" where "sub32 a b = (a + 2 ^ 32 - b) mod 2 ^ 32"

lemma sub32_le: "b \<le> a \<Longrightarrow> a < 2 ^ 32 \<Longrightarrow> sub32 a b = a - b"
  unfolding sub32_def by (metis Nat.add_diff_assoc2 mod_add_self2 mod_less less_imp_diff_less)

lemma add32_less: "a + b < 2 ^ 32 \<Longrightarrow> add32 a b = a + b"
  by (simp add: add32_def)

lemma add32_wrap: "2 ^ 32 \<le> a + b \<Longrightarrow> a < 2 ^ 32 \<Longrightarrow> b < 2 ^ 32 \<Longrightarrow> add32 a b = a + b - 2 ^ 32"
  unfolding add32_def by (subst le_mod_geq, assumption, rule mod_less) linarith

text \<open>\<open>RT_ALIGN(n, 4)\<close> and \<open>RT_ALIGN_DOWN(n, 4)\<close>.\<close>

definition align_up :: "nat \<Rightarrow> nat" where "align_up n = add32 n 3 div 4 * 4"

definition align_down :: "nat \<Rightarrow> nat" where "align_down n = n div 4 * 4"

definition block_request :: "nat \<Rightarrow> nat" where
  "block_request n = (let n = align_up n in if n < MINIALLOC then MINIALLOC else n)"

text \<open>A write to a header, and its size, \<open>MEMITEM_SIZE\<close>.\<close>

definition wr :: "nat \<Rightarrow> (item \<Rightarrow> item) \<Rightarrow> memheap \<Rightarrow> memheap option" where
  "wr a f h = do { it \<leftarrow> items h a; Some (h\<lparr>items := (items h)(a \<mapsto> f it)\<rparr>) }"

definition item_size :: "nat \<Rightarrow> memheap \<Rightarrow> nat option" where
  "item_size a h = do { it \<leftarrow> items h a; Some (sub32 (sub32 (inext it) a) HDR) }"

definition drop_item :: "nat \<Rightarrow> memheap \<Rightarrow> memheap" where
  "drop_item a h = h\<lparr>items := (items h)(a := None)\<rparr>"

text \<open>Taking a header out of the free list, putting one at its front, taking one out of the list of blocks.\<close>

definition unlink_free :: "nat \<Rightarrow> memheap \<Rightarrow> memheap option" where
  "unlink_free q h =
     do { it \<leftarrow> items h q;
          h1 \<leftarrow> wr (next_free it) (\<lambda>x. x\<lparr>prev_free := prev_free it\<rparr>) h;
          it1 \<leftarrow> items h1 q;
          wr (prev_free it1) (\<lambda>x. x\<lparr>next_free := next_free it1\<rparr>) h1 }"

definition push_free :: "nat \<Rightarrow> memheap \<Rightarrow> memheap option" where
  "push_free q h =
     do { f \<leftarrow> items h (free_list h);
          h1 \<leftarrow> wr q (\<lambda>x. x\<lparr>next_free := next_free f, prev_free := free_list h\<rparr>) h;
          f1 \<leftarrow> items h1 (free_list h1);
          h2 \<leftarrow> wr (next_free f1) (\<lambda>x. x\<lparr>prev_free := q\<rparr>) h1;
          wr (free_list h2) (\<lambda>x. x\<lparr>next_free := q\<rparr>) h2 }"

definition unlink_block :: "nat \<Rightarrow> memheap \<Rightarrow> memheap option" where
  "unlink_block q h =
     do { it \<leftarrow> items h q;
          h1 \<leftarrow> wr (iprev it) (\<lambda>x. x\<lparr>inext := inext it\<rparr>) h;
          it1 \<leftarrow> items h1 q;
          wr (inext it1) (\<lambda>x. x\<lparr>iprev := iprev it1\<rparr>) h1 }"

text \<open>A new free header at \<open>q\<close> behind \<open>b\<close>, in the list of blocks; its links of the free list are written by the
  \<open>push_free\<close> that follows. Where the new header would not lie behind \<open>b\<close> and before its neighbour, the code
  writes over headers, and the result is \<open>None\<close>.\<close>

definition cut_block :: "nat \<Rightarrow> nat \<Rightarrow> memheap \<Rightarrow> memheap option" where
  "cut_block q b h =
     do { it \<leftarrow> items h b;
          if q < b + HDR \<or> inext it < q + HDR then None
          else do {
            let h1 = h\<lparr>items := (items h)(q \<mapsto> \<lparr>used = False, inext = inext it, iprev = b, next_free = 0, prev_free = 0\<rparr>)\<rparr>;
            h2 \<leftarrow> wr (inext it) (\<lambda>x. x\<lparr>iprev := q\<rparr>) h1;
            wr b (\<lambda>x. x\<lparr>inext := q\<rparr>) h2 } }"

definition note_used :: "memheap \<Rightarrow> memheap" where
  "note_used h =
     (let u = sub32 (pool_size h) (available_size h) in if u > max_used_size h then h\<lparr>max_used_size := u\<rparr> else h)"

section \<open>The operations of a heap\<close>

text \<open>\<open>flist\<close> is the address of \<open>memheap->free_header\<close>.\<close>

definition rt_memheap_init :: "nat \<Rightarrow> nat \<Rightarrow> nat \<Rightarrow> memheap" where
  "rt_memheap_init flist start n =
     (let pool = align_down n; avail = sub32 pool (2 * HDR); tail = add32 start (add32 avail HDR)
      in \<lparr>start_addr = start, pool_size = pool, available_size = avail, max_used_size = sub32 pool avail,
          block_list = start, free_list = flist,
          items = [flist \<mapsto> \<lparr>used = False, inext = 0, iprev = 0, next_free = start, prev_free = start\<rparr>,
                   start \<mapsto> \<lparr>used = False, inext = tail, iprev = tail, next_free = flist, prev_free = flist\<rparr>,
                   tail \<mapsto> \<lparr>used = True, inext = start, iprev = start, next_free = 0, prev_free = 0\<rparr>]\<rparr>)"

text \<open>The loop over the free list: where it stops, and \<open>free_size\<close> then.\<close>

partial_function (option) search_free :: "memheap \<Rightarrow> nat \<Rightarrow> nat \<Rightarrow> nat \<Rightarrow> (nat \<times> nat) option" where
  "search_free h n q free_size =
     (if q \<noteq> free_list h \<and> free_size < n
      then do { s \<leftarrow> item_size q h;
                if s < n then do { it \<leftarrow> items h q; search_free h n (next_free it) s } else search_free h n q s }
      else Some (q, free_size))"

definition take_block :: "nat \<Rightarrow> nat \<Rightarrow> nat \<Rightarrow> memheap \<Rightarrow> memheap option" where
  "take_block n q free_size h =
     do { h1 \<leftarrow> (if free_size \<ge> add32 n (HDR + MINIALLOC)
                then do { h1 \<leftarrow> cut_block (add32 q (n + HDR)) q h;
                          h2 \<leftarrow> unlink_free q h1;
                          h3 \<leftarrow> wr q (\<lambda>x. x\<lparr>next_free := 0, prev_free := 0\<rparr>) h2;
                          h4 \<leftarrow> push_free (add32 q (n + HDR)) h3;
                          Some (note_used (h4\<lparr>available_size := sub32 (sub32 (available_size h4) n) HDR\<rparr>)) }
                else do { h1 \<leftarrow> unlink_free q (note_used (h\<lparr>available_size := sub32 (available_size h) free_size\<rparr>));
                          wr q (\<lambda>x. x\<lparr>next_free := 0, prev_free := 0\<rparr>) h1 });
          wr q (\<lambda>x. x\<lparr>used := True\<rparr>) h1 }"

definition rt_memheap_alloc :: "nat \<Rightarrow> memheap \<Rightarrow> (nat \<times> memheap) option" where
  "rt_memheap_alloc n h =
     (let n = block_request n
      in if n < available_size h
         then do { f \<leftarrow> items h (free_list h);
                   (q, free_size) \<leftarrow> search_free h n (next_free f) 0;
                   if free_size \<ge> n then do { h1 \<leftarrow> take_block n q free_size h; Some (add32 q HDR, h1) } else Some (0, h) }
         else Some (0, h))"

text \<open>Freeing: the block joins a free neighbour before it, and takes in a free neighbour behind it.\<close>

definition merge_left :: "nat \<Rightarrow> memheap \<Rightarrow> (nat \<times> bool \<times> memheap) option" where
  "merge_left q h =
     do { it \<leftarrow> items h q;
          l \<leftarrow> items h (iprev it);
          if used l then Some (q, True, h)
          else do { h1 \<leftarrow> unlink_block q (h\<lparr>available_size := add32 (available_size h) HDR\<rparr>);
                    Some (iprev it, False, drop_item q h1) } }"

definition merge_right :: "nat \<Rightarrow> memheap \<Rightarrow> memheap option" where
  "merge_right q h =
     do { it \<leftarrow> items h q;
          r \<leftarrow> items h (inext it);
          if used r then Some h
          else do { h1 \<leftarrow> unlink_block (inext it) (h\<lparr>available_size := add32 (available_size h) HDR\<rparr>);
                    h2 \<leftarrow> unlink_free (inext it) h1;
                    Some (drop_item (inext it) h2) } }"

definition rt_memheap_free :: "nat \<Rightarrow> memheap \<Rightarrow> memheap option" where
  "rt_memheap_free ptr h =
     (if ptr = 0 then Some h
      else do { let q = sub32 ptr HDR;
                it \<leftarrow> items h q;
                if \<not> used it then None
                else do { _ \<leftarrow> items h (inext it);
                          h1 \<leftarrow> wr q (\<lambda>x. x\<lparr>used := False\<rparr>) h;
                          s \<leftarrow> item_size q h1;
                          (q1, insert_header, h2) \<leftarrow> merge_left q (h1\<lparr>available_size := add32 (available_size h1) s\<rparr>);
                          h3 \<leftarrow> merge_right q1 h2;
                          if insert_header then push_free q1 h3 else Some h3 } })"

text \<open>Reallocation. \<open>grow_block\<close> uses the free neighbour behind the block, when it is big enough;
  \<open>shrink_block\<close> gives the end of the block back.\<close>

type_synonym bytes = "nat \<Rightarrow> u8"

definition copy_bytes :: "nat \<Rightarrow> nat \<Rightarrow> nat \<Rightarrow> bytes \<Rightarrow> bytes" where
  "copy_bytes dst src n m = (\<lambda>a. if dst \<le> a \<and> a < dst + n then m (src + (a - dst)) else m a)"

definition grow_block :: "nat \<Rightarrow> nat \<Rightarrow> nat \<Rightarrow> memheap \<Rightarrow> memheap option" where
  "grow_block newsize oldsize q h =
     do { it \<leftarrow> items h q;
          h1 \<leftarrow> unlink_free (inext it)
                 (note_used (h\<lparr>available_size := sub32 (available_size h) (sub32 newsize oldsize)\<rparr>));
          h2 \<leftarrow> unlink_block (inext it) h1;
          h3 \<leftarrow> cut_block (add32 (add32 q HDR) newsize) q (drop_item (inext it) h2);
          push_free (add32 (add32 q HDR) newsize) h3 }"

definition shrink_block :: "nat \<Rightarrow> nat \<Rightarrow> memheap \<Rightarrow> memheap option" where
  "shrink_block newsize q h =
     do { let new = add32 q (newsize + HDR);
          h1 \<leftarrow> cut_block new q h;
          it \<leftarrow> items h1 new;
          r \<leftarrow> items h1 (inext it);
          h2 \<leftarrow> (if used r then Some h1
                 else do { s \<leftarrow> item_size (inext it) h1;
                           h2 \<leftarrow> unlink_block (inext it) (h1\<lparr>available_size := sub32 (available_size h1) s\<rparr>);
                           h3 \<leftarrow> unlink_free (inext it) h2;
                           Some (drop_item (inext it) h3) });
          h4 \<leftarrow> push_free new h2;
          s \<leftarrow> item_size new h4;
          Some (h4\<lparr>available_size := add32 (available_size h4) s\<rparr>) }"

definition move_block :: "nat \<Rightarrow> nat \<Rightarrow> nat \<Rightarrow> memheap \<Rightarrow> bytes \<Rightarrow> (nat \<times> memheap \<times> bytes) option" where
  "move_block newsize oldsize ptr h m =
     do { (new, h1) \<leftarrow> rt_memheap_alloc newsize h;
          if new \<noteq> 0
          then do { h2 \<leftarrow> rt_memheap_free ptr h1;
                    Some (new, h2, copy_bytes new ptr (if oldsize < newsize then oldsize else newsize) m) }
          else Some (0, h1, m) }"

text \<open>The comparison of the free neighbour's size is unsigned, so its left side wraps too.\<close>

definition rt_memheap_realloc :: "nat \<Rightarrow> nat \<Rightarrow> memheap \<Rightarrow> bytes \<Rightarrow> (nat \<times> memheap \<times> bytes) option" where
  "rt_memheap_realloc ptr newsize h m =
     (if newsize = 0 then do { h1 \<leftarrow> rt_memheap_free ptr h; Some (0, h1, m) }
      else let newsize = block_request newsize
      in if ptr = 0 then do { (new, h1) \<leftarrow> rt_memheap_alloc newsize h; Some (new, h1, m) }
      else do { let q = sub32 ptr HDR;
                it \<leftarrow> items h q;
                oldsize \<leftarrow> item_size q h;
                if newsize > oldsize
                then if inext it \<le> q then None
                  else do { r \<leftarrow> items h (inext it);
                            nextsize \<leftarrow> item_size (inext it) h;
                            if \<not> used r \<and> add32 nextsize oldsize > add32 newsize MINIALLOC
                            then do { h1 \<leftarrow> grow_block newsize oldsize q h; Some (ptr, h1, m) }
                            else move_block newsize oldsize ptr h m }
                else if add32 newsize (HDR + MINIALLOC) \<ge> oldsize then Some (ptr, h, m)
                else do { h1 \<leftarrow> shrink_block newsize q h; Some (ptr, h1, m) } })"

section \<open>What the parts do to the links\<close>

definition us :: "memheap \<Rightarrow> nat \<Rightarrow> bool" where "us h a = used (the (items h a))"

definition nx :: "memheap \<Rightarrow> nat \<Rightarrow> nat" where "nx h a = inext (the (items h a))"

definition pv :: "memheap \<Rightarrow> nat \<Rightarrow> nat" where "pv h a = iprev (the (items h a))"

definition nf :: "memheap \<Rightarrow> nat \<Rightarrow> nat" where "nf h a = next_free (the (items h a))"

definition pf :: "memheap \<Rightarrow> nat \<Rightarrow> nat" where "pf h a = prev_free (the (items h a))"

definition counters :: "memheap \<Rightarrow> nat \<times> nat \<times> nat \<times> nat \<times> nat \<times> nat" where
  "counters h = (start_addr h, pool_size h, available_size h, max_used_size h, block_list h, free_list h)"

named_theorems link_simps \<open>links of a heap after a write\<close>

lemma items_known: "a \<in> dom (items h) \<Longrightarrow> items h a = Some \<lparr>used = us h a, inext = nx h a, iprev = pv h a, next_free = nf h a, prev_free = pf h a\<rparr>"
  by (auto simp: us_def nx_def pv_def nf_def pf_def)

lemma links_of_write [link_simps]:
  "us (h\<lparr>items := (items h)(a \<mapsto> x)\<rparr>) = (us h)(a := used x)"
  "nx (h\<lparr>items := (items h)(a \<mapsto> x)\<rparr>) = (nx h)(a := inext x)"
  "pv (h\<lparr>items := (items h)(a \<mapsto> x)\<rparr>) = (pv h)(a := iprev x)"
  "nf (h\<lparr>items := (items h)(a \<mapsto> x)\<rparr>) = (nf h)(a := next_free x)"
  "pf (h\<lparr>items := (items h)(a \<mapsto> x)\<rparr>) = (pf h)(a := prev_free x)"
  "counters (h\<lparr>items := f\<rparr>) = counters h"
  by (simp_all add: us_def nx_def pv_def nf_def pf_def counters_def fun_eq_iff)

lemma links_of_counters [link_simps]:
  "us (h\<lparr>available_size := v\<rparr>) = us h" "nx (h\<lparr>available_size := v\<rparr>) = nx h" "pv (h\<lparr>available_size := v\<rparr>) = pv h"
  "nf (h\<lparr>available_size := v\<rparr>) = nf h" "pf (h\<lparr>available_size := v\<rparr>) = pf h"
  "us (h\<lparr>max_used_size := v\<rparr>) = us h" "nx (h\<lparr>max_used_size := v\<rparr>) = nx h" "pv (h\<lparr>max_used_size := v\<rparr>) = pv h"
  "nf (h\<lparr>max_used_size := v\<rparr>) = nf h" "pf (h\<lparr>max_used_size := v\<rparr>) = pf h"
  by (auto simp: us_def nx_def pv_def nf_def pf_def)

lemma links_of_drop [link_simps]:
  assumes "a \<noteq> q"
  shows "us (drop_item q h) a = us h a" "nx (drop_item q h) a = nx h a" "pv (drop_item q h) a = pv h a"
    "nf (drop_item q h) a = nf h a" "pf (drop_item q h) a = pf h a"
  using assms by (auto simp: drop_item_def us_def nx_def pv_def nf_def pf_def)

lemma drop_item_simps [simp]:
  "items (drop_item q h) = (items h)(q := None)" "counters (drop_item q h) = counters h"
  by (simp_all add: drop_item_def counters_def)

lemma counters_eq:
  assumes "counters h' = counters h"
  shows "start_addr h' = start_addr h" "pool_size h' = pool_size h" "available_size h' = available_size h"
    "max_used_size h' = max_used_size h" "free_list h' = free_list h"
  using assms by (simp_all add: counters_def)

lemma wr_known: "a \<in> dom (items h) \<Longrightarrow> wr a f h = Some (h\<lparr>items := (items h)(a \<mapsto> f (the (items h a)))\<rparr>)"
  by (auto simp: wr_def)

text \<open>The same heap but for the links of the free list, or but for the links between blocks.\<close>

definition same_blocks :: "memheap \<Rightarrow> memheap \<Rightarrow> bool" where
  "same_blocks h h' \<longleftrightarrow> counters h' = counters h \<and> dom (items h') = dom (items h) \<and> us h' = us h \<and> nx h' = nx h \<and> pv h' = pv h"

definition same_free :: "memheap \<Rightarrow> memheap \<Rightarrow> bool" where
  "same_free h h' \<longleftrightarrow> counters h' = counters h \<and> dom (items h') = dom (items h) \<and> us h' = us h \<and> nf h' = nf h \<and> pf h' = pf h"

lemma wr_prev_free:
  "a \<in> dom (items h) \<Longrightarrow> \<exists>h'. wr a (\<lambda>x. x\<lparr>prev_free := v\<rparr>) h = Some h' \<and> same_blocks h h' \<and> nf h' = nf h \<and> pf h' = (pf h)(a := v)"
  unfolding same_blocks_def wr_known by (auto simp: link_simps us_def nx_def pv_def nf_def pf_def fun_eq_iff)

lemma wr_next_free:
  "a \<in> dom (items h) \<Longrightarrow> \<exists>h'. wr a (\<lambda>x. x\<lparr>next_free := v\<rparr>) h = Some h' \<and> same_blocks h h' \<and> nf h' = (nf h)(a := v) \<and> pf h' = pf h"
  unfolding same_blocks_def wr_known by (auto simp: link_simps us_def nx_def pv_def nf_def pf_def fun_eq_iff)

lemma wr_free_links:
  "a \<in> dom (items h) \<Longrightarrow> \<exists>h'. wr a (\<lambda>x. x\<lparr>next_free := v, prev_free := w\<rparr>) h = Some h' \<and> same_blocks h h' \<and>
     nf h' = (nf h)(a := v) \<and> pf h' = (pf h)(a := w)"
  unfolding same_blocks_def wr_known by (auto simp: link_simps us_def nx_def pv_def nf_def pf_def fun_eq_iff)

lemma wr_inext:
  "a \<in> dom (items h) \<Longrightarrow> \<exists>h'. wr a (\<lambda>x. x\<lparr>inext := v\<rparr>) h = Some h' \<and> same_free h h' \<and> nx h' = (nx h)(a := v) \<and> pv h' = pv h"
  unfolding same_free_def wr_known by (auto simp: link_simps us_def nx_def pv_def nf_def pf_def fun_eq_iff)

lemma wr_iprev:
  "a \<in> dom (items h) \<Longrightarrow> \<exists>h'. wr a (\<lambda>x. x\<lparr>iprev := v\<rparr>) h = Some h' \<and> same_free h h' \<and> nx h' = nx h \<and> pv h' = (pv h)(a := v)"
  unfolding same_free_def wr_known by (auto simp: link_simps us_def nx_def pv_def nf_def pf_def fun_eq_iff)

lemma wr_used:
  "a \<in> dom (items h) \<Longrightarrow> \<exists>h'. wr a (\<lambda>x. x\<lparr>used := v\<rparr>) h = Some h' \<and> counters h' = counters h \<and> dom (items h') = dom (items h) \<and>
     us h' = (us h)(a := v) \<and> nx h' = nx h \<and> pv h' = pv h \<and> nf h' = nf h \<and> pf h' = pf h"
  unfolding wr_known by (auto simp: link_simps us_def nx_def pv_def nf_def pf_def fun_eq_iff)

lemma same_blocks_trans: "same_blocks h h' \<Longrightarrow> same_blocks h' h'' \<Longrightarrow> same_blocks h h''"
  by (simp add: same_blocks_def)

lemma same_free_trans: "same_free h h' \<Longrightarrow> same_free h' h'' \<Longrightarrow> same_free h h''"
  by (simp add: same_free_def)

lemma unlink_free_links:
  assumes "ring (nf h) (pf h) (xs @ a # q # ys)" and "set (xs @ a # q # ys) \<subseteq> dom (items h)"
  shows "\<exists>h'. unlink_free q h = Some h' \<and> ring (nf h') (pf h') (xs @ a # ys) \<and> same_blocks h h'"
proof -
  let ?zs = "xs @ a # q # ys"
  have q: "q \<in> set ?zs" "q \<noteq> a" "pf h q = a" using ring_next [OF assms(1)] assms(1) by (auto simp: ring_def)
  have n: "nf h q \<in> set ?zs" using ring_in [OF assms(1) q(1)] by blast
  have nq: "nf h q \<noteq> q" using ring_in(3) [OF assms(1) q(1)] q(2,3) by auto
  have d: "q \<in> dom (items h)" "nf h q \<in> dom (items h)" "a \<in> dom (items h)" using assms(2) n by auto
  obtain h1 where h1: "wr (nf h q) (\<lambda>x. x\<lparr>prev_free := a\<rparr>) h = Some h1" "same_blocks h h1" "nf h1 = nf h" "pf h1 = (pf h)(nf h q := a)"
    using wr_prev_free [OF d(2)] by blast
  have d1: "q \<in> dom (items h1)" "a \<in> dom (items h1)" using h1(2) d by (auto simp: same_blocks_def)
  obtain h2 where h2: "wr a (\<lambda>x. x\<lparr>next_free := nf h q\<rparr>) h1 = Some h2" "same_blocks h1 h2" "nf h2 = (nf h1)(a := nf h q)" "pf h2 = pf h1"
    using wr_next_free [OF d1(2)] by blast
  have "unlink_free q h = Some h2"
    using h1 h2(1) nq q(3) items_known [OF d(1)] items_known [OF d1(1)] by (simp add: unlink_free_def)
  then show ?thesis using h1 h2 ring_remove [OF assms(1)] same_blocks_trans by auto
qed

lemma push_free_links:
  assumes "ring (nf h) (pf h) (free_list h # fs)" and "q \<notin> set (free_list h # fs)" and "insert q (set (free_list h # fs)) \<subseteq> dom (items h)"
  shows "\<exists>h'. push_free q h = Some h' \<and> ring (nf h') (pf h') (free_list h # q # fs) \<and> same_blocks h h'"
proof -
  let ?F = "free_list h"
  have n: "nf h ?F \<in> set (?F # fs)" using ring_in [OF assms(1)] by auto
  have d: "q \<in> dom (items h)" "?F \<in> dom (items h)" "nf h ?F \<in> dom (items h)" using assms(3) n by auto
  have ne: "q \<noteq> ?F" "nf h ?F \<noteq> q" using assms(2) n by auto
  obtain h1 where h1: "wr q (\<lambda>x. x\<lparr>next_free := nf h ?F, prev_free := ?F\<rparr>) h = Some h1" "same_blocks h h1"
      "nf h1 = (nf h)(q := nf h ?F)" "pf h1 = (pf h)(q := ?F)"
    using wr_free_links [OF d(1)] by blast
  have d1: "?F \<in> dom (items h1)" "nf h ?F \<in> dom (items h1)" "free_list h1 = ?F" using h1(2) d by (auto simp: same_blocks_def counters_def)
  obtain h2 where h2: "wr (nf h ?F) (\<lambda>x. x\<lparr>prev_free := q\<rparr>) h1 = Some h2" "same_blocks h1 h2" "nf h2 = nf h1" "pf h2 = (pf h1)(nf h ?F := q)"
    using wr_prev_free [OF d1(2)] by blast
  have d2: "?F \<in> dom (items h2)" "free_list h2 = ?F" using h2(2) d1 by (auto simp: same_blocks_def counters_def)
  obtain h3 where h3: "wr ?F (\<lambda>x. x\<lparr>next_free := q\<rparr>) h2 = Some h3" "same_blocks h2 h3" "nf h3 = (nf h2)(?F := q)" "pf h3 = pf h2"
    using wr_next_free [OF d2(1)] by blast
  have "push_free q h = Some h3"
    using h1 h2(1) h3(1) ne d1(3) d2(2) items_known [OF d(2)] items_known [OF d1(1)] by (simp add: push_free_def)
  moreover have "ring (nf h3) (pf h3) (?F # q # fs)"
    using ring_insert_hd [OF assms(1,2)] h1(3,4) h2(3,4) h3(3,4) ne by (simp add: fun_upd_twist)
  ultimately show ?thesis using same_blocks_trans h1(2) h2(2) h3(2) by blast
qed

lemma unlink_block_links:
  assumes "ring (nx h) (pv h) (xs @ a # q # ys)" and "set (xs @ a # q # ys) \<subseteq> dom (items h)"
  shows "\<exists>h'. unlink_block q h = Some h' \<and> ring (nx h') (pv h') (xs @ a # ys) \<and> same_free h h'"
proof -
  let ?zs = "xs @ a # q # ys"
  have q: "q \<in> set ?zs" "q \<noteq> a" "pv h q = a" using ring_next [OF assms(1)] assms(1) by (auto simp: ring_def)
  have n: "nx h q \<in> set ?zs" using ring_in [OF assms(1) q(1)] by blast
  have d: "q \<in> dom (items h)" "nx h q \<in> dom (items h)" "a \<in> dom (items h)" using assms(2) n by auto
  obtain h1 where h1: "wr a (\<lambda>x. x\<lparr>inext := nx h q\<rparr>) h = Some h1" "same_free h h1" "nx h1 = (nx h)(a := nx h q)" "pv h1 = pv h"
    using wr_inext [OF d(3)] by blast
  have d1: "q \<in> dom (items h1)" "nx h q \<in> dom (items h1)" using h1(2) d by (auto simp: same_free_def)
  obtain h2 where h2: "wr (nx h q) (\<lambda>x. x\<lparr>iprev := a\<rparr>) h1 = Some h2" "same_free h1 h2" "nx h2 = nx h1" "pv h2 = (pv h1)(nx h q := a)"
    using wr_iprev [OF d1(2)] by blast
  have "unlink_block q h = Some h2"
    using h1 h2(1) q(2,3) items_known [OF d(1)] items_known [OF d1(1)] by (simp add: unlink_block_def)
  then show ?thesis using h1 h2 ring_remove [OF assms(1)] same_free_trans by auto
qed

lemma cut_block_links:
  assumes "ring (nx h) (pv h) (xs @ b # ys)" and "set (xs @ b # ys) \<subseteq> dom (items h)" and "q \<notin> dom (items h)"
    and "b + HDR \<le> q" and "q + HDR \<le> nx h b"
  shows "\<exists>h'. cut_block q b h = Some h' \<and> ring (nx h') (pv h') (xs @ b # q # ys) \<and> counters h' = counters h \<and>
    dom (items h') = insert q (dom (items h)) \<and> us h' = (us h)(q := False) \<and> nx h' = (nx h)(q := nx h b, b := q) \<and>
    (\<forall>a. a \<noteq> q \<longrightarrow> nf h' a = nf h a \<and> pf h' a = pf h a)"
proof -
  let ?x = "\<lparr>used = False, inext = nx h b, iprev = b, next_free = 0, prev_free = 0\<rparr>"
  let ?h1 = "h\<lparr>items := (items h)(q \<mapsto> ?x)\<rparr>"
  have b: "b \<in> dom (items h)" "nx h b \<in> dom (items h)" using assms(2) ring_in(1) [OF assms(1), of b] by auto
  have ne: "q \<noteq> b" "q \<noteq> nx h b" using assms(4,5) by auto
  have d: "nx h b \<in> dom (items ?h1)" using b by auto
  obtain h2 where h2: "wr (nx h b) (\<lambda>x. x\<lparr>iprev := q\<rparr>) ?h1 = Some h2" "same_free ?h1 h2" "nx h2 = nx ?h1" "pv h2 = (pv ?h1)(nx h b := q)"
    using wr_iprev [OF d] by blast
  have d2: "b \<in> dom (items h2)" using h2(2) b by (auto simp: same_free_def)
  obtain h3 where h3: "wr b (\<lambda>x. x\<lparr>inext := q\<rparr>) h2 = Some h3" "same_free h2 h3" "nx h3 = (nx h2)(b := q)" "pv h3 = pv h2"
    using wr_inext [OF d2] by blast
  have c: "cut_block q b h = Some h3"
    using h2(1) h3(1) assms(4,5) items_known [OF b(1)] by (simp add: cut_block_def)
  have n: "nx h3 = (nx h)(q := nx h b, b := q)" "pv h3 = (pv h)(nx h b := q, q := b)"
    using h2(3,4) h3(3,4) ne by (auto simp: link_simps fun_eq_iff)
  have "ring (nx h3) (pv h3) (xs @ b # q # ys)"
    using ring_insert [OF assms(1), of q] assms(2,3) n by auto
  then show ?thesis using c n(1) h2(2) h3(2) by (auto simp: same_free_def link_simps)
qed

section \<open>The blocks of a heap\<close>

text \<open>A heap without its links: the sizes of its blocks and whether they are used, in the order of their addresses.
  \<open>lay a segs\<close> has them with the addresses of their headers, when the first is at \<open>a\<close>.\<close>

type_synonym segs = "(nat \<times> bool) list"

fun lay :: "nat \<Rightarrow> segs \<Rightarrow> (nat \<times> nat \<times> bool) list" where
  "lay a [] = []"
| "lay a ((n, u) # ss) = (a, n, u) # lay (a + HDR + n) ss"

definition seg_end :: "nat \<Rightarrow> segs \<Rightarrow> nat" where
  "seg_end a ss = a + sum_list (map (\<lambda>s. HDR + fst s) ss)"

definition addrs :: "nat \<Rightarrow> segs \<Rightarrow> nat list" where
  "addrs a ss = map fst (lay a ss) @ [seg_end a ss]"

definition free_addrs :: "nat \<Rightarrow> segs \<Rightarrow> nat list" where
  "free_addrs a ss = map fst (filter (\<lambda>(_, _, u). \<not> u) (lay a ss))"

definition free_sum :: "segs \<Rightarrow> nat" where
  "free_sum ss = sum_list (map fst (filter (\<lambda>s. \<not> snd s) ss))"

lemma seg_end_simps [simp]:
  "seg_end a [] = a" "seg_end a (s # ss) = seg_end (a + HDR + fst s) ss" "seg_end a (ss @ ts) = seg_end (seg_end a ss) ts"
  by (simp_all add: seg_end_def)

lemma seg_end_ge: "a \<le> seg_end a ss"
  by (simp add: seg_end_def)

lemma lay_append [simp]: "lay a (ss @ ts) = lay a ss @ lay (seg_end a ss) ts"
  by (induction a ss rule: lay.induct) simp_all

lemma addrs_simps [simp]:
  "addrs a [] = [a]" "addrs a ((n, u) # ss) = a # addrs (a + HDR + n) ss"
  "addrs a (ss @ ts) = map fst (lay a ss) @ addrs (seg_end a ss) ts"
  by (simp_all add: addrs_def)

lemma free_addrs_simps [simp]:
  "free_addrs a [] = []" "free_addrs a ((n, u) # ss) = (if u then [] else [a]) @ free_addrs (a + HDR + n) ss"
  "free_addrs a (ss @ ts) = free_addrs a ss @ free_addrs (seg_end a ss) ts"
  by (simp_all add: free_addrs_def)

lemma free_sum_simps [simp]:
  "free_sum [] = 0" "free_sum ((n, u) # ss) = (if u then 0 else n) + free_sum ss" "free_sum (ss @ ts) = free_sum ss + free_sum ts"
  by (simp_all add: free_sum_def)

lemma lay_range: "(b, n, u) \<in> set (lay a ss) \<Longrightarrow> a \<le> b \<and> b + HDR + n \<le> seg_end a ss"
proof (induction a ss rule: lay.induct)
  case (2 a m v ss)
  then show ?case using seg_end_ge [of "a + HDR + m" ss] by auto
qed simp

lemma addrs_sorted: "sorted_wrt (<) (addrs a ss)"
proof (induction a ss rule: lay.induct)
  case (2 a n u ss)
  have "a < b" if "b \<in> set (addrs (a + HDR + n) ss)" for b
    using that seg_end_ge [of "a + HDR + n" ss] by (auto simp: addrs_def dest: lay_range)
  then show ?case using 2 by simp
qed simp

lemma addrs_distinct: "distinct (addrs a ss)"
  using addrs_sorted [of a ss] by (simp add: strict_sorted_iff)

lemma lay_split: "(b, n, u) \<in> set (lay a ss) \<Longrightarrow> \<exists>xs ys. ss = xs @ (n, u) # ys \<and> b = seg_end a xs"
proof (induction a ss rule: lay.induct)
  case (2 a m v ss)
  show ?case
  proof (cases "(b, n, u) = (a, m, v)")
    case True
    then show ?thesis by (intro exI [of _ "[]"] exI [of _ ss]) auto
  next
    case False
    then obtain xs ys where "ss = xs @ (n, u) # ys" "b = seg_end (a + HDR + m) xs" using 2 by auto
    then show ?thesis by (intro exI [of _ "(m, v) # xs"] exI [of _ ys]) auto
  qed
qed simp

lemma free_sum_bound: "free_sum ss \<le> seg_end a ss - a"
proof (induction ss arbitrary: a)
  case (Cons s ss)
  have "a + HDR + fst s \<le> seg_end (a + HDR + fst s) ss" by (rule seg_end_ge)
  then show ?case using Cons [of "a + HDR + fst s"] by (cases s) auto
qed simp

section \<open>The invariant\<close>

text \<open>\<open>heap_base h ss fs\<close>: the blocks of the heap are \<open>ss\<close>, and its free list is \<open>fs\<close>, which need not have all free blocks.
  \<open>heap_ok\<close>: it has them all, no two are neighbours, and the counters are right.\<close>

definition heap_base :: "memheap \<Rightarrow> segs \<Rightarrow> nat list \<Rightarrow> bool" where
  "heap_base h ss fs \<longleftrightarrow>
     ring (nx h) (pv h) (addrs (start_addr h) ss) \<and> ring (nf h) (pf h) (free_list h # fs) \<and>
     dom (items h) = insert (free_list h) (set (addrs (start_addr h) ss)) \<and>
     (\<forall>(a, n, u) \<in> set (lay (start_addr h) ss). us h a = u) \<and> us h (seg_end (start_addr h) ss) \<and>
     set fs \<subseteq> set (free_addrs (start_addr h) ss) \<and> list_all (\<lambda>(n, _). MINIALLOC \<le> n \<and> n mod 4 = 0) ss \<and>
     start_addr h + pool_size h = seg_end (start_addr h) ss + HDR \<and> start_addr h + pool_size h < 2 ^ 32 \<and>
     start_addr h mod 4 = 0 \<and> (free_list h + HDR \<le> start_addr h \<or> start_addr h + pool_size h \<le> free_list h) \<and>
     \<not> us h (free_list h)"

definition heap_ok :: "memheap \<Rightarrow> segs \<Rightarrow> nat list \<Rightarrow> bool" where
  "heap_ok h ss fs \<longleftrightarrow>
     heap_base h ss fs \<and> set fs = set (free_addrs (start_addr h) ss) \<and> successively (\<lambda>s t. snd s \<or> snd t) ss \<and>
     available_size h = free_sum ss \<and> pool_size h - available_size h \<le> max_used_size h \<and> max_used_size h \<le> pool_size h"

lemma heap_baseD:
  assumes "heap_base h ss fs"
  shows "ring (nx h) (pv h) (addrs (start_addr h) ss)" and "ring (nf h) (pf h) (free_list h # fs)"
    and "dom (items h) = insert (free_list h) (set (addrs (start_addr h) ss))"
    and "\<forall>(a, n, u) \<in> set (lay (start_addr h) ss). us h a = u" and "us h (seg_end (start_addr h) ss)"
    and "set fs \<subseteq> set (free_addrs (start_addr h) ss)" and "list_all (\<lambda>(n, _). MINIALLOC \<le> n \<and> n mod 4 = 0) ss"
    and "start_addr h + pool_size h = seg_end (start_addr h) ss + HDR" and "start_addr h + pool_size h < 2 ^ 32"
    and "free_list h + HDR \<le> start_addr h \<or> start_addr h + pool_size h \<le> free_list h" and "\<not> us h (free_list h)"
  using assms unfolding heap_base_def by blast+

lemma heap_base_ok: "heap_ok h ss fs \<Longrightarrow> heap_base h ss fs"
  by (simp add: heap_ok_def)

definition seg_ok :: "segs \<Rightarrow> bool" where
  "seg_ok ss \<longleftrightarrow> list_all (\<lambda>(n, _). MINIALLOC \<le> n \<and> n mod 4 = 0) ss \<and> successively (\<lambda>s t. snd s \<or> snd t) ss"

lemma heap_okD:
  assumes "heap_ok h ss fs"
  shows "ring (nx h) (pv h) (addrs (start_addr h) ss)" and "ring (nf h) (pf h) (free_list h # fs)"
    and "dom (items h) = insert (free_list h) (set (addrs (start_addr h) ss))"
    and "\<forall>(a, n, u) \<in> set (lay (start_addr h) ss). us h a = u" and "us h (seg_end (start_addr h) ss)"
    and "set fs = set (free_addrs (start_addr h) ss)" and "seg_ok ss" and "available_size h = free_sum ss"
  using assms unfolding heap_ok_def heap_base_def seg_ok_def by blast+

lemma heap_bounds:
  assumes "heap_base h (xs @ (n, u) # ys) fs" and "q = seg_end (start_addr h) xs"
  shows "start_addr h \<le> q" and "q + HDR + n + HDR \<le> start_addr h + pool_size h" and "start_addr h + pool_size h < 2 ^ 32" and "q \<noteq> free_list h"
    and "MINIALLOC \<le> n" and "q + HDR + n \<noteq> free_list h"
proof -
  have e: "start_addr h \<le> q" "q + HDR + n \<le> seg_end (q + HDR + n) ys" unfolding assms(2) by (rule seg_end_ge)+
  have h: "start_addr h + pool_size h = seg_end (q + HDR + n) ys + HDR" "start_addr h + pool_size h < 2 ^ 32" "MINIALLOC \<le> n"
    "free_list h + HDR \<le> start_addr h \<or> start_addr h + pool_size h \<le> free_list h"
    using assms by (auto simp: heap_base_def)
  then show "q + HDR + n + HDR \<le> start_addr h + pool_size h" "q \<noteq> free_list h" "q + HDR + n \<noteq> free_list h" using e by linarith+
  show "start_addr h \<le> q" "start_addr h + pool_size h < 2 ^ 32" "MINIALLOC \<le> n" using e h by blast+
qed

lemma block_links:
  assumes "heap_base h (xs @ (n, u) # ys) fs" and "q = seg_end (start_addr h) xs"
  shows "q \<in> dom (items h)" and "us h q = u" and "nx h q = q + HDR + n" and "item_size q h = Some n"
proof -
  have r: "ring (nx h) (pv h) (addrs (start_addr h) (xs @ (n, u) # ys))"
    and d: "dom (items h) = insert (free_list h) (set (addrs (start_addr h) (xs @ (n, u) # ys)))"
    and us: "\<forall>(a, n, u) \<in> set (lay (start_addr h) (xs @ (n, u) # ys)). us h a = u"
    using heap_baseD [OF assms(1)] by blast+
  show q: "q \<in> dom (items h)" "us h q = u" using d us assms(2) by auto
  obtain as where "addrs (start_addr h) (xs @ (n, u) # ys) = map fst (lay (start_addr h) xs) @ q # (q + HDR + n) # as"
    using assms(2) by (cases ys) auto
  then show nq: "nx h q = q + HDR + n" using ring_next r by metis
  have "sub32 (sub32 (q + HDR + n) q) HDR = n" 
  proof -
    have "sub32 (q + HDR + n) q = HDR + n" using heap_bounds(2,3) [OF assms] by (subst sub32_le) linarith+
    moreover have "sub32 (HDR + n) HDR = n" using heap_bounds(2,3) [OF assms] by (subst sub32_le) linarith+
    ultimately show ?thesis by simp
  qed
  then show "item_size q h = Some n" using items_known [OF q(1)] nq by (simp add: item_size_def)
qed

lemma next_block:
  assumes "heap_base h (xs @ (n, u) # ys) fs" and "q = seg_end (start_addr h) xs"
  shows "q + HDR + n \<in> dom (items h)" and "us h (q + HDR + n) = (case ys of [] \<Rightarrow> True | (m, v) # _ \<Rightarrow> v)"
proof -
  have d: "dom (items h) = insert (free_list h) (set (addrs (start_addr h) (xs @ (n, u) # ys)))"
    and us: "\<forall>(a, n, u) \<in> set (lay (start_addr h) (xs @ (n, u) # ys)). us h a = u"
    and t: "us h (seg_end (start_addr h) (xs @ (n, u) # ys))"
    using heap_baseD [OF assms(1)] by blast+
  have "addrs (start_addr h) (xs @ (n, u) # ys) = map fst (lay (start_addr h) xs) @ q # addrs (q + HDR + n) ys"
    using assms(2) by simp
  moreover have "q + HDR + n \<in> set (addrs (q + HDR + n) ys)" by (cases ys) auto
  ultimately show "q + HDR + n \<in> dom (items h)" unfolding d by simp
  show "us h (q + HDR + n) = (case ys of [] \<Rightarrow> True | (m, v) # _ \<Rightarrow> v)"
  proof (cases ys)
    case Nil
    then show ?thesis using t assms(2) by simp
  next
    case (Cons s zs)
    then have "(q + HDR + n, s) \<in> set (lay (start_addr h) (xs @ (n, u) # ys))" using assms(2) by (cases s) simp
    with us have "case (q + HDR + n, s) of (a, n, u) \<Rightarrow> us h a = u" by (rule bspec)
    then show ?thesis using Cons by (cases s) simp
  qed
qed

lemma prev_block:
  assumes "heap_base h (xs @ (n, u) # ys) fs" and "q = seg_end (start_addr h) xs"
  shows "pv h q \<in> dom (items h)" and "us h (pv h q) = (case rev xs of [] \<Rightarrow> True | (m, v) # _ \<Rightarrow> v)"
    and "xs = zs @ [s] \<Longrightarrow> pv h q = seg_end (start_addr h) zs"
proof -
  have r: "ring (nx h) (pv h) (addrs (start_addr h) (xs @ (n, u) # ys))"
    and d: "dom (items h) = insert (free_list h) (set (addrs (start_addr h) (xs @ (n, u) # ys)))"
    and t: "us h (seg_end (start_addr h) (xs @ (n, u) # ys))"
    using heap_baseD [OF assms(1)] by blast+
  show "pv h q \<in> dom (items h)" using ring_in(2) [OF r, of q] d assms(2) by (auto simp: addrs_def)
  have snoc: "pv h q = seg_end (start_addr h) zs" if "xs = zs @ [(m, v)]" for zs m v
  proof -
    have "addrs (start_addr h) (xs @ (n, u) # ys) = map fst (lay (start_addr h) zs) @ seg_end (start_addr h) zs # q # addrs (q + HDR + n) ys"
      using assms(2) that by simp
    then show ?thesis using ring_next r by metis
  qed
  show "xs = zs @ [s] \<Longrightarrow> pv h q = seg_end (start_addr h) zs" by (cases s) (auto intro: snoc)
  show "us h (pv h q) = (case rev xs of [] \<Rightarrow> True | (m, v) # _ \<Rightarrow> v)"
  proof (cases xs rule: rev_cases)
    case Nil
    then have "addrs (start_addr h) (xs @ (n, u) # ys) = q # map fst (lay (q + HDR + n) ys) @ [seg_end (start_addr h) (xs @ (n, u) # ys)]"
      using assms(2) by (simp add: addrs_def)
    then have "pv h q = seg_end (start_addr h) (xs @ (n, u) # ys)"
      using r ring_last [of "nx h" "pv h" q "map fst (lay (q + HDR + n) ys) @ [seg_end (start_addr h) (xs @ (n, u) # ys)]"] by simp
    then show ?thesis using t Nil by simp
  next
    case (snoc zs s)
    then show ?thesis
      using assms(1) block_links(2) [of h zs "fst s" "snd s" "(n, u) # ys" fs] \<open>\<And>zs m v. xs = zs @ [(m, v)] \<Longrightarrow> pv h q = seg_end (start_addr h) zs\<close>
      by (cases s) simp
  qed
qed

lemma free_block_split:
  assumes "heap_base h ss fs" and "q \<in> set fs"
  shows "\<exists>xs n ys. ss = xs @ (n, False) # ys \<and> q = seg_end (start_addr h) xs"
proof -
  obtain n where "(q, n, False) \<in> set (lay (start_addr h) ss)" using assms heap_baseD(6) [OF assms(1)] by (auto simp: free_addrs_def)
  from lay_split [OF this] show ?thesis by blast
qed

lemma free_block:
  assumes "heap_base h ss fs" and "q \<in> set fs"
  shows "item_size q h = Some (nx h q - q - HDR)" and "q \<in> dom (items h)" and "q \<noteq> free_list h"
proof -
  obtain xs n ys where s: "ss = xs @ (n, False) # ys" "q = seg_end (start_addr h) xs" using free_block_split [OF assms] by blast
  note b = block_links [OF assms(1) [unfolded s(1)] s(2)]
  show "item_size q h = Some (nx h q - q - HDR)" "q \<in> dom (items h)" using b by simp_all
  show "q \<noteq> free_list h" using heap_bounds(4) [OF assms(1) [unfolded s(1)] s(2)] .
qed

section \<open>Parts of the operations\<close>

text \<open>What no operation changes.\<close>

definition same_place :: "memheap \<Rightarrow> memheap \<Rightarrow> bool" where
  "same_place h h' \<longleftrightarrow> start_addr h' = start_addr h \<and> pool_size h' = pool_size h \<and> free_list h' = free_list h"

lemma same_place_refl [simp]: "same_place h h" by (simp add: same_place_def)

lemma note_used_simps [simp]:
  "items (note_used h) = items h" "start_addr (note_used h) = start_addr h" "pool_size (note_used h) = pool_size h"
  "free_list (note_used h) = free_list h" "available_size (note_used h) = available_size h"
  "us (note_used h) = us h" "nx (note_used h) = nx h" "pv (note_used h) = pv h" "nf (note_used h) = nf h" "pf (note_used h) = pf h"
  by (simp_all add: note_used_def Let_def link_simps)

lemma note_used_max:
  assumes "available_size h \<le> pool_size h" and "pool_size h < 2 ^ 32" and "max_used_size h \<le> pool_size h"
  shows "pool_size h - available_size h \<le> max_used_size (note_used h)" and "max_used_size (note_used h) \<le> pool_size h"
  using assms sub32_le [of "available_size h" "pool_size h"] by (auto simp: note_used_def Let_def)

lemma free_list_ring:
  assumes "ring (nf h) (pf h) (F # fs)" and "q \<in> set fs" and "set (F # fs) \<subseteq> dom (items h)"
  shows "\<exists>h'. unlink_free q h = Some h' \<and> ring (nf h') (pf h') (F # remove1 q fs) \<and> same_blocks h h'"
proof -
  obtain as bs where fs: "fs = as @ q # bs" "q \<notin> set as" using assms(2) by (auto dest: split_list_first)
  obtain zs a where a: "F # as = zs @ [a]" by (cases "F # as" rule: rev_cases) auto
  have e: "F # fs = zs @ a # q # bs" using fs a by (metis append.assoc append_Cons append_Nil)
  have "F # remove1 q fs = zs @ a # bs" using fs a by (simp add: remove1_append)
  then show ?thesis using unlink_free_links [of h zs a q bs] assms(1,3) unfolding e by simp
qed

text \<open>The flags after a change within the blocks \<open>mid\<close>.\<close>

lemma us_changed:
  assumes "\<forall>(a, n, u) \<in> set (lay st (xs @ mid @ ys)). U a = u" and "q = seg_end st xs"
    and "\<And>a. a < q \<or> seg_end q mid \<le> a \<Longrightarrow> U' a = U a"
    and "seg_end q mid' = seg_end q mid" and "\<forall>(a, n, u) \<in> set (lay q mid'). U' a = u"
  shows "\<forall>(a, n, u) \<in> set (lay st (xs @ mid' @ ys)). U' a = u"
proof
  fix s assume s: "s \<in> set (lay st (xs @ mid' @ ys))"
  obtain a n u where e: "s = (a, n, u)" by (cases s)
  consider "s \<in> set (lay q mid')" | "s \<in> set (lay st xs) \<union> set (lay (seg_end q mid) ys)"
    using s assms(2,4) by auto
  then show "case s of (a, n, u) \<Rightarrow> U' a = u"
  proof cases
    case 1
    then show ?thesis using assms(5) by blast
  next
    case 2
    then have "a < q \<or> seg_end q mid \<le> a" using assms(2) by (auto simp: e dest: lay_range)
    moreover have "case s of (a, n, u) \<Rightarrow> U a = u" using 2 assms(2) by (intro bspec [OF assms(1)]) auto
    ultimately show ?thesis using assms(3) by (simp add: e)
  qed
qed

lemma free_addrs_range: "q \<in> set (free_addrs a ss) \<Longrightarrow> a \<le> q \<and> q + HDR \<le> seg_end a ss"
  by (fastforce simp: free_addrs_def dest: lay_range)

lemma free_addrs_other: "q \<notin> set (free_addrs a xs)" "0 < l \<Longrightarrow> q \<notin> set (free_addrs (q + l) ys)" if "q = seg_end a xs"
  using that by (auto dest: free_addrs_range)

lemma available_bound:
  assumes "heap_ok h ss fs"
  shows "available_size h \<le> pool_size h" and "pool_size h < 2 ^ 32" and "max_used_size h \<le> pool_size h"
  using free_sum_bound [of ss "start_addr h"] seg_end_ge [of "start_addr h" ss] assms by (auto simp: heap_ok_def heap_base_def)

lemma not_a_header:
  assumes "heap_base h (xs @ (l, u) # ys) fs" and "q = seg_end (start_addr h) xs" and "q < a" and "a < q + HDR + l"
  shows "a \<notin> dom (items h)"
proof -
  have "a \<noteq> free_list h"
    using heap_bounds [OF assms(1,2)] assms(1,3,4) by (auto simp: heap_base_def)
  moreover have "a \<notin> fst ` set (lay (start_addr h) xs)" "a \<notin> fst ` set (lay (q + HDR + l) ys)"
    using assms(2-4) by (auto dest: lay_range)
  moreover have "q + HDR + l \<le> seg_end (q + HDR + l) ys" by (rule seg_end_ge)
  ultimately show ?thesis using heap_baseD(3) [OF assms(1)] assms(2-4) by (auto simp: addrs_def)
qed

lemma heap_base_counters [simp]:
  "heap_base (h\<lparr>available_size := v\<rparr>) ss fs = heap_base h ss fs" "heap_base (note_used h) ss fs = heap_base h ss fs"
  by (simp_all add: heap_base_def link_simps)

lemma base_in_items:
  assumes "heap_base h ss fs"
  shows "set (addrs (start_addr h) ss) \<subseteq> dom (items h)" and "set (free_list h # fs) \<subseteq> dom (items h)"
    and "distinct fs" and "free_list h \<notin> set fs"
  using heap_baseD(2,3,6) [OF assms] by (auto simp: addrs_def free_addrs_def ring_def)

lemma two_addrs:
  assumes "q = seg_end a xs" and "r = q + HDR + n"
  shows "addrs a (xs @ (n, u) # (m, v) # ys) = map fst (lay a xs) @ q # r # addrs (r + HDR + m) ys"
    and "addrs a (xs @ (n + HDR + m, u) # ys) = map fst (lay a xs) @ q # addrs (r + HDR + m) ys"
    and "free_addrs a (xs @ (n, u) # (m, v) # ys) =
      free_addrs a xs @ (if u then [] else [q]) @ (if v then [] else [r]) @ free_addrs (r + HDR + m) ys"
    and "free_addrs a (xs @ (n + HDR + m, u) # ys) = free_addrs a xs @ (if u then [] else [q]) @ free_addrs (r + HDR + m) ys"
    and "seg_end a (xs @ (n + HDR + m, u) # ys) = seg_end a (xs @ (n, u) # (m, v) # ys)"
proof -
  have e: "q + HDR + (n + HDR + m) = r + HDR + m" using assms(2) by simp
  show "addrs a (xs @ (n, u) # (m, v) # ys) = map fst (lay a xs) @ q # r # addrs (r + HDR + m) ys"
    "addrs a (xs @ (n + HDR + m, u) # ys) = map fst (lay a xs) @ q # addrs (r + HDR + m) ys"
    "free_addrs a (xs @ (n, u) # (m, v) # ys) =
      free_addrs a xs @ (if u then [] else [q]) @ (if v then [] else [r]) @ free_addrs (r + HDR + m) ys"
    "free_addrs a (xs @ (n + HDR + m, u) # ys) = free_addrs a xs @ (if u then [] else [q]) @ free_addrs (r + HDR + m) ys"
    using assms e by (simp_all only: addrs_simps free_addrs_simps assms(1) [symmetric] assms(2) [symmetric])
  show "seg_end a (xs @ (n + HDR + m, u) # ys) = seg_end a (xs @ (n, u) # (m, v) # ys)"
    using assms e by (simp only: seg_end_simps fst_conv)
qed

lemma drop_base:
  assumes "heap_base h (xs @ (n, u) # (m, v) # ys) fs" and "q = seg_end (start_addr h) xs" and "r = q + HDR + n"
    and "ring (nx h2) (pv h2) (map fst (lay (start_addr h) xs) @ q # addrs (r + HDR + m) ys)"
    and "ring (nf h2) (pf h2) (free_list h # fs')" and "dom (items h2) = dom (items h)" and "us h2 = us h" and "same_place h h2"
    and "set fs' \<subseteq> set fs" and "r \<notin> set fs'"
  shows "heap_base (drop_item r h2) (xs @ (n + HDR + m, u) # ys) fs'"
proof -
  note d = heap_baseD [OF assms(1)] and t = two_addrs [OF assms(2,3)]
  let ?st = "start_addr h" and ?h = "drop_item r h2"
  have p: "start_addr ?h = ?st" "pool_size ?h = pool_size h" "free_list ?h = free_list h" using assms(8) by (simp_all add: same_place_def drop_item_def)
  have "distinct (map fst (lay ?st xs) @ q # r # addrs (r + HDR + m) ys)" using addrs_distinct [of ?st "xs @ (n, u) # (m, v) # ys"] unfolding t(1) .
  then have nr: "r \<notin> set (map fst (lay ?st xs) @ q # addrs (r + HDR + m) ys)" by auto
  have F: "r \<noteq> free_list h"
    using heap_bounds(6) [OF assms(1,2)] assms(3) by simp
  have keep: "us ?h a = us h a \<and> nx ?h a = nx h2 a \<and> pv ?h a = pv h2 a \<and> nf ?h a = nf h2 a \<and> pf ?h a = pf h2 a" if "a \<noteq> r" for a
    using that assms(7) by (simp add: link_simps)
  show ?thesis
    unfolding heap_base_def p
  proof (intro conjI)
    show "ring (nx ?h) (pv ?h) (addrs ?st (xs @ (n + HDR + m, u) # ys))"
      unfolding t(2) using assms(4) keep nr ring_cong [of "map fst (lay ?st xs) @ q # addrs (r + HDR + m) ys" "nx ?h" "nx h2" "pv ?h" "pv h2"] by metis
    have "r \<notin> set (free_list h # fs')" using F assms(10) by simp
    then show "ring (nf ?h) (pf ?h) (free_list h # fs')"
      using assms(5) keep ring_cong [of "free_list h # fs'" "nf ?h" "nf h2" "pf ?h" "pf h2"] by metis
    have "dom (items ?h) = dom (items h) - {r}" using assms(6) by auto
    then show "dom (items ?h) = insert (free_list h) (set (addrs ?st (xs @ (n + HDR + m, u) # ys)))"
      using d(3) nr F unfolding t(1,2) by auto
    have e: "seg_end q [(n + HDR + m, u)] = seg_end q [(n, u), (m, v)]" by simp
    have o: "us ?h a = us h a" if "a < q \<or> seg_end q [(n, u), (m, v)] \<le> a" for a
      using that assms(3) keep [of a] by auto
    have "us ?h q = u" using d(4) assms(2,3) keep [of q] by auto
    then have "\<forall>(a, n, u) \<in> set (lay ?st (xs @ [(n + HDR + m, u)] @ ys)). us ?h a = u"
      by (intro us_changed [where U = "us h" and mid = "[(n, u), (m, v)]", OF _ assms(2) o e]) (use d(4) in simp_all)
    then show "\<forall>(a, n, u) \<in> set (lay ?st (xs @ (n + HDR + m, u) # ys)). us ?h a = u" by simp
    have "r < seg_end ?st (xs @ (n, u) # (m, v) # ys)"
      using seg_end_ge [of "r + HDR + m" ys] assms(2,3) by (simp add: add_ac)
    then show "us ?h (seg_end ?st (xs @ (n + HDR + m, u) # ys))" using d(5) keep unfolding t(5) [of m u ys v] by simp
    show "set fs' \<subseteq> set (free_addrs ?st (xs @ (n + HDR + m, u) # ys))"
      using assms(9,10) d(6) unfolding t(3,4) by (auto split: if_splits)
    show "list_all (\<lambda>(n, _). MINIALLOC \<le> n \<and> n mod 4 = 0) (xs @ (n + HDR + m, u) # ys)" using d(7) by (auto simp: mod_add_eq [symmetric])
    show "?st + pool_size h = seg_end ?st (xs @ (n + HDR + m, u) # ys) + HDR" using d(8) unfolding t(5) [of m u ys v] .
    show "\<not> us ?h (free_list h)" using d(11) keep F by simp
  qed (use assms(1) [unfolded heap_base_def] d(9,10) in blast)+
qed

text \<open>A block that is not in the free list goes into the one before it.\<close>

lemma join_block:
  assumes "heap_base h (xs @ (n, u) # (m, v) # ys) fs" and "q = seg_end (start_addr h) xs" and "r = q + HDR + n" and "r \<notin> set fs"
  shows "\<exists>h1. unlink_block r h = Some h1 \<and> heap_base (drop_item r h1) (xs @ (n + HDR + m, u) # ys) fs \<and> counters h1 = counters h"
proof -
  note d = heap_baseD [OF assms(1)] and t = two_addrs [OF assms(2,3)]
  obtain h1 where h1: "unlink_block r h = Some h1" "ring (nx h1) (pv h1) (map fst (lay (start_addr h) xs) @ q # addrs (r + HDR + m) ys)" "same_free h h1"
    using unlink_block_links [of h "map fst (lay (start_addr h) xs)" q r "addrs (r + HDR + m) ys"] d(1) base_in_items(1) [OF assms(1)]
    unfolding t(1) by blast
  have "heap_base (drop_item r h1) (xs @ (n + HDR + m, u) # ys) fs"
    using h1(3) d(2) counters_eq [of h1 h] assms(4) by (intro drop_base [OF assms(1-3) h1(2)]) (auto simp: same_free_def same_place_def)
  then show ?thesis using h1 by (auto simp: same_free_def)
qed

text \<open>A free block goes into the one before it.\<close>

lemma absorb_block:
  assumes "heap_base h (xs @ (n, u) # (m, False) # ys) fs" and "q = seg_end (start_addr h) xs" and "r = q + HDR + n" and "r \<in> set fs"
  shows "\<exists>h1 h2. unlink_block r h = Some h1 \<and> unlink_free r h1 = Some h2 \<and>
      heap_base (drop_item r h2) (xs @ (n + HDR + m, u) # ys) (remove1 r fs) \<and> counters h1 = counters h \<and> counters h2 = counters h"
    and "\<exists>h1 h2. unlink_free r h = Some h1 \<and> unlink_block r h1 = Some h2 \<and>
      heap_base (drop_item r h2) (xs @ (n + HDR + m, u) # ys) (remove1 r fs) \<and> counters h1 = counters h \<and> counters h2 = counters h"
proof -
  note d = heap_baseD [OF assms(1)] and t = two_addrs [OF assms(2,3)] and i = base_in_items [OF assms(1)]
  let ?as = "map fst (lay (start_addr h) xs)" and ?bs = "addrs (r + HDR + m) ys"
  have r: "r \<notin> set (remove1 r fs)" "set (remove1 r fs) \<subseteq> set fs" using i(3) by (auto dest: set_remove1_subset [THEN subsetD])
  have blocks: "ring (nx h) (pv h) (?as @ q # r # ?bs)" "set (?as @ q # r # ?bs) \<subseteq> dom (items h)" using d(1) i(1) unfolding t(1) by blast+
  obtain h1 where h1: "unlink_block r h = Some h1" "ring (nx h1) (pv h1) (?as @ q # ?bs)" "same_free h h1"
    using unlink_block_links [OF blocks] by blast
  obtain h2 where h2: "unlink_free r h1 = Some h2" "ring (nf h2) (pf h2) (free_list h # remove1 r fs)" "same_blocks h1 h2"
    using free_list_ring [of h1 "free_list h" fs r] d(2) assms(4) i(2) h1(3) by (auto simp: same_free_def)
  have "heap_base (drop_item r h2) (xs @ (n + HDR + m, u) # ys) (remove1 r fs)"
    using h1(2,3) h2(2,3) counters_eq [of h2 h] r
    by (intro drop_base [OF assms(1-3)]) (auto simp: same_free_def same_blocks_def same_place_def)
  then show "\<exists>h1 h2. unlink_block r h = Some h1 \<and> unlink_free r h1 = Some h2 \<and>
      heap_base (drop_item r h2) (xs @ (n + HDR + m, u) # ys) (remove1 r fs) \<and> counters h1 = counters h \<and> counters h2 = counters h"
    using h1 h2 by (auto simp: same_free_def same_blocks_def)
  obtain g1 where g1: "unlink_free r h = Some g1" "ring (nf g1) (pf g1) (free_list h # remove1 r fs)" "same_blocks h g1"
    using free_list_ring [OF d(2) assms(4) i(2)] by blast
  obtain g2 where g2: "unlink_block r g1 = Some g2" "ring (nx g2) (pv g2) (?as @ q # ?bs)" "same_free g1 g2"
    using unlink_block_links [of g1 ?as q r ?bs] blocks g1(3) by (auto simp: same_blocks_def)
  have "heap_base (drop_item r g2) (xs @ (n + HDR + m, u) # ys) (remove1 r fs)"
    using g1(2,3) g2(2,3) counters_eq [of g2 h] r
    by (intro drop_base [OF assms(1-3)]) (auto simp: same_free_def same_blocks_def same_place_def)
  then show "\<exists>h1 h2. unlink_free r h = Some h1 \<and> unlink_block r h1 = Some h2 \<and>
      heap_base (drop_item r h2) (xs @ (n + HDR + m, u) # ys) (remove1 r fs) \<and> counters h1 = counters h \<and> counters h2 = counters h"
    using g1 g2 by (auto simp: same_free_def same_blocks_def)
qed

lemma push_block:
  assumes "heap_base h ss fs" and "q \<in> set (free_addrs (start_addr h) ss)" and "q \<notin> set fs"
  shows "\<exists>h'. push_free q h = Some h' \<and> heap_base h' ss (q # fs) \<and> counters h' = counters h"
proof -
  note d = heap_baseD [OF assms(1)] and i = base_in_items [OF assms(1)]
  obtain n where "(q, n, False) \<in> set (lay (start_addr h) ss)" using assms(2) by (auto simp: free_addrs_def)
  from lay_split [OF this] obtain xs ys where x: "ss = xs @ (n, False) # ys" "q = seg_end (start_addr h) xs" by blast
  have "q \<noteq> free_list h" using heap_bounds(4) [OF assms(1) [unfolded x(1)] x(2)] .
  moreover have "q \<in> dom (items h)" using block_links(1) [OF assms(1) [unfolded x(1)] x(2)] .
  ultimately obtain h' where h': "push_free q h = Some h'" "ring (nf h') (pf h') (free_list h # q # fs)" "same_blocks h h'"
    using push_free_links [OF d(2), of q] assms(3) i(2) by auto
  have k: "start_addr h' = start_addr h" "pool_size h' = pool_size h" "free_list h' = free_list h" "dom (items h') = dom (items h)"
      "us h' = us h" "nx h' = nx h" "pv h' = pv h"
    using h'(3) counters_eq [of h' h] by (simp_all add: same_blocks_def)
  have "set (q # fs) \<subseteq> set (free_addrs (start_addr h) ss)" using d(6) assms(2) by simp
  with assms(1) h'(2) have "heap_base h' ss (q # fs)" unfolding heap_base_def k by blast
  then show ?thesis using h' by (auto simp: same_blocks_def)
qed

lemma set_flag:
  assumes "heap_base h (xs @ (n, u) # ys) fs" and "q = seg_end (start_addr h) xs" and "q \<notin> set fs"
  shows "\<exists>h'. wr q (\<lambda>x. x\<lparr>used := v\<rparr>) h = Some h' \<and> heap_base h' (xs @ (n, v) # ys) fs \<and> counters h' = counters h"
proof -
  note d = heap_baseD [OF assms(1)]
  have q: "q \<in> dom (items h)" using block_links(1) [OF assms(1,2)] .
  obtain h' where h': "wr q (\<lambda>x. x\<lparr>used := v\<rparr>) h = Some h'" "counters h' = counters h" "dom (items h') = dom (items h)"
      "us h' = (us h)(q := v)" "nx h' = nx h" "pv h' = pv h" "nf h' = nf h" "pf h' = pf h"
    using wr_used [OF q] by blast
  have k: "start_addr h' = start_addr h" "pool_size h' = pool_size h" "free_list h' = free_list h" using counters_eq [OF h'(2)] by simp_all
  let ?st = "start_addr h"
  have o: "us h' a = us h a" if "a < q \<or> seg_end q [(n, u)] \<le> a" for a using that h'(4) by auto
  have "\<forall>(a, n, u) \<in> set (lay ?st (xs @ [(n, v)] @ ys)). us h' a = u"
    by (rule us_changed [where U = "us h" and mid = "[(n, u)]", OF _ assms(2) o]) (use d(4) h'(4) in simp_all)
  then have us: "\<forall>(a, n, u) \<in> set (lay ?st (xs @ (n, v) # ys)). us h' a = u" by simp
  have s: "seg_end ?st (xs @ (n, v) # ys) = seg_end ?st (xs @ (n, u) # ys)" "addrs ?st (xs @ (n, v) # ys) = addrs ?st (xs @ (n, u) # ys)" by simp_all
  have "q < seg_end ?st (xs @ (n, u) # ys)" using seg_end_ge [of "q + HDR + n" ys] assms(2) by simp
  then have t: "us h' (seg_end ?st (xs @ (n, u) # ys))" using d(5) h'(4) by simp
  have nf: "\<not> us h' (free_list h)" using d(11) heap_bounds(4) [OF assms(1,2)] h'(4) by simp
  have f: "set fs \<subseteq> set (free_addrs ?st (xs @ (n, v) # ys))" using d(6) assms(2,3) by (auto split: if_splits)
  have l: "list_all (\<lambda>(n, _). MINIALLOC \<le> n \<and> n mod 4 = 0) (xs @ (n, v) # ys)" using d(7) by simp
  have "heap_base h' (xs @ (n, v) # ys) fs"
    using assms(1) us t f l nf unfolding heap_base_def k s h'(3,5-8) by blast
  then show ?thesis using h'(1,2) by blast
qed

lemma unlink_ok:
  assumes "heap_base h ss fs" and "q \<in> set fs"
  shows "\<exists>h'. unlink_free q h = Some h' \<and> heap_base h' ss (remove1 q fs) \<and> counters h' = counters h"
proof -
  note d = heap_baseD [OF assms(1)] and i = base_in_items [OF assms(1)]
  obtain h' where h': "unlink_free q h = Some h'" "ring (nf h') (pf h') (free_list h # remove1 q fs)" "same_blocks h h'"
    using free_list_ring [OF d(2) assms(2) i(2)] by blast
  have k: "start_addr h' = start_addr h" "pool_size h' = pool_size h" "free_list h' = free_list h" "dom (items h') = dom (items h)"
      "us h' = us h" "nx h' = nx h" "pv h' = pv h"
    using h'(3) counters_eq [of h' h] by (simp_all add: same_blocks_def)
  have "set (remove1 q fs) \<subseteq> set (free_addrs (start_addr h) ss)" using d(6) by (auto dest: set_remove1_subset [THEN subsetD])
  with assms(1) h'(2) have "heap_base h' ss (remove1 q fs)" unfolding heap_base_def k by blast
  then show ?thesis using h' by (auto simp: same_blocks_def)
qed

lemma clear_free_links:
  assumes "heap_base h ss fs" and "q \<in> dom (items h)" and "q \<notin> set (free_list h # fs)"
  shows "\<exists>h'. wr q (\<lambda>x. x\<lparr>next_free := 0, prev_free := 0\<rparr>) h = Some h' \<and> heap_base h' ss fs \<and> counters h' = counters h"
proof -
  obtain h' where h': "wr q (\<lambda>x. x\<lparr>next_free := 0, prev_free := 0\<rparr>) h = Some h'" "same_blocks h h'" "nf h' = (nf h)(q := 0)" "pf h' = (pf h)(q := 0)"
    using wr_free_links [OF assms(2)] by blast
  have k: "start_addr h' = start_addr h" "pool_size h' = pool_size h" "free_list h' = free_list h" "dom (items h') = dom (items h)"
      "us h' = us h" "nx h' = nx h" "pv h' = pv h"
    using h'(2) counters_eq [of h' h] by (simp_all add: same_blocks_def)
  have "ring (nf h') (pf h') (free_list h # fs) = ring (nf h) (pf h) (free_list h # fs)"
    using h'(3,4) assms(3) by (intro ring_cong) auto
  with assms(1) have "heap_base h' ss fs" unfolding heap_base_def k by blast
  then show ?thesis using h' by (auto simp: same_blocks_def)
qed

text \<open>A block is cut: its end becomes a free block that is not in the free list yet.\<close>

lemma cut_ok:
  assumes "heap_base h (xs @ (n + HDR + m, u) # ys) fs" and "q = seg_end (start_addr h) xs" and "r = q + HDR + n"
    and "MINIALLOC \<le> n" and "n mod 4 = 0" and "MINIALLOC \<le> m"
  shows "\<exists>h'. cut_block r q h = Some h' \<and> heap_base h' (xs @ (n, u) # (m, False) # ys) fs \<and> counters h' = counters h \<and> r \<notin> set fs"
proof -
  note d = heap_baseD [OF assms(1)] and i = base_in_items [OF assms(1)] and t = two_addrs [OF assms(2,3)] and l = block_links [OF assms(1,2)]
  let ?st = "start_addr h" and ?bs = "addrs (r + HDR + m) ys"
  have new: "r \<notin> dom (items h)" using not_a_header [OF assms(1,2), of r] assms(3) by simp
  obtain h' where h': "cut_block r q h = Some h'" "ring (nx h') (pv h') (map fst (lay ?st xs) @ q # r # ?bs)" "counters h' = counters h"
      "dom (items h') = insert r (dom (items h))" "us h' = (us h)(r := False)" "\<And>a. a \<noteq> r \<Longrightarrow> nf h' a = nf h a \<and> pf h' a = pf h a"
    using cut_block_links [of h "map fst (lay ?st xs)" q ?bs r] d(1) i(1) new l(3) assms(3) unfolding t(2) by auto
  have k: "start_addr h' = ?st" "pool_size h' = pool_size h" "free_list h' = free_list h" using counters_eq [OF h'(3)] by simp_all
  have rf: "r \<notin> set (free_list h # fs)" using new i(2) by blast
  have m: "m mod 4 = 0" using d(7) assms(5) by (simp add: mod_add_eq [symmetric])
  have "heap_base h' (xs @ (n, u) # (m, False) # ys) fs"
    unfolding heap_base_def k
  proof (intro conjI)
    show "ring (nx h') (pv h') (addrs ?st (xs @ (n, u) # (m, False) # ys))" unfolding t(1) by (rule h'(2))
    have "nf h' a = nf h a \<and> pf h' a = pf h a" if "a \<in> set (free_list h # fs)" for a using rf that by (intro h'(6)) auto
    then show "ring (nf h') (pf h') (free_list h # fs)"
      using d(2) ring_cong [of "free_list h # fs" "nf h'" "nf h" "pf h'" "pf h"] by blast
    show "dom (items h') = insert (free_list h) (set (addrs ?st (xs @ (n, u) # (m, False) # ys)))" unfolding h'(4) d(3) t(1,2) by auto
    have o: "us h' a = us h a" if "a < q \<or> seg_end q [(n + HDR + m, u)] \<le> a" for a using that assms(3) unfolding h'(5) by auto
    have "us h q = u" using l(2) .
    then have "\<forall>(a, n, u) \<in> set (lay ?st (xs @ [(n, u), (m, False)] @ ys)). us h' a = u"
      by (intro us_changed [where U = "us h" and mid = "[(n + HDR + m, u)]", OF _ assms(2) o]) (use d(4) assms(3) in \<open>simp_all add: h'(5)\<close>)
    then show "\<forall>(a, n, u) \<in> set (lay ?st (xs @ (n, u) # (m, False) # ys)). us h' a = u" by simp
    have "r < seg_end ?st (xs @ (n, u) # (m, False) # ys)"
      using seg_end_ge [of "r + HDR + m" ys] assms(2,3) by (simp add: add_ac)
    then show "us h' (seg_end ?st (xs @ (n, u) # (m, False) # ys))" using d(5) unfolding h'(5) t(5) [of m u ys False] by simp
    show "set fs \<subseteq> set (free_addrs ?st (xs @ (n, u) # (m, False) # ys))" using d(6) unfolding t(3,4) by auto
    show "list_all (\<lambda>(n, _). MINIALLOC \<le> n \<and> n mod 4 = 0) (xs @ (n, u) # (m, False) # ys)" using d(7) assms(4-6) m by simp
    show "?st + pool_size h = seg_end ?st (xs @ (n, u) # (m, False) # ys) + HDR" using d(8) unfolding t(5) [of m u ys False] .
    show "\<not> us h' (free_list h)" using d(11) rf unfolding h'(5) by auto
  qed (use assms(1) [unfolded heap_base_def] d(9,10) in blast)+
  then show ?thesis using h'(1,3) rf by auto
qed

section \<open>Allocation\<close>

text \<open>The search: the first block of the free list that is big enough.\<close>

definition first_fit :: "memheap \<Rightarrow> nat \<Rightarrow> nat list \<Rightarrow> nat option" where
  "first_fit h n fs = find (\<lambda>q. n \<le> nx h q - q - HDR) fs"

lemma search_from:
  assumes "heap_ok h ss (gs @ hs)" and "s < n"
  shows "\<exists>q s'. search_free h n (hd (hs @ [free_list h])) s = Some (q, s') \<and>
    (case first_fit h n hs of Some q' \<Rightarrow> q = q' \<and> s' = nx h q - q - HDR \<and> n \<le> s' | None \<Rightarrow> q = free_list h \<and> s' < n)"
  using assms
proof (induction hs arbitrary: gs s)
  case Nil
  then show ?case by (subst search_free.simps) (simp add: first_fit_def)
next
  case (Cons a hs)
  let ?s = "nx h a - a - HDR"
  have a: "item_size a h = Some ?s" "a \<in> dom (items h)" "a \<noteq> free_list h" using free_block [OF heap_base_ok [OF Cons.prems(1)], of a] by simp_all
  show ?case
  proof (cases "?s < n")
    case True
    have "ring (nf h) (pf h) ((free_list h # gs) @ a # hs)" using heap_okD(2) [OF Cons.prems(1)] by simp
    then have "nf h a = hd (hs @ [free_list h])"
      using ring_next [of "nf h" "pf h" "free_list h # gs" a] ring_last [of "nf h" "pf h" "free_list h" "gs @ [a]"] by (cases hs) auto
    then have "search_free h n a s = search_free h n (hd (hs @ [free_list h])) ?s"
      using a True Cons.prems(2) items_known [OF a(2)] by (subst search_free.simps) simp
    then show ?thesis using Cons.IH [of "gs @ [a]" ?s] Cons.prems(1) True by (simp add: first_fit_def)
  next
    case False
    have "search_free h n a ?s = Some (a, ?s)" using False by (subst search_free.simps) simp
    then have "search_free h n a s = Some (a, ?s)" using a False Cons.prems(2) by (subst search_free.simps) simp
    then show ?thesis using False by (simp add: first_fit_def)
  qed
qed

lemma search_result:
  assumes "heap_ok h ss fs" and "0 < n"
  shows "\<exists>q s'. search_free h n (nf h (free_list h)) 0 = Some (q, s') \<and>
    (case first_fit h n fs of Some q' \<Rightarrow> q = q' \<and> s' = nx h q - q - HDR \<and> n \<le> s' | None \<Rightarrow> q = free_list h \<and> s' < n)"
proof -
  have "ring (nf h) (pf h) (free_list h # fs)" using heap_okD(2) [OF assms(1)] .
  then have "nf h (free_list h) = hd (fs @ [free_list h])"
    using ring_next [of "nf h" "pf h" "[]" "free_list h"] ring_last [of "nf h" "pf h" "free_list h" "[]"] by (cases fs) auto
  then show ?thesis using search_from [of h ss "[]" fs 0 n] assms by simp
qed

lemma align_up_mod: "align_up n mod 4 = 0"
  by (simp add: align_up_def)

lemma align_up_bounds:
  assumes "n + 3 < 2 ^ 32"
  shows "n \<le> align_up n" and "align_up n \<le> n + 3"
proof -
  have "align_up n = (n + 3) div 4 * 4" using assms by (simp add: align_up_def add32_less)
  then show "n \<le> align_up n" "align_up n \<le> n + 3" by presburger+
qed

lemma block_request_facts: "MINIALLOC \<le> block_request n" "block_request n mod 4 = 0"
  using align_up_mod [of n] by (simp_all add: block_request_def Let_def)

lemma block_request_ge: "n + 3 < 2 ^ 32 \<Longrightarrow> n \<le> block_request n"
  using align_up_bounds(1) [of n] by (simp add: block_request_def Let_def)

lemma take_whole:
  assumes "heap_ok h (xs @ (l, False) # ys) fs" and "q = seg_end (start_addr h) xs" and "l < n + (HDR + MINIALLOC)" and "n + (HDR + MINIALLOC) < 2 ^ 32"
  shows "\<exists>h'. take_block n q l h = Some h' \<and> heap_ok h' (xs @ (l, True) # ys) (remove1 q fs) \<and> same_place h h'"
proof -
  let ?st = "start_addr h" and ?g = "h\<lparr>available_size := sub32 (available_size h) l\<rparr>"
  note base = heap_base_ok [OF assms(1)] and d = heap_okD [OF assms(1)]
  have q: "q \<in> set fs" "q \<in> dom (items h)" using d(6) assms(2) block_links(1) [OF base assms(2)] by auto
  obtain h1 where h1: "unlink_free q (note_used ?g) = Some h1" "heap_base h1 (xs @ (l, False) # ys) (remove1 q fs)" "counters h1 = counters (note_used ?g)"
    using unlink_ok [of "note_used ?g" _ fs q] base q(1) by auto
  note c1 = counters_eq [OF h1(3)]
  have p1: "q = seg_end (start_addr h1) xs" using c1(1) assms(2) by simp
  have q1: "q \<in> dom (items h1)" "q \<notin> set (free_list h1 # remove1 q fs)"
    using block_links(1) [OF h1(2) p1] heap_bounds(4) [OF h1(2) p1] base_in_items(3) [OF base] by auto
  obtain h2 where h2: "wr q (\<lambda>x. x\<lparr>next_free := 0, prev_free := 0\<rparr>) h1 = Some h2" "heap_base h2 (xs @ (l, False) # ys) (remove1 q fs)"
      "counters h2 = counters h1"
    using clear_free_links [OF h1(2) q1] by blast
  have p2: "q = seg_end (start_addr h2) xs" "q \<notin> set (remove1 q fs)" using counters_eq(1) [OF h2(3)] p1 q1(2) by auto
  obtain h3 where h3: "wr q (\<lambda>x. x\<lparr>used := True\<rparr>) h2 = Some h3" "heap_base h3 (xs @ (l, True) # ys) (remove1 q fs)" "counters h3 = counters (note_used ?g)"
    using set_flag [OF h2(2) p2, where v = True] h2(3) h1(3) by auto
  note c = counters_eq [OF h3(3)]
  have avail: "available_size h = free_sum xs + l + free_sum ys" using d(8) by simp
  then have av: "sub32 (available_size h) l = free_sum (xs @ (l, True) # ys)"
    using available_bound [OF assms(1)] by (subst sub32_le) simp_all
  have "set (remove1 q fs) = set (free_addrs ?st (xs @ (l, True) # ys))"
    using base_in_items(3) [OF base] d(6) free_addrs_other [OF assms(2)] assms(2) by (auto dest: free_addrs_range)
  moreover have "successively (\<lambda>s t. snd s \<or> snd t) (xs @ (l, True) # ys)"
    using d(7) by (cases xs rule: rev_cases; cases ys) (auto simp: seg_ok_def successively_append_iff)
  moreover have "pool_size ?g - available_size ?g \<le> max_used_size (note_used ?g)" "max_used_size (note_used ?g) \<le> pool_size ?g"
    using available_bound [OF assms(1)] avail av by (intro note_used_max; simp)+
  ultimately have "heap_ok h3 (xs @ (l, True) # ys) (remove1 q fs)" unfolding heap_ok_def using h3(2) c av by simp
  moreover have "take_block n q l h = Some h3" using h1(1) h2(1) h3(1) assms(3,4) by (simp add: take_block_def add32_less)
  ultimately show ?thesis using c by (simp add: same_place_def)
qed

lemma take_split:
  assumes "heap_ok h (xs @ (n + HDR + m, False) # ys) fs" and "q = seg_end (start_addr h) xs" and "r = q + HDR + n"
    and "MINIALLOC \<le> n" and "n mod 4 = 0" and "MINIALLOC \<le> m"
  shows "\<exists>h'. take_block n q (n + HDR + m) h = Some h' \<and> heap_ok h' (xs @ (n, True) # (m, False) # ys) (r # remove1 q fs) \<and> same_place h h'"
proof -
  let ?st = "start_addr h" and ?l = "n + HDR + m"
  note base = heap_base_ok [OF assms(1)] and d = heap_okD [OF assms(1)] and t = two_addrs [OF assms(2,3)]
  note b = heap_bounds [OF base assms(2)]
  have q: "q \<in> set fs" using d(6) assms(2) by auto
  have w: "add32 n (HDR + MINIALLOC) \<le> ?l" "add32 q (n + HDR) = r" using b(2,3) assms(3,6) by (simp_all add: add32_less)
  obtain h1 where h1: "cut_block r q h = Some h1" "heap_base h1 (xs @ (n, False) # (m, False) # ys) fs" "counters h1 = counters h" "r \<notin> set fs"
    using cut_ok [OF base assms(2-6)] by blast
  obtain h2 where h2: "unlink_free q h1 = Some h2" "heap_base h2 (xs @ (n, False) # (m, False) # ys) (remove1 q fs)" "counters h2 = counters h1"
    using unlink_ok [OF h1(2) q] by blast
  have c2: "start_addr h2 = ?st" "free_list h2 = free_list h" using counters_eq [OF h2(3)] counters_eq [OF h1(3)] by simp_all
  have p2: "q = seg_end (start_addr h2) xs" using c2(1) assms(2) by simp
  have q2: "q \<in> dom (items h2)" "q \<notin> set (free_list h2 # remove1 q fs)"
    using block_links(1) [OF h2(2) p2] heap_bounds(4) [OF h2(2) p2] base_in_items(3) [OF base] by auto
  obtain h3 where h3: "wr q (\<lambda>x. x\<lparr>next_free := 0, prev_free := 0\<rparr>) h2 = Some h3" "heap_base h3 (xs @ (n, False) # (m, False) # ys) (remove1 q fs)"
      "counters h3 = counters h2"
    using clear_free_links [OF h2(2) q2] by blast
  have c3: "start_addr h3 = ?st" using counters_eq(1) [OF h3(3)] c2(1) by simp
  have r: "r \<in> set (free_addrs (start_addr h3) (xs @ (n, False) # (m, False) # ys))" "r \<notin> set (remove1 q fs)"
    using h1(4) unfolding c3 t(3) by (auto dest: notin_set_remove1)
  obtain h4 where h4: "push_free r h3 = Some h4" "heap_base h4 (xs @ (n, False) # (m, False) # ys) (r # remove1 q fs)" "counters h4 = counters h3"
    using push_block [OF h3(2) r] by blast
  have c4: "counters h4 = counters h" using h1(3) h2(3) h3(3) h4(3) by simp
  let ?g = "h4\<lparr>available_size := sub32 (sub32 (available_size h4) n) HDR\<rparr>"
  have p4: "q = seg_end (start_addr (note_used ?g)) xs" "q \<notin> set (r # remove1 q fs)" "heap_base (note_used ?g) (xs @ (n, False) # (m, False) # ys) (r # remove1 q fs)"
    using counters_eq(1) [OF c4] assms(2,3) q2(2) h4(2) by auto
  obtain h5 where h5: "wr q (\<lambda>x. x\<lparr>used := True\<rparr>) (note_used ?g) = Some h5" "heap_base h5 (xs @ (n, True) # (m, False) # ys) (r # remove1 q fs)"
      "counters h5 = counters (note_used ?g)"
    using set_flag [OF p4(3,1,2), where v = True] by blast
  note c = counters_eq [OF h5(3)] counters_eq [OF c4]
  have avail: "available_size h = free_sum xs + ?l + free_sum ys" using d(8) by simp
  then have av: "sub32 (sub32 (available_size h4) n) HDR = free_sum (xs @ (n, True) # (m, False) # ys)"
    using available_bound [OF assms(1)] c(8) sub32_le [of n "available_size h"] sub32_le [of HDR "available_size h - n"] by simp
  have "set (r # remove1 q fs) = set (free_addrs ?st (xs @ (n, True) # (m, False) # ys))"
    using base_in_items(3) [OF base] d(6) free_addrs_other [OF assms(2)] unfolding t(3,4) by (auto dest: free_addrs_range simp: assms(3))
  moreover have "successively (\<lambda>s t. snd s \<or> snd t) (xs @ (n, True) # (m, False) # ys)"
    using d(7) by (cases xs rule: rev_cases; cases ys) (auto simp: seg_ok_def successively_append_iff)
  moreover have "pool_size ?g - available_size ?g \<le> max_used_size (note_used ?g)" "max_used_size (note_used ?g) \<le> pool_size ?g"
    using available_bound [OF assms(1)] avail av c by (intro note_used_max; simp)+
  ultimately have "heap_ok h5 (xs @ (n, True) # (m, False) # ys) (r # remove1 q fs)" unfolding heap_ok_def using h5(2) c av by simp
  moreover have "take_block n q ?l h = Some h5" using h1(1) h2(1) h3(1) h4(1) h5(1) w by (simp add: take_block_def)
  ultimately show ?thesis using c by (simp add: same_place_def)
qed

text \<open>What a request of \<open>n\<close> bytes makes of a free block of \<open>l\<close>.\<close>

definition cut_seg :: "nat \<Rightarrow> nat \<Rightarrow> segs" where
  "cut_seg n l = (if n + (HDR + MINIALLOC) \<le> l then [(n, True), (l - n - HDR, False)] else [(l, True)])"

lemma take_block_ok:
  assumes "heap_ok h (xs @ (l, False) # ys) fs" and "q = seg_end (start_addr h) xs"
    and "n \<le> l" and "MINIALLOC \<le> n" and "n mod 4 = 0"
  shows "\<exists>h' fs'. take_block n q l h = Some h' \<and> heap_ok h' (xs @ cut_seg n l @ ys) fs' \<and> same_place h h' \<and>
    fs' = (if n + (HDR + MINIALLOC) \<le> l then [q + HDR + n] else []) @ remove1 q fs"
proof (cases "n + (HDR + MINIALLOC) \<le> l")
  case True
  then obtain m where m: "l = n + HDR + m" "MINIALLOC \<le> m" by (metis add.assoc add_le_cancel_left le_iff_add)
  show ?thesis using take_split [OF assms(1) [unfolded m(1)] assms(2) refl assms(4,5) m(2)] m by (simp add: cut_seg_def)
next
  case False
  have "n + (HDR + MINIALLOC) < 2 ^ 32" using heap_bounds(2,3) [OF heap_base_ok [OF assms(1)] assms(2)] assms(3) by linarith
  with False show ?thesis using take_whole [OF assms(1,2), of n] by (simp add: cut_seg_def)
qed

lemma alloc_cases:
  assumes "heap_ok h ss fs" and "m = block_request n"
  shows "case if m < available_size h then first_fit h m fs else None of
      None \<Rightarrow> rt_memheap_alloc n h = Some (0, h)
    | Some q \<Rightarrow> \<exists>xs l ys h' fs'. ss = xs @ (l, False) # ys \<and> q = seg_end (start_addr h) xs \<and> m \<le> l \<and>
        rt_memheap_alloc n h = Some (q + HDR, h') \<and> heap_ok h' (xs @ cut_seg m l @ ys) fs' \<and> same_place h h' \<and>
        fs' = (if m + (HDR + MINIALLOC) \<le> l then [q + HDR + m] else []) @ remove1 q fs"
proof (cases "m < available_size h")
  case True
  note m = block_request_facts [of n, folded assms(2)]
  obtain q s where s: "search_free h m (nf h (free_list h)) 0 = Some (q, s)"
      "case first_fit h m fs of Some q' \<Rightarrow> q = q' \<and> s = nx h q - q - HDR \<and> m \<le> s | None \<Rightarrow> q = free_list h \<and> s < m"
    using search_result [OF assms(1), of m] m(1) by auto
  have "free_list h \<in> dom (items h)" using base_in_items(2) [OF heap_base_ok [OF assms(1)]] by simp
  note alloc = items_known [OF this]
  show ?thesis
  proof (cases "first_fit h m fs")
    case None
    then show ?thesis using s True alloc by (simp add: rt_memheap_alloc_def assms(2) [symmetric])
  next
    case (Some q')
    then have q: "q' = q" "m \<le> s" "s = nx h q - q - HDR" using s(2) unfolding Some by auto
    have fq: "q \<in> set fs" using Some q(1) by (auto simp: first_fit_def find_Some_iff)
    obtain xs l ys where x: "ss = xs @ (l, False) # ys" "q = seg_end (start_addr h) xs" using free_block_split [OF heap_base_ok [OF assms(1)] fq] by blast
    have l: "s = l" using block_links(3) [OF heap_base_ok [OF assms(1) [unfolded x(1)]] x(2)] q(3) by simp
    obtain h' fs' where h': "take_block m q l h = Some h'" "heap_ok h' (xs @ cut_seg m l @ ys) fs'" "same_place h h'"
        "fs' = (if m + (HDR + MINIALLOC) \<le> l then [q + HDR + m] else []) @ remove1 q fs"
      using take_block_ok [OF assms(1) [unfolded x(1)] x(2) q(2) [unfolded l] m] by blast
    have "add32 q HDR = q + HDR" using heap_bounds(2,3) [OF heap_base_ok [OF assms(1) [unfolded x(1)]] x(2)] by (intro add32_less) linarith
    then have "rt_memheap_alloc n h = Some (q + HDR, h')"
      using s(1) True alloc h'(1) q(2) l by (simp add: rt_memheap_alloc_def assms(2) [symmetric])
    moreover have "(if m < available_size h then first_fit h m fs else None) = Some q" using Some True q(1) by simp
    ultimately show ?thesis using x h' q(2) [unfolded l] by (simp only: option.case) blast
  qed
qed (simp add: rt_memheap_alloc_def assms(2) [symmetric])

section \<open>Freeing\<close>

text \<open>A heap in the middle of an operation: free blocks may be neighbours, and those of \<open>X\<close> are not in the free list yet.\<close>

definition heap_mid :: "memheap \<Rightarrow> segs \<Rightarrow> nat list \<Rightarrow> nat set \<Rightarrow> bool" where
  "heap_mid h ss fs X \<longleftrightarrow> heap_base h ss fs \<and> set fs = set (free_addrs (start_addr h) ss) - X \<and> available_size h = free_sum ss \<and>
     pool_size h - available_size h \<le> max_used_size h \<and> max_used_size h \<le> pool_size h"

lemma heap_ok_mid: "heap_ok h ss fs \<longleftrightarrow> heap_mid h ss fs {} \<and> successively (\<lambda>s t. snd s \<or> snd t) ss"
  by (auto simp: heap_ok_def heap_mid_def)

lemma base_free_bound:
  assumes "heap_base h ss fs"
  shows "free_sum ss + HDR \<le> pool_size h" and "pool_size h < 2 ^ 32"
  using free_sum_bound [of ss "start_addr h"] heap_baseD(8,9) [OF assms] seg_end_ge [of "start_addr h" ss] by linarith+

text \<open>What a block and its free neighbour behind it become, and its free neighbour before it.\<close>

fun join_right :: "nat \<Rightarrow> segs \<Rightarrow> segs" where
  "join_right n ((m, False) # ys) = (n + HDR + m, False) # ys"
| "join_right n ys = (n, False) # ys"

definition free_seg :: "segs \<Rightarrow> nat \<Rightarrow> segs \<Rightarrow> segs" where
  "free_seg xs n ys =
     (case rev xs of (m, False) # zs \<Rightarrow> rev zs @ join_right (m + HDR + n) ys | _ \<Rightarrow> xs @ join_right n ys)"

lemma merge_right_ok:
  assumes "heap_mid h (xs @ (n, False) # ys) fs X" and "q = seg_end (start_addr h) xs" and "X \<subseteq> {q}"
  shows "\<exists>h' fs'. merge_right q h = Some h' \<and> heap_mid h' (xs @ join_right n ys) fs' X \<and> same_place h h'"
proof -
  have base: "heap_base h (xs @ (n, False) # ys) fs" and fs: "set fs = set (free_addrs (start_addr h) (xs @ (n, False) # ys)) - X"
    and avail: "available_size h = free_sum (xs @ (n, False) # ys)"
    and m: "pool_size h - available_size h \<le> max_used_size h" "max_used_size h \<le> pool_size h"
    using assms(1) unfolding heap_mid_def by blast+
  note l = block_links [OF base assms(2)] and nb = next_block [OF base assms(2)]
  let ?r = "q + HDR + n"
  have u: "used (the (items h ?r)) = us h ?r" by (simp add: us_def)
  show ?thesis
  proof (cases "us h ?r")
    case True
    then have "join_right n ys = (n, False) # ys" using nb(2) by (cases ys) auto
    moreover have "merge_right q h = Some h" using items_known [OF l(1)] items_known [OF nb(1)] l(3) True by (simp add: merge_right_def)
    ultimately show ?thesis using assms(1) by auto
  next
    case False
    then obtain k zs where y: "ys = (k, False) # zs" using nb(2) by (cases ys) auto
    note t = two_addrs [OF assms(2) refl]
    let ?h = "h\<lparr>available_size := add32 (available_size h) HDR\<rparr>"
    have r: "?r \<in> set fs" using fs assms(3) unfolding y t(3) by auto
    obtain h1 h2 where h12: "unlink_block ?r ?h = Some h1" "unlink_free ?r h1 = Some h2"
        "heap_base (drop_item ?r h2) (xs @ (n + HDR + k, False) # zs) (remove1 ?r fs)" "counters h2 = counters ?h"
      using absorb_block(1) [of ?h xs n False k zs fs q ?r] base assms(2) r unfolding y by auto
    let ?h' = "drop_item ?r h2"
    have e: "merge_right q h = Some ?h'"
      using items_known [OF l(1)] items_known [OF nb(1)] l(3) False h12(1,2) by (simp add: merge_right_def)
    have c: "same_place h ?h'" "available_size ?h' = add32 (available_size h) HDR" "max_used_size ?h' = max_used_size h"
      using counters_eq [OF h12(4)] by (simp_all add: same_place_def drop_item_def)
    have s: "free_sum (xs @ (n + HDR + k, False) # zs) = available_size h + HDR" using avail unfolding y by simp
    then have av: "available_size ?h' = available_size h + HDR"
      using base_free_bound [OF h12(3)] c(1) unfolding c(2) by (intro add32_less) (auto simp: same_place_def)
    have d: "distinct (addrs (start_addr h) (xs @ (n, False) # ys))" by (rule addrs_distinct)
    have "?r \<notin> set (free_addrs (start_addr h) xs)" "?r \<notin> set (free_addrs (?r + HDR + k) zs)" "q \<noteq> ?r"
      using assms(2) by (auto dest: free_addrs_range)
    then have "set (remove1 ?r fs) = set (free_addrs (start_addr h) (xs @ (n + HDR + k, False) # zs)) - X"
      using fs base_in_items(3) [OF base] assms(3) unfolding y t(3,4) by auto
    then have "heap_mid ?h' (xs @ (n + HDR + k, False) # zs) (remove1 ?r fs) X"
      using h12(3) c(1,3) av s m by (simp add: heap_mid_def same_place_def)
    then show ?thesis using e c(1) y by auto
  qed
qed

lemma merge_left_ok:
  assumes "heap_mid h (xs @ (n, False) # ys) fs {q}" and "q = seg_end (start_addr h) xs"
  shows "\<exists>q' ins h' ws n'. merge_left q h = Some (q', ins, h') \<and> heap_mid h' (ws @ (n', False) # ys) fs (if ins then {q'} else {}) \<and>
    q' = seg_end (start_addr h) ws \<and> same_place h h' \<and> free_seg xs n ys = ws @ join_right n' ys"
proof -
  have base: "heap_base h (xs @ (n, False) # ys) fs" and fs: "set fs = set (free_addrs (start_addr h) (xs @ (n, False) # ys)) - {q}"
    and avail: "available_size h = free_sum (xs @ (n, False) # ys)"
    and m: "pool_size h - available_size h \<le> max_used_size h" "max_used_size h \<le> pool_size h"
    using assms(1) unfolding heap_mid_def by blast+
  note l = block_links [OF base assms(2)] and pb = prev_block [OF base assms(2)]
  have u: "used (the (items h (pv h q))) = us h (pv h q)" by (simp add: us_def)
  show ?thesis
  proof (cases "us h (pv h q)")
    case True
    then have "free_seg xs n ys = xs @ join_right n ys" using pb(2) by (cases xs rule: rev_cases) (auto simp: free_seg_def)
    moreover have "merge_left q h = Some (q, True, h)" using items_known [OF l(1)] items_known [OF pb(1)] True by (simp add: merge_left_def)
    ultimately show ?thesis using assms by (intro exI [of _ q] exI [of _ True] exI [of _ h] exI [of _ xs] exI [of _ n]) simp
  next
    case False
    then obtain k zs where x: "xs = zs @ [(k, False)]" using pb(2) by (cases xs rule: rev_cases) auto
    let ?p = "seg_end (start_addr h) zs"
    have q: "q = ?p + HDR + k" "pv h q = ?p" using assms(2) pb(3) [OF x] x by simp_all
    note t = two_addrs [OF refl q(1)]
    let ?h = "h\<lparr>available_size := add32 (available_size h) HDR\<rparr>"
    have base': "heap_base ?h (zs @ (k, False) # (n, False) # ys) fs" using base unfolding x by simp
    obtain h1 where h1: "unlink_block q ?h = Some h1" "heap_base (drop_item q h1) (zs @ (k + HDR + n, False) # ys) fs" "counters h1 = counters ?h"
      using join_block [OF base' _ q(1)] fs by auto
    let ?h' = "drop_item q h1"
    have e: "merge_left q h = Some (?p, False, ?h')"
      using items_known [OF l(1)] items_known [OF pb(1)] False h1(1) q(2) by (simp add: merge_left_def)
    have c: "same_place h ?h'" "available_size ?h' = add32 (available_size h) HDR" "max_used_size ?h' = max_used_size h"
      using counters_eq [OF h1(3)] by (simp_all add: same_place_def drop_item_def)
    have s: "free_sum (zs @ (k + HDR + n, False) # ys) = available_size h + HDR" using avail unfolding x by simp
    then have av: "available_size ?h' = available_size h + HDR"
      using base_free_bound [OF h1(2)] c(1) unfolding c(2) by (intro add32_less) (auto simp: same_place_def)
    have "q \<notin> set (free_addrs (start_addr h) zs)" "q \<notin> set (free_addrs (q + HDR + n) ys)" "?p \<noteq> q"
      using q(1) by (auto dest: free_addrs_range)
    moreover have "xs @ (n, False) # ys = zs @ (k, False) # (n, False) # ys" using x by simp
    ultimately have "set fs = set (free_addrs (start_addr h) (zs @ (k + HDR + n, False) # ys))"
      using fs by (simp only: t(3,4)) auto
    then have "heap_mid ?h' (zs @ (k + HDR + n, False) # ys) fs {}"
      using h1(2) c(1,3) av s m by (simp add: heap_mid_def same_place_def)
    moreover have "free_seg xs n ys = zs @ join_right (k + HDR + n) ys" by (simp add: free_seg_def x)
    ultimately show ?thesis using e c(1)
      by (intro exI [of _ ?p] exI [of _ False] exI [of _ ?h'] exI [of _ zs] exI [of _ "k + HDR + n"]) simp
  qed
qed

lemma join_right_head: "\<exists>n' ys'. join_right n ys = (n', False) # ys'"
  by (cases "(n, ys)" rule: join_right.cases) auto

lemma free_seg_separate:
  assumes "successively (\<lambda>s t. snd s \<or> snd t) (xs @ (n, True) # ys)"
  shows "successively (\<lambda>s t. snd s \<or> snd t) (free_seg xs n ys)"
proof -
  have r: "successively (\<lambda>s t. snd s \<or> snd t) (s # join_right k ys)" if "snd s" for s k
    using assms that by (cases "(k, ys)" rule: join_right.cases) (auto simp: successively_append_iff successively_Cons)
  have j: "successively (\<lambda>s t. snd s \<or> snd t) (join_right k ys)" for k using r [of "(0, True)" k] by (auto simp: successively_Cons)
  show ?thesis
  proof (cases xs rule: rev_cases)
    case Nil
    then show ?thesis using j by (simp add: free_seg_def)
  next
    case (snoc zs s)
    then show ?thesis
    proof (cases "snd s")
      case True
      then have "free_seg xs n ys = zs @ s # join_right n ys" using snoc by (cases s) (simp add: free_seg_def)
      then show ?thesis using r [OF True, of n] assms snoc successively_append_iff by (fastforce simp: successively_append_iff)
    next
      case False
      then have e: "free_seg xs n ys = zs @ join_right (fst s + HDR + n) ys" using snoc by (cases s) (simp add: free_seg_def)
      obtain n' ys' where h: "join_right (fst s + HDR + n) ys = (n', False) # ys'" using join_right_head by blast
      have "snd (last zs)" if "zs \<noteq> []" using assms snoc False that by (auto simp: successively_append_iff)
      then show ?thesis using j [of "fst s + HDR + n"] assms snoc unfolding e h by (auto simp: successively_append_iff)
    qed
  qed
qed

lemma free_ok:
  assumes "heap_ok h (xs @ (n, True) # ys) fs" and "ptr = seg_end (start_addr h) xs + HDR"
  shows "\<exists>h' fs'. rt_memheap_free ptr h = Some h' \<and> heap_ok h' (free_seg xs n ys) fs' \<and> same_place h h'"
proof -
  let ?q = "seg_end (start_addr h) xs"
  note base = heap_base_ok [OF assms(1)]
  note b = heap_bounds [OF base refl] and l = block_links [OF base refl] and nb = next_block [OF base refl]
  have ok: "set fs = set (free_addrs (start_addr h) (xs @ (n, True) # ys))" "available_size h = free_sum (xs @ (n, True) # ys)"
      "pool_size h - available_size h \<le> max_used_size h" "max_used_size h \<le> pool_size h"
      "successively (\<lambda>s t. snd s \<or> snd t) (xs @ (n, True) # ys)"
    using assms(1) unfolding heap_ok_def by blast+
  have q: "sub32 ptr HDR = ?q" "ptr \<noteq> 0"
    using b(2,3) assms(2) sub32_le [of HDR ptr] by simp_all
  have out: "?q \<notin> set (free_addrs (start_addr h) xs)" "?q \<notin> set (free_addrs (?q + HDR + n) ys)" by (auto dest: free_addrs_range)
  then have qfs: "?q \<notin> set fs" using ok(1) by simp
  obtain h1 where h1: "wr ?q (\<lambda>x. x\<lparr>used := False\<rparr>) h = Some h1" "heap_base h1 (xs @ (n, False) # ys) fs" "counters h1 = counters h"
    using set_flag [OF base refl qfs] by blast
  note c = counters_eq [OF h1(3)]
  have s: "item_size ?q h1 = Some n" using block_links(4) [OF h1(2)] c(1) by simp
  let ?h2 = "h1\<lparr>available_size := add32 (available_size h1) n\<rparr>"
  have "free_sum (xs @ (n, False) # ys) = available_size h + n" using ok(2) by simp
  then have av: "add32 (available_size h1) n = free_sum (xs @ (n, False) # ys)" "available_size h \<le> free_sum (xs @ (n, False) # ys)"
    using base_free_bound [OF h1(2)] c by (simp_all add: add32_less)
  have mid: "heap_mid ?h2 (xs @ (n, False) # ys) fs {?q}"
    unfolding heap_mid_def using h1(2) c ok(1,3,4) av out by auto
  have p: "?q = seg_end (start_addr ?h2) xs" using c(1) by simp
  obtain q' ins h3 ws n' where h3: "merge_left ?q ?h2 = Some (q', ins, h3)" "heap_mid h3 (ws @ (n', False) # ys) fs (if ins then {q'} else {})"
      "q' = seg_end (start_addr ?h2) ws" "same_place ?h2 h3" "free_seg xs n ys = ws @ join_right n' ys"
    using merge_left_ok [OF mid p] by blast
  have p3: "q' = seg_end (start_addr h3) ws" "(if ins then {q'} else {}) \<subseteq> {q'}" using h3(3,4) by (simp_all add: same_place_def)
  obtain h4 gs where h4: "merge_right q' h3 = Some h4" "heap_mid h4 (free_seg xs n ys) gs (if ins then {q'} else {})" "same_place h3 h4"
    using merge_right_ok [OF h3(2) p3] h3(5) by auto
  have place: "same_place h h4" "start_addr h4 = start_addr h" using h3(4) h4(3) c by (simp_all add: same_place_def)
  have sep: "successively (\<lambda>s t. snd s \<or> snd t) (free_seg xs n ys)" using free_seg_separate [OF ok(5)] .
  have f: "rt_memheap_free ptr h = (if ins then push_free q' h4 else Some h4)"
    using q items_known [OF l(1)] items_known [OF nb(1)] l(2,3) h1(1) s h3(1) h4(1) by (simp add: rt_memheap_free_def)
  show ?thesis
  proof (cases ins)
    case False
    then show ?thesis using f h4(2) sep place(1) by (auto simp: heap_ok_mid)
  next
    case True
    obtain k zs where z: "free_seg xs n ys = ws @ (k, False) # zs" using h3(5) join_right_head [of n' ys] by auto
    have m: "heap_base h4 (free_seg xs n ys) gs" "set gs = set (free_addrs (start_addr h4) (free_seg xs n ys)) - {q'}"
      "available_size h4 = free_sum (free_seg xs n ys)" "pool_size h4 - available_size h4 \<le> max_used_size h4" "max_used_size h4 \<le> pool_size h4"
      using h4(2) True unfolding heap_mid_def if_P [OF True] by blast+
    have "q' \<in> set (free_addrs (start_addr h4) (free_seg xs n ys))" using h3(3) c(1) place(2) unfolding z by simp
    then obtain h5 where h5: "push_free q' h4 = Some h5" "heap_base h5 (free_seg xs n ys) (q' # gs)" "counters h5 = counters h4"
      using push_block [OF m(1)] m(2) by blast
    note c5 = counters_eq [OF h5(3)]
    have "heap_ok h5 (free_seg xs n ys) (q' # gs)"
      unfolding heap_ok_def c5 using h5(2) m(2-5) sep \<open>q' \<in> _\<close> by auto
    moreover have "same_place h h5" using place c5 by (simp add: same_place_def)
    ultimately show ?thesis using f h5(1) True by auto
  qed
qed

section \<open>Reallocation\<close>

lemma grow_ok:
  assumes "heap_ok h (xs @ (l, True) # (k, False) # ys) fs" and "q = seg_end (start_addr h) xs" and "r = q + HDR + n"
    and "n + m = l + k" and "l < n" and "n mod 4 = 0" and "MINIALLOC \<le> m"
  shows "\<exists>h' fs'. grow_block n l q h = Some h' \<and> heap_ok h' (xs @ (n, True) # (m, False) # ys) fs' \<and> same_place h h'"
proof -
  let ?st = "start_addr h" and ?b = "q + HDR + l" and ?av = "sub32 (available_size h) (sub32 n l)"
  let ?g = "h\<lparr>available_size := ?av\<rparr>"
  note base = heap_base_ok [OF assms(1)] and d = heap_okD [OF assms(1)] and t = two_addrs [OF assms(2) refl] and t' = two_addrs [OF assms(2,3)]
  note b = heap_bounds [OF base assms(2)] and l = block_links [OF base assms(2)]
  have nb: "?b + HDR + k + HDR \<le> ?st + pool_size h"
    using heap_bounds(2) [of h "xs @ [(l, True)]" k False ys fs ?b] base assms(2) by simp
  have w: "add32 (add32 q HDR) n = r" using nb b(3) assms(3,4,7) by (simp add: add32_less)
  have bfs: "?b \<in> set fs" using d(6) unfolding t(3) by simp
  obtain h1 h2 where h2: "unlink_free ?b (note_used ?g) = Some h1" "unlink_block ?b h1 = Some h2"
      "heap_base (drop_item ?b h2) (xs @ (l + HDR + k, True) # ys) (remove1 ?b fs)" "counters h2 = counters (note_used ?g)"
    using absorb_block(2) [of "note_used ?g" xs l True k ys fs q ?b] base assms(2) bfs by auto
  let ?h2 = "drop_item ?b h2"
  have c2: "counters ?h2 = counters (note_used ?g)" using h2(4) by simp
  have p2: "q = seg_end (start_addr ?h2) xs" using counters_eq(1) [OF c2] assms(2) by simp
  have e: "l + HDR + k = n + HDR + m" using assms(4) by simp
  have n: "MINIALLOC \<le> n" using b(5) assms(5) by simp
  obtain h3 where h3: "cut_block r q ?h2 = Some h3" "heap_base h3 (xs @ (n, True) # (m, False) # ys) (remove1 ?b fs)"
      "counters h3 = counters ?h2" "r \<notin> set (remove1 ?b fs)"
    using cut_ok [OF h2(3) [unfolded e] p2 assms(3) n assms(6,7)] by blast
  have c3: "counters h3 = counters (note_used ?g)" using h3(3) c2 by simp
  have s3: "start_addr h3 = ?st" using counters_eq(1) [OF c3] by simp
  have r: "r \<in> set (free_addrs (start_addr h3) (xs @ (n, True) # (m, False) # ys))" unfolding s3 t'(3) by simp
  obtain h4 where h4: "push_free r h3 = Some h4" "heap_base h4 (xs @ (n, True) # (m, False) # ys) (r # remove1 ?b fs)" "counters h4 = counters h3"
    using push_block [OF h3(2) r h3(4)] by blast
  have c4: "counters h4 = counters (note_used ?g)" using h4(3) c3 by simp
  note c = counters_eq [OF c4]
  have avail: "available_size h = free_sum xs + k + free_sum ys" using d(8) by simp
  have "sub32 n l = n - l" using assms(4,5,7) nb b(3) by (intro sub32_le) linarith+
  moreover have "sub32 (available_size h) (n - l) = available_size h - (n - l)"
    using available_bound [OF assms(1)] avail assms(4,7) by (intro sub32_le) linarith+
  ultimately have av: "?av = free_sum (xs @ (n, True) # (m, False) # ys)" using avail assms(4,5) by simp
  have "?b \<notin> set (free_addrs ?st xs)" "?b \<notin> set (free_addrs (?b + HDR + k) ys)" using assms(2) by (auto dest: free_addrs_range)
  moreover have e2: "r + HDR + m = ?b + HDR + k" using assms(3,4) by simp
  have "free_addrs ?st (xs @ (n, True) # (m, False) # ys) = free_addrs ?st xs @ r # free_addrs (?b + HDR + k) ys" unfolding t'(3) e2 by simp
  moreover have "set fs = set (free_addrs ?st xs @ ?b # free_addrs (?b + HDR + k) ys)" using d(6) unfolding t(3) by simp
  ultimately have "set (r # remove1 ?b fs) = set (free_addrs ?st (xs @ (n, True) # (m, False) # ys))"
    using base_in_items(3) [OF base] by auto
  moreover have "successively (\<lambda>s t. snd s \<or> snd t) (xs @ (n, True) # (m, False) # ys)"
    using d(7) by (cases xs rule: rev_cases; cases ys) (auto simp: seg_ok_def successively_append_iff)
  moreover have "pool_size ?g - available_size ?g \<le> max_used_size (note_used ?g)" "max_used_size (note_used ?g) \<le> pool_size ?g"
    using available_bound [OF assms(1)] base_free_bound [OF h4(2)] av c by (intro note_used_max; simp)+
  ultimately have "heap_ok h4 (xs @ (n, True) # (m, False) # ys) (r # remove1 ?b fs)" unfolding heap_ok_def using h4(2) c av by simp
  moreover have "grow_block n l q h = Some h4"
    using items_known [OF l(1)] l(3) h2(1,2) h3(1) h4(1) w by (simp add: grow_block_def)
  ultimately show ?thesis using c by (auto simp: same_place_def)
qed

lemma shrink_ok:
  assumes "heap_ok h (xs @ (n + HDR + m, True) # ys) fs" and "q = seg_end (start_addr h) xs" and "r = q + HDR + n"
    and "MINIALLOC \<le> n" and "n mod 4 = 0" and "MINIALLOC \<le> m"
  shows "\<exists>h' fs'. shrink_block n q h = Some h' \<and> heap_ok h' (xs @ (n, True) # join_right m ys) fs' \<and> same_place h h'"
proof -
  let ?st = "start_addr h" and ?r' = "r + HDR + m"
  note base = heap_base_ok [OF assms(1)] and d = heap_okD [OF assms(1)] and b = heap_bounds [OF base assms(2)]
  have ok: "set fs = set (free_addrs ?st (xs @ (n + HDR + m, True) # ys))" "available_size h = free_sum (xs @ (n + HDR + m, True) # ys)"
      "pool_size h - available_size h \<le> max_used_size h" "max_used_size h \<le> pool_size h"
      "successively (\<lambda>s t. snd s \<or> snd t) (xs @ (n + HDR + m, True) # ys)"
    using assms(1) unfolding heap_ok_def by blast+
  have w: "add32 q (n + HDR) = r" using b(2,3) assms(3) by (simp add: add32_less)
  obtain h1 where h1: "cut_block r q h = Some h1" "heap_base h1 (xs @ (n, True) # (m, False) # ys) fs" "counters h1 = counters h" "r \<notin> set fs"
    using cut_ok [OF base assms(2-6)] by blast
  let ?ws = "xs @ [(n, True)]"
  have base1: "heap_base h1 (?ws @ (m, False) # ys) fs" and p1: "r = seg_end (start_addr h1) ?ws"
    using h1(2) counters_eq(1) [OF h1(3)] assms(2,3) by simp_all
  note l1 = block_links [OF base1 p1] and nb1 = next_block [OF base1 p1]
  define tail where "tail = (if used (the (items h1 ?r')) then Some h1
                 else do { s \<leftarrow> item_size ?r' h1;
                           h2 \<leftarrow> unlink_block ?r' (h1\<lparr>available_size := sub32 (available_size h1) s\<rparr>);
                           h3 \<leftarrow> unlink_free ?r' h2;
                           Some (drop_item ?r' h3) })"
  have "\<exists>h2 gs m' zs. tail = Some h2 \<and> heap_base h2 (?ws @ (m', False) # zs) gs \<and> join_right m ys = (m', False) # zs \<and> same_place h h2 \<and>
      set gs = set (free_addrs ?st (?ws @ (m', True) # zs)) \<and> available_size h2 = free_sum xs + free_sum zs \<and> max_used_size h2 = max_used_size h \<and>
      available_size h2 \<le> available_size h \<and> available_size h \<le> available_size h2 + m'"
  proof (cases "us h1 ?r'")
    case True
    then have "join_right m ys = (m, False) # ys" using nb1(2) by (cases ys) auto
    moreover have "tail = Some h1" using True by (simp add: tail_def us_def)
    ultimately show ?thesis using base1 counters_eq [OF h1(3)] ok(1,2) assms(2,3)
      by (intro exI [of _ h1] exI [of _ fs] exI [of _ m] exI [of _ ys]) (simp add: same_place_def add_ac)
  next
    case False
    then obtain k zs where y: "ys = (k, False) # zs" using nb1(2) by (cases ys) auto
    note t = two_addrs [OF p1 refl]
    have base1': "heap_base h1 (?ws @ (m, False) # (k, False) # zs) fs" using base1 unfolding y .
    have st: "start_addr h1 = ?st" using counters_eq(1) [OF h1(3)] .
    have e1: "?ws @ (m, False) # (k, False) # zs = xs @ (n, True) # (m, False) # ys" using y by simp
    have fa: "set fs = set (free_addrs ?st xs) \<union> {?r'} \<union> set (free_addrs (?r' + HDR + k) zs)"
      using ok(1) assms(2,3) unfolding y by (simp add: add_ac insert_commute)
    have sz: "item_size ?r' h1 = Some k"
      using block_links(4) [of h1 "?ws @ [(m, False)]" k False zs fs ?r'] base1' p1 by simp
    let ?h = "h1\<lparr>available_size := sub32 (available_size h1) k\<rparr>"
    obtain h2 h3 where h23: "unlink_block ?r' ?h = Some h2" "unlink_free ?r' h2 = Some h3"
        "heap_base (drop_item ?r' h3) (?ws @ (m + HDR + k, False) # zs) (remove1 ?r' fs)" "counters h3 = counters ?h"
      using absorb_block(1) [of ?h ?ws m False k zs fs r ?r'] base1' p1 fa by auto
    have "sub32 (available_size h1) k = available_size h - k"
      using counters_eq(3) [OF h1(3)] available_bound [OF assms(1)] ok(2) unfolding y by (subst sub32_le) simp_all
    moreover have "?r' \<notin> set (free_addrs ?st xs)" "?r' \<notin> set (free_addrs (?r' + HDR + k) zs)"
      using assms(2,3) by (auto dest: free_addrs_range)
    moreover have "tail = Some (drop_item ?r' h3)" using False sz h23(1,2) by (simp add: tail_def us_def)
    ultimately show ?thesis
      using h23(3) counters_eq [OF h23(4)] counters_eq [OF h1(3)] ok(2) fa base_in_items(3) [OF base] assms(2,3) unfolding y
      by (intro exI [of _ "drop_item ?r' h3"] exI [of _ "remove1 ?r' fs"] exI [of _ "m + HDR + k"] exI [of _ zs])
        (auto simp: same_place_def drop_item_def add_ac)
  qed
  then obtain h2 gs m' zs where h2: "tail = Some h2" "heap_base h2 (?ws @ (m', False) # zs) gs" "join_right m ys = (m', False) # zs" "same_place h h2"
      "set gs = set (free_addrs ?st (?ws @ (m', True) # zs))" "available_size h2 = free_sum xs + free_sum zs" "max_used_size h2 = max_used_size h"
      "available_size h2 \<le> available_size h" "available_size h \<le> available_size h2 + m'" by blast
  have st2: "start_addr h2 = ?st" "pool_size h2 = pool_size h" using h2(4) by (simp_all add: same_place_def)
  have r: "r = seg_end (start_addr h2) ?ws" using st2 assms(2,3) by simp
  then have rf: "r \<in> set (free_addrs (start_addr h2) (?ws @ (m', False) # zs))" "r \<notin> set gs"
    using h2(5) st2 by (auto dest: free_addrs_range)
  obtain h3 where h3: "push_free r h2 = Some h3" "heap_base h3 (?ws @ (m', False) # zs) (r # gs)" "counters h3 = counters h2"
    using push_block [OF h2(2) rf] by blast
  note c3 = counters_eq [OF h3(3)]
  have sz: "item_size r h3 = Some m'" using block_links(4) [OF h3(2)] r c3(1) by simp
  let ?h4 = "h3\<lparr>available_size := add32 (available_size h3) m'\<rparr>"
  have av: "add32 (available_size h3) m' = free_sum (?ws @ (m', False) # zs)"
    using base_free_bound [OF h3(2)] c3 h2(6) by (simp add: add32_less)
  have "set (r # gs) = set (free_addrs ?st (?ws @ (m', False) # zs))" using h2(5) r st2 by auto
  moreover have "successively (\<lambda>s t. snd s \<or> snd t) (?ws @ (m', False) # zs)"
  proof -
    have "successively (\<lambda>s t. snd s \<or> snd t) ((n, True) # join_right m ys)"
      using ok(5) by (cases "(m, ys)" rule: join_right.cases) (auto simp: successively_append_iff successively_Cons)
    then show ?thesis using ok(5) h2(3) by (auto simp: successively_append_iff)
  qed
  ultimately have "heap_ok ?h4 (?ws @ (m', False) # zs) (r # gs)"
    unfolding heap_ok_def using h3(2) c3 av st2 h2(6-9) ok(3,4) by simp
  moreover have "shrink_block n q h = Some ?h4"
  proof -
    obtain it1 it2 where "items h1 r = Some it1" "inext it1 = ?r'" "items h1 ?r' = Some it2"
      using l1(1,3) nb1(1) by (auto simp: nx_def)
    then show ?thesis using w h1(1) h2(1) h3(1) sz by (auto simp: shrink_block_def tail_def bind_eq_Some_conv split: if_splits)
  qed
  ultimately show ?thesis using c3 st2 h2(3,4) by (auto simp: same_place_def)
qed

section \<open>What a heap promises\<close>

text \<open>The live blocks of a heap, as a map from their addresses to their sizes; the block at the pool's end is none.\<close>

definition live :: "memheap \<Rightarrow> nat \<rightharpoonup> nat" where
  "live h p =
     (case items h (p - HDR) of
        Some it \<Rightarrow> if HDR \<le> p \<and> used it \<and> p \<noteq> start_addr h + pool_size h then Some (inext it - p) else None
      | None \<Rightarrow> None)"

definition heap_wf :: "memheap \<Rightarrow> bool" where
  "heap_wf h \<longleftrightarrow> (\<exists>ss fs. heap_ok h ss fs)"

definition live_of :: "nat \<Rightarrow> segs \<Rightarrow> nat \<rightharpoonup> nat" where
  "live_of a ss = map_of (map (\<lambda>(b, n, _). (b + HDR, n)) (filter (\<lambda>(_, _, u). u) (lay a ss)))"

lemma live_of_simps [simp]:
  "live_of a [] = Map.empty"
  "live_of a ((n, u) # ss) = (if u then (live_of (a + HDR + n) ss)(a + HDR \<mapsto> n) else live_of (a + HDR + n) ss)"
  "live_of a (ss @ ts) = live_of (seg_end a ss) ts ++ live_of a ss"
  by (simp_all add: live_of_def fun_upd_def)

lemma live_of_Some: "live_of a ss p = Some n \<longleftrightarrow> (\<exists>xs ys. ss = xs @ (n, True) # ys \<and> p = seg_end a xs + HDR)"
proof
  assume "live_of a ss p = Some n"
  then obtain b where "(b, n, True) \<in> set (lay a ss)" "p = b + HDR" by (auto simp: live_of_def dest!: map_of_SomeD)
  then show "\<exists>xs ys. ss = xs @ (n, True) # ys \<and> p = seg_end a xs + HDR" using lay_split by blast
next
  assume "\<exists>xs ys. ss = xs @ (n, True) # ys \<and> p = seg_end a xs + HDR"
  then obtain xs ys where x: "ss = xs @ (n, True) # ys" "p = seg_end a xs + HDR" by blast
  have "p \<notin> dom (live_of a xs)"
    using x(2) by (auto simp: live_of_def dest!: map_of_SomeD lay_range)
  then show "live_of a ss p = Some n" using x by (simp add: map_add_dom_app_simps)
qed

lemma live_of_range: "live_of a ss p = Some n \<Longrightarrow> a + HDR \<le> p \<and> p + n \<le> seg_end a ss"
  by (auto simp: live_of_def dest!: map_of_SomeD lay_range)

lemma live_eq:
  assumes "heap_ok h ss fs"
  shows "live h = live_of (start_addr h) ss"
proof
  fix p
  note base = heap_base_ok [OF assms] and d = heap_okD [OF assms]
  show "live h p = live_of (start_addr h) ss p"
  proof (cases "live_of (start_addr h) ss p")
    case (Some n)
    then obtain xs ys where x: "ss = xs @ (n, True) # ys" "p = seg_end (start_addr h) xs + HDR" by (auto simp: live_of_Some)
    note l = block_links [OF base [unfolded x(1)] refl] and b = heap_bounds [OF base [unfolded x(1)] refl]
    have "p \<noteq> start_addr h + pool_size h" using b(2,5) x(2) by simp
    then show ?thesis using Some items_known [OF l(1)] l(2,3) x(2) by (simp add: live_def)
  next
    case None
    show ?thesis
    proof (rule ccontr)
      assume "live h p \<noteq> live_of (start_addr h) ss p"
      then obtain it where it: "items h (p - HDR) = Some it" "HDR \<le> p" "used it" "p \<noteq> start_addr h + pool_size h"
        using None by (auto simp: live_def split: option.splits if_splits)
      then have "us h (p - HDR)" "p - HDR \<in> dom (items h)" by (auto simp: us_def)
      then consider "p - HDR = free_list h" | "p - HDR = seg_end (start_addr h) ss" | n u where "(p - HDR, n, u) \<in> set (lay (start_addr h) ss)"
        using d(3) by (auto simp: addrs_def)
      then show False
      proof cases
        case 1
        then show ?thesis using \<open>us h (p - HDR)\<close> heap_baseD(11) [OF base] by simp
      next
        case 2
        then show ?thesis using it(2,4) heap_baseD(8) [OF base] by simp
      next
        case 3
        then have "us h (p - HDR) = u" using d(4) by auto
        then have "(p - HDR, n, True) \<in> set (lay (start_addr h) ss)" using 3 \<open>us h (p - HDR)\<close> by simp
        then obtain xs ys where "ss = xs @ (n, True) # ys" "p - HDR = seg_end (start_addr h) xs" using lay_split by blast
        then have "live_of (start_addr h) ss p = Some n" using it(2) unfolding live_of_Some by (metis le_add_diff_inverse2)
        then show ?thesis using None by simp
      qed
    qed
  qed
qed

text \<open>A region that a heap can be made of; \<open>flist\<close> lies in the heap's object, outside the region.\<close>

definition region_ok :: "nat \<Rightarrow> nat \<Rightarrow> nat \<Rightarrow> bool" where
  "region_ok flist start n \<longleftrightarrow> 2 * HDR + MINIALLOC \<le> n \<and> start + n < 2 ^ 32 \<and> start mod 4 = 0 \<and>
     (flist + HDR \<le> start \<or> start + n \<le> flist)"

lemma init_ok:
  assumes "region_ok flist start n"
  shows "heap_ok (rt_memheap_init flist start n) [(align_down n - 2 * HDR, False)] [start]"
    and "live (rt_memheap_init flist start n) = Map.empty"
proof -
  define l where "l = align_down n - 2 * HDR"
  have a: "align_down n \<le> n" "align_down n mod 4 = 0" "2 * HDR + MINIALLOC \<le> align_down n"
    using assms unfolding align_down_def region_ok_def by presburger+
  then have l: "align_down n = l + 2 * HDR" "MINIALLOC \<le> l" "l mod 4 = 0" unfolding l_def by presburger+
  have r: "l + 2 * HDR \<le> n" "start + n < 2 ^ 32" "start mod 4 = 0" "flist + HDR \<le> start \<or> start + n \<le> flist"
    using assms a(1) l(1) by (auto simp: region_ok_def)
  have "l + 2 * HDR < 2 ^ 32" using r by linarith
  then have s: "sub32 (l + 48) 48 = l" "sub32 (l + 48) l = 48"
    using sub32_le [of 48 "l + 48"] sub32_le [of l "l + 48"] by simp_all
  have t: "add32 l HDR = l + HDR" "add32 start (l + HDR) = start + HDR + l" using r by (simp_all add: add32_less)
  have ne: "flist \<noteq> start" "flist \<noteq> start + HDR + l" "start \<noteq> start + HDR + l" using r l(2) by auto
  let ?h = "rt_memheap_init flist start n"
  have c: "start_addr ?h = start" "pool_size ?h = l + 2 * HDR" "available_size ?h = l" "max_used_size ?h = 2 * HDR" "free_list ?h = flist"
    by (simp_all add: rt_memheap_init_def Let_def l(1) s t)
  have i: "items ?h = [flist \<mapsto> \<lparr>used = False, inext = 0, iprev = 0, next_free = start, prev_free = start\<rparr>,
      start \<mapsto> \<lparr>used = False, inext = start + HDR + l, iprev = start + HDR + l, next_free = flist, prev_free = flist\<rparr>,
      start + HDR + l \<mapsto> \<lparr>used = True, inext = start, iprev = start, next_free = 0, prev_free = 0\<rparr>]"
    by (simp add: rt_memheap_init_def Let_def l(1) s t)
  have "heap_base ?h [(l, False)] [start]"
    unfolding heap_base_def c using ne l r i by (auto simp: ring_def us_def nx_def pv_def nf_def pf_def)
  then have "heap_ok ?h [(l, False)] [start]" unfolding heap_ok_def c by simp
  then show "heap_ok ?h [(align_down n - 2 * HDR, False)] [start]" by (simp add: l_def)
  from live_eq [OF this] show "live ?h = Map.empty" by simp
qed

lemma live_apart:
  assumes "heap_wf h" and "live h p = Some n" and "live h q = Some m" and "p \<noteq> q"
  shows "p + n + HDR \<le> q \<or> q + m + HDR \<le> p"
proof -
  obtain ss fs where ok: "heap_ok h ss fs" using assms(1) by (auto simp: heap_wf_def)
  obtain xs ys where x: "ss = xs @ (n, True) # ys" "p = seg_end (start_addr h) xs + HDR"
    using assms(2) live_eq [OF ok] by (auto simp: live_of_Some)
  have "live_of (seg_end (start_addr h) (xs @ [(n, True)])) ys q = Some m \<or> live_of (start_addr h) xs q = Some m"
    using assms(3,4) live_eq [OF ok] x by (auto simp: map_add_Some_iff split: if_splits)
  then show ?thesis using x(2) by (auto dest: live_of_range)
qed

lemma live_inside:
  assumes "heap_wf h" and "live h p = Some n"
  shows "start_addr h + HDR \<le> p" and "p + n + HDR \<le> start_addr h + pool_size h" and "start_addr h + pool_size h < 2 ^ 32"
    and "p mod 4 = 0" and "MINIALLOC \<le> n"
proof -
  obtain ss fs where ok: "heap_ok h ss fs" using assms(1) by (auto simp: heap_wf_def)
  obtain xs ys where x: "ss = xs @ (n, True) # ys" "p = seg_end (start_addr h) xs + HDR"
    using assms(2) live_eq [OF ok] by (auto simp: live_of_Some)
  note b = heap_bounds [OF heap_base_ok [OF ok [unfolded x(1)]] refl]
  show "start_addr h + HDR \<le> p" "p + n + HDR \<le> start_addr h + pool_size h" "start_addr h + pool_size h < 2 ^ 32" "MINIALLOC \<le> n"
    using b x(2) by simp_all
  have e: "seg_end a zs mod 4 = 0" if "list_all (\<lambda>(n, _). MINIALLOC \<le> n \<and> n mod 4 = 0) zs" "a mod 4 = 0" for a zs
    using that
  proof (induction zs arbitrary: a)
    case (Cons z zs)
    have "(a + HDR + fst z) mod 4 = 0" using Cons.prems by (cases z) (simp add: mod_add_eq [symmetric])
    then show ?case using Cons.IH [of "a + HDR + fst z"] Cons.prems by simp
  qed simp
  have "list_all (\<lambda>(n, _). MINIALLOC \<le> n \<and> n mod 4 = 0) xs" "start_addr h mod 4 = 0"
    using ok unfolding heap_ok_def heap_base_def x(1) by simp_all
  from e [OF this] show "p mod 4 = 0" using x(2) by (simp add: mod_add_eq [symmetric])
qed

lemma live_of_free_seg: "live_of a (free_seg xs n ys) = (live_of a (xs @ (n, True) # ys))(seg_end a xs + HDR := None)"
proof -
  let ?p = "seg_end a xs + HDR"
  have j: "live_of b (join_right k ys) = live_of (b + HDR + k) ys" for b k
    by (cases "(k, ys)" rule: join_right.cases) (simp_all add: add_ac)
  have out: "live_of a xs ?p = None" "live_of (seg_end a xs + HDR + n) ys ?p = None"
  proof -
    show "live_of a xs ?p = None" using live_of_range [of a xs ?p] by (cases "live_of a xs ?p") auto
    show "live_of (seg_end a xs + HDR + n) ys ?p = None"
      using live_of_range [of "seg_end a xs + HDR + n" ys ?p] by (cases "live_of (seg_end a xs + HDR + n) ys ?p") auto
  qed
  have e: "live_of a (free_seg xs n ys) = live_of (seg_end a xs + HDR + n) ys ++ live_of a xs"
    by (cases xs rule: rev_cases) (auto simp: free_seg_def j add_ac split: bool.splits)
  show ?thesis unfolding e using out by (auto simp: fun_eq_iff map_add_def split: option.split)
qed

lemma free_spec:
  assumes "heap_wf h" and "live h p = Some n"
  shows "\<exists>h'. rt_memheap_free p h = Some h' \<and> heap_wf h' \<and> same_place h h' \<and> live h' = (live h)(p := None)"
proof -
  obtain ss fs where ok: "heap_ok h ss fs" using assms(1) by (auto simp: heap_wf_def)
  obtain xs ys where x: "ss = xs @ (n, True) # ys" "p = seg_end (start_addr h) xs + HDR"
    using assms(2) live_eq [OF ok] by (auto simp: live_of_Some)
  obtain h' gs where h': "rt_memheap_free p h = Some h'" "heap_ok h' (free_seg xs n ys) gs" "same_place h h'"
    using free_ok [OF ok [unfolded x(1)] x(2)] by blast
  have "live h' = (live h)(p := None)"
    using live_eq [OF ok] live_eq [OF h'(2)] h'(3) live_of_free_seg [of "start_addr h" xs n ys] x by (simp add: same_place_def)
  then show ?thesis using h' by (auto simp: heap_wf_def)
qed

text \<open>Coalescing leaves nothing behind: without live blocks the pool is one free block again.\<close>

lemma no_live_blocks:
  assumes "heap_ok h ss fs" and "live h = Map.empty" and "2 * HDR \<le> pool_size h"
  shows "ss = [(pool_size h - 2 * HDR, False)]"
proof -
  have "\<not> snd s" if "s \<in> set ss" for s
  proof
    assume "snd s"
    obtain xs ys where "ss = xs @ s # ys" using \<open>s \<in> set ss\<close> by (auto simp: in_set_conv_decomp)
    then have "live_of (start_addr h) ss (seg_end (start_addr h) xs + HDR) = Some (fst s)" using \<open>snd s\<close> unfolding live_of_Some by (metis prod.collapse)
    then have "live h (seg_end (start_addr h) xs + HDR) = Some (fst s)" unfolding live_eq [OF assms(1)] .
    then show False unfolding assms(2) by simp
  qed
  then have "length ss \<le> 1" using heap_okD(7) [OF assms(1)] by (cases ss; cases "tl ss") (auto simp: seg_ok_def)
  then consider "ss = []" | s where "ss = [s]" by (cases ss) auto
  then show ?thesis
  proof cases
    case 2
    then show ?thesis using \<open>\<And>s. s \<in> set ss \<Longrightarrow> \<not> snd s\<close> heap_baseD(8) [OF heap_base_ok [OF assms(1)]] by (cases s) auto
  qed (use heap_baseD(8) [OF heap_base_ok [OF assms(1)]] assms(3) in simp)
qed

lemma live_of_cut:
  assumes "p = seg_end a xs + HDR"
  shows "live_of a (xs @ cut_seg n l @ ys) = (live_of a (xs @ (l, False) # ys))(p \<mapsto> if n + (HDR + MINIALLOC) \<le> l then n else l)"
    and "live_of a (xs @ (l, False) # ys) p = None"
proof -
  have out: "live_of a xs p = None" "live_of (p + l) ys p = None"
    using live_of_range [of a xs p] live_of_range [of "p + l" ys p] assms by fastforce+
  show "live_of a (xs @ cut_seg n l @ ys) = (live_of a (xs @ (l, False) # ys))(p \<mapsto> if n + (HDR + MINIALLOC) \<le> l then n else l)"
  proof (cases "n + (HDR + MINIALLOC) \<le> l")
    case True
    then obtain m where m: "l = n + HDR + m" by (metis add.assoc add_leD1 le_iff_add)
    then show ?thesis using True out assms by (auto simp: cut_seg_def fun_eq_iff map_add_def add_ac split: option.split)
  next
    case False
    then show ?thesis using out assms by (auto simp: cut_seg_def fun_eq_iff map_add_def split: option.split)
  qed
  show "live_of a (xs @ (l, False) # ys) p = None" using out assms by (simp add: map_add_None)
qed

lemma alloc_spec:
  assumes "heap_wf h" and "m = block_request n"
  shows "rt_memheap_alloc n h = Some (0, h) \<or>
    (\<exists>p l h'. rt_memheap_alloc n h = Some (p, h') \<and> heap_wf h' \<and> same_place h h' \<and> 0 < p \<and> live h p = None \<and>
       m \<le> l \<and> l < m + (HDR + MINIALLOC) \<and> live h' = (live h)(p \<mapsto> l))"
proof -
  obtain ss fs where ok: "heap_ok h ss fs" using assms(1) by (auto simp: heap_wf_def)
  show ?thesis
  proof (cases "if m < available_size h then first_fit h m fs else None")
    case None
    then show ?thesis using alloc_cases [OF ok assms(2)] by (simp only: option.case simp_thms)
  next
    case (Some q)
    then obtain xs l ys h' gs where a: "ss = xs @ (l, False) # ys" "q = seg_end (start_addr h) xs" "m \<le> l"
        "rt_memheap_alloc n h = Some (q + HDR, h')" "heap_ok h' (xs @ cut_seg m l @ ys) gs" "same_place h h'"
      using alloc_cases [OF ok assms(2)] by (simp only: option.case) blast
    let ?l = "if m + (HDR + MINIALLOC) \<le> l then m else l"
    have "live h' = (live h)(q + HDR \<mapsto> ?l)" "live h (q + HDR) = None"
      using live_eq [OF ok] live_eq [OF a(5)] a(6) live_of_cut(1) [of "q + HDR" "start_addr h" xs m l ys]
        live_of_cut(2) [of "q + HDR" "start_addr h" xs l ys] unfolding a(1,2) by (simp_all add: same_place_def)
    moreover have "heap_wf h'" using a(5) by (auto simp: heap_wf_def)
    moreover have "m \<le> ?l" "?l < m + (HDR + MINIALLOC)" "0 < q + HDR" using a(3) by auto
    ultimately show ?thesis using a(4,6) by blast
  qed
qed

text \<open>When a request is refused.\<close>

lemma alloc_refused:
  assumes "heap_ok h ss fs" and "m = block_request n"
  shows "rt_memheap_alloc n h = Some (0, h) \<longleftrightarrow> \<not> (m < available_size h \<and> (\<exists>l. (l, False) \<in> set ss \<and> m \<le> l))"
proof -
  have none: "first_fit h m fs = None \<longleftrightarrow> (\<nexists>l. (l, False) \<in> set ss \<and> m \<le> l)"
  proof
    assume f: "first_fit h m fs = None"
    show "\<nexists>l. (l, False) \<in> set ss \<and> m \<le> l"
    proof
      assume "\<exists>l. (l, False) \<in> set ss \<and> m \<le> l"
      then obtain l xs ys where x: "ss = xs @ (l, False) # ys" "m \<le> l" by (auto simp: in_set_conv_decomp)
      let ?q = "seg_end (start_addr h) xs"
      have "?q \<in> set fs" using heap_okD(6) [OF assms(1)] x(1) by simp
      moreover have "nx h ?q = ?q + HDR + l" using block_links(3) [OF heap_base_ok [OF assms(1) [unfolded x(1)]] refl] .
      ultimately show False using f x(2) by (auto simp: first_fit_def find_None_iff)
    qed
  next
    assume no: "\<nexists>l. (l, False) \<in> set ss \<and> m \<le> l"
    show "first_fit h m fs = None"
      unfolding first_fit_def find_None_iff
    proof
      assume "\<exists>q. q \<in> set fs \<and> m \<le> nx h q - q - HDR"
      then obtain q where q: "q \<in> set fs" "m \<le> nx h q - q - HDR" by blast
      obtain xs l ys where x: "ss = xs @ (l, False) # ys" "q = seg_end (start_addr h) xs"
        using free_block_split [OF heap_base_ok [OF assms(1)] q(1)] by blast
      have "nx h q = q + HDR + l" using block_links(3) [OF heap_base_ok [OF assms(1) [unfolded x(1)]] x(2)] .
      then show False using no q(2) x(1) by auto
    qed
  qed
  show ?thesis
  proof (cases "m < available_size h \<and> first_fit h m fs \<noteq> None")
    case True
    then obtain q where "first_fit h m fs = Some q" by blast
    then show ?thesis using alloc_cases [OF assms] True none by auto
  next
    case False
    then have "(if m < available_size h then first_fit h m fs else None) = None" by auto
    then have "rt_memheap_alloc n h = Some (0, h)" using alloc_cases [OF assms] by (simp only: option.case)
    then show ?thesis using False none by auto
  qed
qed

lemma live_of_resize:
  assumes "p = seg_end a xs + HDR" and "live_of (p + n) ys = live_of (p + l) zs"
  shows "live_of a (xs @ (n, True) # ys) = (live_of a (xs @ (l, True) # zs))(p \<mapsto> n)"
proof -
  have out: "live_of a xs p = None" using live_of_range [of a xs p] assms(1) by fastforce
  have e: "seg_end a xs + HDR + n = p + n" "seg_end a xs + HDR + l = p + l" using assms(1) by simp_all
  show ?thesis
    unfolding live_of_simps e assms(2) using out assms(1) by (auto simp: fun_eq_iff map_add_def split: option.split)
qed

lemma copy_bytes_same: "i < n \<Longrightarrow> copy_bytes dst src n b (dst + i) = b (src + i)"
  by (simp add: copy_bytes_def)

lemma copy_bytes_other: "a < dst \<or> dst + n \<le> a \<Longrightarrow> copy_bytes dst src n b a = b a"
  by (auto simp: copy_bytes_def)

text \<open>\<open>moved\<close>: what a successful reallocation from \<open>p\<close>, of \<open>l\<close> bytes, to \<open>p'\<close> has done.\<close>

definition moved :: "memheap \<Rightarrow> bytes \<Rightarrow> nat \<Rightarrow> nat \<Rightarrow> nat \<Rightarrow> nat \<Rightarrow> memheap \<Rightarrow> bytes \<Rightarrow> bool" where
  "moved h b p l m p' h' b' \<longleftrightarrow> heap_wf h' \<and> same_place h h' \<and> 0 < p' \<and> (p' \<noteq> p \<longrightarrow> live h p' = None) \<and>
     (\<exists>l'. m \<le> l' \<and> live h' = (live h)(p := None, p' \<mapsto> l') \<and> (\<forall>a. a < p' \<or> p' + l' \<le> a \<longrightarrow> b' a = b a)) \<and>
     (\<forall>i. i < l \<longrightarrow> i < m \<longrightarrow> b' (p' + i) = b (p + i))"

lemma move_spec:
  assumes "heap_wf h" and "live h p = Some l" and "m = block_request m" and "l < m"
  shows "move_block m l p h b = Some (0, h, b) \<or> (\<exists>p' h' b'. move_block m l p h b = Some (p', h', b') \<and> moved h b p l m p' h' b')"
proof -
  consider "rt_memheap_alloc m h = Some (0, h)"
    | p' l' h1 where "rt_memheap_alloc m h = Some (p', h1)" "heap_wf h1" "same_place h h1" "0 < p'" "live h p' = None" "m \<le> l'"
      "live h1 = (live h)(p' \<mapsto> l')"
    using alloc_spec [OF assms(1,3)] by blast
  then show ?thesis
  proof cases
    case 2
    then have ne: "p' \<noteq> p" "live h1 p = Some l" using assms(2) by auto
    obtain h2 where h2: "rt_memheap_free p h1 = Some h2" "heap_wf h2" "same_place h1 h2" "live h2 = (live h1)(p := None)"
      using free_spec [OF 2(2) ne(2)] by blast
    let ?b = "copy_bytes p' p l b"
    have "?b a = b a" if "a < p' \<or> p' + l' \<le> a" for a using that 2(6) assms(4) by (intro copy_bytes_other) auto
    moreover have "live h2 = (live h)(p := None, p' \<mapsto> l')" using h2(4) 2(7) ne(1) by (simp add: fun_upd_twist)
    ultimately have "moved h b p l m p' h2 ?b"
      unfolding moved_def using h2(2,3) 2(3-6) by (auto simp: same_place_def copy_bytes_same)
    moreover have "move_block m l p h b = Some (p', h2, ?b)" using 2(1,4) h2(1) assms(4) by (simp add: move_block_def)
    ultimately show ?thesis by blast
  qed (simp add: move_block_def)
qed

lemma block_request_idem: "block_request (block_request n) = block_request n"
proof -
  have "align_up n < 2 ^ 32" unfolding align_up_def add32_def by (rule le_less_trans [of _ "(n + 3) mod 2 ^ 32"]) simp_all
  then have m: "block_request n < 2 ^ 32" "block_request n mod 4 = 0" "MINIALLOC \<le> block_request n"
    using block_request_facts [of n] by (simp_all add: block_request_def Let_def)
  obtain k where k: "block_request n = 4 * k" using m(2) by (metis mod_0_imp_dvd dvdE)
  then have "block_request n + 3 < 2 ^ 32" using m(1) by simp
  then have "align_up (block_request n) = (block_request n + 3) div 4 * 4" by (simp add: align_up_def add32_less)
  also have "\<dots> = block_request n" using m(2) by presburger
  finally show ?thesis using m(3) by (simp add: block_request_def [of "block_request n"] Let_def)
qed

lemma realloc_spec:
  assumes "heap_wf h" and "live h p = Some l" and "0 < n" and "m = block_request n" and "m + MINIALLOC < 2 ^ 32"
  shows "rt_memheap_realloc p n h b = Some (0, h, b) \<or>
    (\<exists>p' h' b'. rt_memheap_realloc p n h b = Some (p', h', b') \<and> moved h b p l m p' h' b')"
proof -
  obtain ss fs where ok: "heap_ok h ss fs" using assms(1) by (auto simp: heap_wf_def)
  obtain xs ys where x: "ss = xs @ (l, True) # ys" "p = seg_end (start_addr h) xs + HDR"
    using assms(2) live_eq [OF ok] by (auto simp: live_of_Some)
  let ?q = "seg_end (start_addr h) xs"
  note okx = ok [unfolded x(1)] and base = heap_base_ok [OF ok [unfolded x(1)]]
  note bd = heap_bounds [OF base refl] and lk = block_links [OF base refl] and nb = next_block [OF base refl]
  have p: "sub32 p HDR = ?q" "p \<noteq> 0" using bd(2,3) x(2) sub32_le [of HDR p] by simp_all
  obtain it where it: "items h ?q = Some it" "inext it = ?q + HDR + l" using lk(1,3) by (auto simp: nx_def)
  obtain r where r: "items h (?q + HDR + l) = Some r" "used r = us h (?q + HDR + l)" using nb(1) by (auto simp: us_def)
  note mf = block_request_facts [of n, folded assms(4)]
  have resized: "moved h b p l m p h' b" if "heap_ok h' (xs @ (m, True) # ys') gs" "same_place h h'" "live_of (p + m) ys' = live_of (p + l) ys" for h' ys' gs
  proof -
    have "live h' = (live h)(p \<mapsto> m)"
      using live_eq [OF ok] live_eq [OF that(1)] that(2) live_of_resize [OF x(2) that(3)] x(1) by (simp add: same_place_def)
    then show ?thesis unfolding moved_def using that(1,2) p(2) by (auto simp: heap_wf_def)
  qed
  show ?thesis
  proof (cases "l < m")
    case True
    show ?thesis
    proof (cases "\<not> used r \<and> (\<exists>k zs. ys = (k, False) # zs \<and> m + MINIALLOC < k + l)")
      case True
      then obtain k zs where y: "\<not> used r" "ys = (k, False) # zs" "m + MINIALLOC < k + l" by blast
      obtain j where j: "m + j = l + k" "MINIALLOC \<le> j"
      proof
        show "m + (l + k - m) = l + k" "MINIALLOC \<le> l + k - m" using y(3) by linarith+
      qed
      obtain h' gs where h': "grow_block m l ?q h = Some h'" "heap_ok h' (xs @ (m, True) # (j, False) # zs) gs" "same_place h h'"
        using grow_ok [OF okx [unfolded y(2)] refl refl j(1) \<open>l < m\<close> mf(2) j(2)] by blast
      have sz: "item_size (?q + HDR + l) h = Some k"
        using block_links(4) [of h "xs @ [(l, True)]" k False zs fs] base y(2) by simp
      have "?q + HDR + l + HDR + k + HDR \<le> start_addr h + pool_size h"
        using heap_bounds(2) [of h "xs @ [(l, True)]" k False zs fs] base y(2) by simp
      then have "add32 k l = k + l" "add32 m MINIALLOC = m + MINIALLOC" using bd(3) assms(5) by (simp_all add: add32_less)
      then have e: "rt_memheap_realloc p n h b = Some (p, h', b)"
        using assms(3) p it r lk(4) \<open>l < m\<close> y(1,3) sz h'(1) by (simp add: rt_memheap_realloc_def assms(4) [symmetric] Let_def)
      have "p + m + HDR + j = p + l + HDR + k" using j(1) by simp
      then have "live_of (p + m) ((j, False) # zs) = live_of (p + l) ys"
        unfolding y(2) live_of_simps by (simp only: if_False)
      from resized [OF h'(2,3) this] show ?thesis using e by blast
    next
      case False
      obtain s where s: "item_size (?q + HDR + l) h = Some s" using r(1) by (simp add: item_size_def)
      have "\<not> (\<not> used r \<and> add32 m MINIALLOC < add32 s l)"
      proof
        assume a: "\<not> used r \<and> add32 m MINIALLOC < add32 s l"
        then obtain k zs where y: "ys = (k, False) # zs" using r(2) nb(2) by (cases ys) auto
        have "s = k" using block_links(4) [of h "xs @ [(l, True)]" k False zs fs] base y s by simp
        moreover have "?q + HDR + l + HDR + k + HDR \<le> start_addr h + pool_size h"
          using heap_bounds(2) [of h "xs @ [(l, True)]" k False zs fs] base y by simp
        then have "add32 k l = k + l" "add32 m MINIALLOC = m + MINIALLOC" using bd(3) assms(5) by (simp_all add: add32_less)
        ultimately show False using a False y by auto
      qed
      then have "rt_memheap_realloc p n h b = move_block m l p h b"
        using assms(3) p it r(1) lk(4) \<open>l < m\<close> s by (auto simp: rt_memheap_realloc_def assms(4) [symmetric] Let_def)
      then show ?thesis using move_spec [OF assms(1,2) _ \<open>l < m\<close>] block_request_idem [of n] assms(4) by simp
    qed
  next
    case False
    show ?thesis
    proof (cases "m + (HDR + MINIALLOC) < l")
      case True
      then obtain j where j: "l = m + HDR + j" "MINIALLOC \<le> j" by (metis add.assoc add_le_cancel_left le_iff_add less_imp_le_nat)
      obtain h' gs where h': "shrink_block m ?q h = Some h'" "heap_ok h' (xs @ (m, True) # join_right j ys) gs" "same_place h h'"
        using shrink_ok [OF okx [unfolded j(1)] refl refl mf j(2)] by blast
      have "add32 m (HDR + MINIALLOC) = m + (HDR + MINIALLOC)" using True bd(2,3) by (intro add32_less) linarith
      then have e: "rt_memheap_realloc p n h b = Some (p, h', b)"
        using assms(3) p it lk(4) False True h'(1) by (simp add: rt_memheap_realloc_def assms(4) [symmetric] Let_def)
      have "live_of (p + m) (join_right j ys) = live_of (p + l) ys"
        using j(1) by (cases "(j, ys)" rule: join_right.cases) (simp_all add: add_ac)
      from resized [OF h'(2,3) this] show ?thesis using e by blast
    next
      case F: False
      have "add32 m (HDR + MINIALLOC) = m + (HDR + MINIALLOC)" using False bd(2,3) by (intro add32_less) linarith
      then have e: "rt_memheap_realloc p n h b = Some (p, h, b)"
        using assms(3) p it lk(4) False F by (simp add: rt_memheap_realloc_def assms(4) [symmetric] Let_def)
      have "moved h b p l m p h b"
        unfolding moved_def using assms(1,2) False p(2) by (auto intro!: exI [of _ l])
      then show ?thesis using e by blast
    qed
  qed
qed

section \<open>Properties\<close>

text \<open>The heaps that a program can get to that frees and reallocates only what it holds.\<close>

inductive heap_reachable :: "nat \<Rightarrow> nat \<Rightarrow> nat \<Rightarrow> memheap \<Rightarrow> bool" for flist start n where
  initial: "heap_reachable flist start n (rt_memheap_init flist start n)"
| alloc: "heap_reachable flist start n h \<Longrightarrow> rt_memheap_alloc k h = Some (p, h') \<Longrightarrow> heap_reachable flist start n h'"
| free: "heap_reachable flist start n h \<Longrightarrow> live h p \<noteq> None \<Longrightarrow> rt_memheap_free p h = Some h' \<Longrightarrow> heap_reachable flist start n h'"
| realloc: "heap_reachable flist start n h \<Longrightarrow> live h p \<noteq> None \<Longrightarrow> 0 < k \<Longrightarrow> block_request k + MINIALLOC < 2 ^ 32 \<Longrightarrow>
    rt_memheap_realloc p k h b = Some (p', h', b') \<Longrightarrow> heap_reachable flist start n h'"

lemma reachable_wf:
  assumes "heap_reachable flist start n h" and "region_ok flist start n"
  shows "heap_wf h \<and> same_place (rt_memheap_init flist start n) h"
  using assms(1)
proof (induction rule: heap_reachable.induct)
  case initial
  then show ?case using init_ok(1) [OF assms(2)] by (auto simp: heap_wf_def)
next
  case (alloc h k p h')
  then show ?case using alloc_spec [of h "block_request k" k] by (auto simp: same_place_def)
next
  case (free h p h')
  then show ?case using free_spec [of h p] by (auto simp: same_place_def)
next
  case (realloc h p k b p' h' b')
  then obtain l where "live h p = Some l" by blast
  from realloc_spec [OF _ this realloc.hyps(3) refl realloc.hyps(4), of b] realloc show ?case
    by (auto simp: moved_def same_place_def)
qed

lemma init_place:
  "start_addr (rt_memheap_init flist start n) = start" "pool_size (rt_memheap_init flist start n) = align_down n"
  "free_list (rt_memheap_init flist start n) = flist"
  by (simp_all add: rt_memheap_init_def Let_def)

text \<open>Property C20. The heap's structure is always intact: its headers are those of blocks that lie one behind the other
  and fill the pool up to the header at its end, with both rings closed in both directions; the free list has exactly the
  unused blocks, no two of which are neighbours; every block has a size of at least 12 that is a multiple of four;
  \<open>available_size\<close> is the sum of the unused sizes.\<close>

theorem heap_wellformed:
  assumes "region_ok flist start n" and "heap_reachable flist start n h"
  shows "\<exists>ss fs. ring (nx h) (pv h) (addrs start ss) \<and> ring (nf h) (pf h) (flist # fs) \<and>
    dom (items h) = insert flist (set (addrs start ss)) \<and> (\<forall>(a, m, u) \<in> set (lay start ss). us h a = u) \<and>
    start + align_down n = seg_end start ss + HDR \<and> set fs = set (free_addrs start ss) \<and>
    list_all (\<lambda>(m, _). MINIALLOC \<le> m \<and> m mod 4 = 0) ss \<and> successively (\<lambda>s t. snd s \<or> snd t) ss \<and>
    available_size h = free_sum ss"
proof -
  obtain ss fs where ok: "heap_ok h ss fs" and p: "same_place (rt_memheap_init flist start n) h"
    using reachable_wf [OF assms(2,1)] by (auto simp: heap_wf_def)
  have e: "start_addr h = start" "pool_size h = align_down n" "free_list h = flist" using p by (simp_all add: same_place_def init_place)
  show ?thesis
    using ok unfolding heap_ok_def heap_base_def e by (intro exI [of _ ss] exI [of _ fs]) blast
qed

theorem heap_wellformed_witness:
  "\<exists>h ss fs. rt_memheap_alloc 10 (rt_memheap_init 64 4096 1024) = Some (4120, h) \<and>
    ring (nx h) (pv h) (addrs 4096 ss) \<and> ring (nf h) (pf h) (64 # fs) \<and> available_size h = free_sum ss"
proof -
  let ?h = "rt_memheap_init 64 4096 1024"
  have r: "region_ok 64 4096 1024" by (simp add: region_ok_def)
  note ok = init_ok(1) [OF r]
  have b: "block_request 10 = 12" by (simp add: block_request_def align_up_def add32_def)
  have a: "available_size ?h = 976" "start_addr ?h = 4096"
    by (simp_all add: rt_memheap_init_def align_down_def sub32_def Let_def)
  have "nx ?h 4096 = 5096" by (simp add: rt_memheap_init_def nx_def align_down_def sub32_def add32_def Let_def)
  then have "first_fit ?h 12 [4096] = Some 4096" by (simp add: first_fit_def)
  then obtain h where h: "rt_memheap_alloc 10 ?h = Some (4120, h)" using alloc_cases [OF ok refl, of 10] a b by auto
  have "heap_reachable 64 4096 1024 h" by (rule heap_reachable.alloc [OF heap_reachable.initial h])
  from heap_wellformed [OF r this] h show ?thesis by blast
qed

lemma coalesced:
  assumes "region_ok flist start n" and "heap_reachable flist start n h" and "live h = Map.empty"
  shows "heap_ok h [(align_down n - 2 * HDR, False)] [start]"
proof -
  obtain ss fs where ok: "heap_ok h ss fs" and p: "same_place (rt_memheap_init flist start n) h"
    using reachable_wf [OF assms(2,1)] by (auto simp: heap_wf_def)
  have e: "start_addr h = start" "pool_size h = align_down n" using p by (simp_all add: same_place_def init_place)
  have "2 * HDR \<le> align_down n" using assms(1) unfolding region_ok_def align_down_def by presburger
  then have ss: "ss = [(align_down n - 2 * HDR, False)]" using no_live_blocks [OF ok assms(3)] e(2) by simp
  have fs: "distinct fs" "set fs = {start}" using base_in_items(3) [OF heap_base_ok [OF ok]] heap_okD(6) [OF ok] ss e(1) by auto
  have "fs = [start]"
  proof (cases fs)
    case (Cons a as)
    then have "a = start" "set as \<subseteq> {start}" "start \<notin> set as" using fs by auto
    then have "as = []" by (cases as) auto
    then show ?thesis using Cons \<open>a = start\<close> by simp
  qed (use fs in simp)
  then show ?thesis using ok ss by simp
qed

lemma alloc_all_free:
  assumes "region_ok flist start n" and "heap_reachable flist start n h" and "live h = Map.empty"
    and "block_request k < align_down n - 2 * HDR"
  shows "available_size h = align_down n - 2 * HDR \<and> nf h flist = start \<and> nx h start = start + (align_down n - HDR) \<and>
    (\<exists>h' l. rt_memheap_alloc k h = Some (start + HDR, h') \<and> live h' = [start + HDR \<mapsto> l] \<and> block_request k \<le> l)"
proof -
  let ?l = "align_down n - 2 * HDR"
  note ok = coalesced [OF assms(1-3)]
  have "same_place (rt_memheap_init flist start n) h" using reachable_wf [OF assms(2,1)] by blast
  then have e: "start_addr h = start" "free_list h = flist" by (simp_all add: same_place_def init_place)
  have avail: "available_size h = ?l" using heap_okD(8) [OF ok] by simp
  have nf: "nf h flist = start" using ring_next [of "nf h" "pf h" "[]" flist start "[]"] heap_okD(2) [OF ok] e(2) by simp
  have two: "2 * HDR \<le> align_down n" using assms(1) unfolding region_ok_def align_down_def by presburger
  have "heap_base h ([] @ (?l, False) # []) [start]" "start = seg_end (start_addr h) []" using heap_base_ok [OF ok] e(1) by simp_all
  note nx = block_links(3) [OF this]
  have "first_fit h (block_request k) [start] = Some start" using nx assms(4) by (simp add: first_fit_def)
  then obtain xs l ys h' gs where a: "[(?l, False)] = xs @ (l, False) # ys" "block_request k \<le> l" "rt_memheap_alloc k h = Some (start + HDR, h')"
      "heap_ok h' (xs @ cut_seg (block_request k) l @ ys) gs" "same_place h h'"
    using alloc_cases [OF ok refl, of k] avail assms(4) by auto
  have x: "xs = []" "ys = []" "l = ?l" using a(1) by (cases xs; simp)+
  have "live h' = live_of start (cut_seg (block_request k) ?l)" using live_eq [OF a(4)] a(5) e(1) x by (simp add: same_place_def)
  also have "\<dots> = [start + HDR \<mapsto> if block_request k + (HDR + MINIALLOC) \<le> ?l then block_request k else ?l]" by (simp add: cut_seg_def)
  finally show ?thesis using avail nf nx two a(2,3) x(3) by auto
qed

text \<open>Property C22. Nothing is lost by splitting: when every block has been given back, in whatever order, the free blocks have
  grown together into the one the heap began with, and the next request that it can hold is served from its start.\<close>

theorem heap_coalesces:
  assumes "region_ok flist start n" and "heap_reachable flist start n h" and "live h = Map.empty"
    and "block_request k < align_down n - 2 * HDR"
  shows "available_size h = align_down n - 2 * HDR \<and> nf h flist = start \<and> nx h start = start + (align_down n - HDR) \<and>
    (\<exists>h' l. rt_memheap_alloc k h = Some (start + HDR, h') \<and> live h' = [start + HDR \<mapsto> l] \<and> block_request k \<le> l)"
  by (rule alloc_all_free [OF assms])

theorem heap_coalesces_witness:
  "\<exists>h h'. rt_memheap_init 64 4096 1024 = h \<and> available_size h = 976 \<and> rt_memheap_alloc 100 h = Some (4120, h')"
proof -
  let ?h = "rt_memheap_init 64 4096 1024"
  have r: "region_ok 64 4096 1024" by (simp add: region_ok_def)
  have b: "block_request 100 < align_down 1024 - 2 * HDR" "align_down 1024 = 1024"
    by (simp_all add: block_request_def align_up_def add32_def align_down_def)
  from heap_coalesces [OF r heap_reachable.initial init_ok(2) [OF r] b(1)] b(2) show ?thesis by auto
qed

text \<open>Property C39. The size check of a growing reallocation wraps: for a request of almost \<open>2 ^ 32\<close> bytes every free neighbour is found big enough,
  and the header of the rest is placed before the block's own bytes, over its own header.\<close>

theorem realloc_overwrites_header:
  assumes "heap_wf h" and "live h p = Some l" and "\<not> us h (p + l)" and "0 < n" and "2 ^ 32 \<le> block_request n + MINIALLOC"
  shows "add32 p (block_request n) < p \<and> p - HDR \<le> add32 p (block_request n) \<and> rt_memheap_realloc p n h b = None"
proof -
  obtain ss fs where ok: "heap_ok h ss fs" using assms(1) by (auto simp: heap_wf_def)
  obtain xs ys where x: "ss = xs @ (l, True) # ys" "p = seg_end (start_addr h) xs + HDR"
    using assms(2) live_eq [OF ok] by (auto simp: live_of_Some)
  let ?q = "seg_end (start_addr h) xs" and ?m = "block_request n"
  note base = heap_base_ok [OF ok [unfolded x(1)]]
  note bd = heap_bounds [OF base refl] and lk = block_links [OF base refl] and nb = next_block [OF base refl]
  have pl: "?q + HDR + l = p + l" using x(2) by simp
  obtain k zs where y: "ys = (k, False) # zs" using nb(2) assms(3) unfolding pl by (cases ys) auto
  have m: "?m < 2 ^ 32"
  proof -
    have "align_up n < 2 ^ 32" unfolding align_up_def add32_def by (rule le_less_trans [of _ "(n + 3) mod 2 ^ 32"]) simp_all
    then show ?thesis by (simp add: block_request_def Let_def)
  qed
  have base2: "heap_base h ((xs @ [(l, True)]) @ (k, False) # zs) fs" and p2: "p + l = seg_end (start_addr h) (xs @ [(l, True)])"
    using base y pl by simp_all
  note b2 = heap_bounds [OF base2 p2] and l2 = block_links [OF base2 p2]
  have p: "sub32 p HDR = ?q" "p \<noteq> 0" using bd(2,3) x(2) sub32_le [of HDR p] by simp_all
  have wrap: "add32 p ?m = p + ?m - 2 ^ 32" using assms(5) m x(2) bd(2,3) by (intro add32_wrap) linarith+
  have "add32 ?m MINIALLOC = ?m + MINIALLOC - 2 ^ 32" using assms(5) m by (intro add32_wrap) simp_all
  then have small: "add32 ?m MINIALLOC < MINIALLOC" using m by linarith
  have big: "add32 k l = k + l" "MINIALLOC \<le> k" using b2(2,3,5) x(2) by (simp_all add: add32_less)
  have "add32 ?q HDR = p" unfolding x(2) using bd(2,3) by (intro add32_less) linarith
  then have q: "add32 (add32 ?q HDR) ?m = p + ?m - 2 ^ 32" using wrap by simp
  let ?g = "note_used (h\<lparr>available_size := sub32 (available_size h) (sub32 ?m l)\<rparr>)"
  have "p + l \<in> set fs" unfolding heap_okD(6) [OF ok] x(1) y pl [symmetric] by simp
  moreover have "heap_base ?g (xs @ (l, True) # (k, False) # zs) fs" using base unfolding y heap_base_counters .
  moreover have "?q = seg_end (start_addr ?g) xs" by simp
  ultimately obtain h1 h2 where h2: "unlink_free (p + l) ?g = Some h1" "unlink_block (p + l) h1 = Some h2"
    using absorb_block(2) [where r = "p + l"] pl [symmetric] by blast
  have lt: "p + ?m - 2 ^ 32 < ?q + HDR" using m x(2) by linarith
  obtain it where it: "items h ?q = Some it" "inext it = p + l" using lk(1,3) pl by (auto simp: nx_def)
  have "cut_block (p + ?m - 2 ^ 32) ?q (drop_item (p + l) h2) = None" using lt by (simp add: cut_block_def)
  then have none: "grow_block ?m l ?q h = None" using it h2(1,2) q by (simp add: grow_block_def)
  obtain r where r: "items h (p + l) = Some r" "\<not> used r" using l2(1) assms(3) by (auto simp: us_def)
  have "l < ?m" using assms(5) b2(2,3) x(2) by linarith
  then have "rt_memheap_realloc p n h b = None"
    using assms(4) p it r l2(4) lk(4) small big none x(2) by (simp add: rt_memheap_realloc_def Let_def)
  moreover have "p + ?m - 2 ^ 32 < p" "p - HDR \<le> p + ?m - 2 ^ 32" using m assms(5) x(2) by linarith+
  ultimately show ?thesis unfolding wrap by blast
qed

theorem realloc_overwrites_header_witness:
  "\<exists>h l. rt_memheap_alloc 10 (rt_memheap_init 64 4096 1024) = Some (4120, h) \<and> live h 4120 = Some l \<and>
    rt_memheap_realloc 4120 4294967284 h (\<lambda>_. 0) = None"
proof -
  let ?h = "rt_memheap_init 64 4096 1024"
  have r: "region_ok 64 4096 1024" by (simp add: region_ok_def)
  have ok: "heap_ok ?h [(976, False)] [4096]" using init_ok(1) [OF r] by (simp add: align_down_def)
  have b: "block_request 10 = 12" "block_request 4294967284 = 4294967284" by (simp_all add: block_request_def align_up_def add32_def)
  have a: "available_size ?h = 976" "start_addr ?h = 4096"
    by (simp_all add: rt_memheap_init_def align_down_def sub32_def Let_def)
  have "nx ?h 4096 = 5096" by (simp add: rt_memheap_init_def nx_def align_down_def sub32_def add32_def Let_def)
  then have "first_fit ?h 12 [4096] = Some 4096" by (simp add: first_fit_def)
  then obtain xs l ys h gs where h: "[(976, False)] = xs @ (l, False) # ys" "rt_memheap_alloc 10 ?h = Some (4120, h)"
      "heap_ok h (xs @ cut_seg 12 l @ ys) gs" "same_place ?h h"
    using alloc_cases [OF ok refl, of 10] a b by auto
  have x: "xs = []" "ys = []" "l = 976" using h(1) by (cases xs; simp)+
  have s: "start_addr h = 4096" using h(4) a(2) by (simp add: same_place_def)
  have ok': "heap_ok h [(12, True), (940, False)] gs" using h(3) x by (simp add: cut_seg_def)
  have wf: "heap_wf h" using ok' by (auto simp: heap_wf_def)
  have live: "live h 4120 = Some 12" using live_eq [OF ok'] s by simp
  have u: "\<not> us h (4120 + 12)" using heap_okD(4) [OF ok'] s by simp
  have big: "(2::nat) ^ 32 \<le> block_request 4294967284 + MINIALLOC" using b(2) by simp
  from realloc_overwrites_header [OF wf live u _ big] h(2) live show ?thesis by auto
qed

end
