(* ===== verification/SysHeap.thy ===== *)
theory SysHeap
  imports MemHeap
begin

text \<open>
  \<open>rt_malloc\<close> and its relatives (the end of \<open>memheap.c\<close>): the heap of the system and the other heaps, which are tried
  when it has no room.  The locale \<open>allocator\<close> is what a client of an allocator relies on; it is interpreted
  on a single heap and on the system.
\<close>

section \<open>The system's heaps\<close>

text \<open>\<open>heap_of\<close> is the \<open>pool_ptr\<close> of a block's header. The list of heap objects has the newest first.\<close>

record mem_sys =
  heaps :: "nat \<rightharpoonup> memheap"
  heap_objs :: "nat list"
  contents :: bytes

abbreviation (input) SYS_HEAP :: nat where "SYS_HEAP \<equiv> 0"

definition heap_init :: "nat \<Rightarrow> nat \<Rightarrow> nat \<Rightarrow> nat \<Rightarrow> mem_sys \<Rightarrow> mem_sys" where
  "heap_init i flist start n s = s\<lparr>heaps := (heaps s)(i \<mapsto> rt_memheap_init flist start n), heap_objs := i # heap_objs s\<rparr>"

definition rt_system_heap_init :: "nat \<Rightarrow> nat \<Rightarrow> nat \<Rightarrow> mem_sys \<Rightarrow> mem_sys" where
  "rt_system_heap_init flist begin_addr end_addr s = heap_init SYS_HEAP flist begin_addr (sub32 end_addr begin_addr) s"

definition heap_of :: "nat \<Rightarrow> mem_sys \<Rightarrow> nat option" where
  "heap_of ptr s = find (\<lambda>i. case heaps s i of Some h \<Rightarrow> items h (sub32 ptr HDR) \<noteq> None | None \<Rightarrow> False) (heap_objs s)"

definition alloc_in :: "nat \<Rightarrow> nat \<Rightarrow> mem_sys \<Rightarrow> (nat \<times> mem_sys) option" where
  "alloc_in i n s =
     do { h \<leftarrow> heaps s i; (ptr, h1) \<leftarrow> rt_memheap_alloc n h; Some (ptr, s\<lparr>heaps := (heaps s)(i \<mapsto> h1)\<rparr>) }"

fun malloc_others :: "nat list \<Rightarrow> nat \<Rightarrow> mem_sys \<Rightarrow> (nat \<times> mem_sys) option" where
  "malloc_others [] n s = Some (0, s)"
| "malloc_others (i # is) n s =
     (if i = SYS_HEAP then malloc_others is n s
      else do { (ptr, s1) \<leftarrow> alloc_in i n s; if ptr \<noteq> 0 then Some (ptr, s1) else malloc_others is n s1 })"

definition rt_malloc :: "nat \<Rightarrow> mem_sys \<Rightarrow> (nat \<times> mem_sys) option" where
  "rt_malloc n s =
     do { (ptr, s1) \<leftarrow> alloc_in SYS_HEAP n s; if ptr = 0 then malloc_others (heap_objs s1) n s1 else Some (ptr, s1) }"

definition rt_free :: "nat \<Rightarrow> mem_sys \<Rightarrow> mem_sys option" where
  "rt_free ptr s =
     (if ptr = 0 then Some s
      else do { i \<leftarrow> heap_of ptr s; h \<leftarrow> heaps s i; h1 \<leftarrow> rt_memheap_free ptr h; Some (s\<lparr>heaps := (heaps s)(i \<mapsto> h1)\<rparr>) })"

definition block_size :: "nat \<Rightarrow> mem_sys \<Rightarrow> nat option" where
  "block_size ptr s = do { i \<leftarrow> heap_of ptr s; h \<leftarrow> heaps s i; item_size (sub32 ptr HDR) h }"

definition rt_realloc :: "nat \<Rightarrow> nat \<Rightarrow> mem_sys \<Rightarrow> (nat \<times> mem_sys) option" where
  "rt_realloc ptr newsize s =
     (if ptr = 0 then rt_malloc newsize s
      else if newsize = 0 then do { s1 \<leftarrow> rt_free ptr s; Some (0, s1) }
      else do { i \<leftarrow> heap_of ptr s;
                h \<leftarrow> heaps s i;
                (new, h1, m) \<leftarrow> rt_memheap_realloc ptr newsize h (contents s);
                let s1 = s\<lparr>heaps := (heaps s)(i \<mapsto> h1), contents := m\<rparr>;
                if new \<noteq> 0 then Some (new, s1)
                else do { (new, s2) \<leftarrow> rt_malloc newsize s1;
                          if new = 0 then Some (0, s2)
                          else do { oldsize \<leftarrow> block_size ptr s2;
                                    s3 \<leftarrow> rt_free ptr (s2\<lparr>contents :=
                                      copy_bytes new ptr (if newsize > oldsize then oldsize else newsize) (contents s2)\<rparr>);
                                    Some (new, s3) } } })"

definition rt_calloc :: "nat \<Rightarrow> nat \<Rightarrow> mem_sys \<Rightarrow> (nat \<times> mem_sys) option" where
  "rt_calloc count n s =
     do { let total = count * n mod 2 ^ 32;
          (ptr, s1) \<leftarrow> rt_malloc total s;
          if ptr \<noteq> 0 then Some (ptr, s1\<lparr>contents := (\<lambda>a. if ptr \<le> a \<and> a < ptr + total then 0 else contents s1 a)\<rparr>)
          else Some (0, s1) }"

section \<open>The contract of an allocator\<close>

text \<open>A client's requests: memory of a size, or giving back the block with the given number among those it holds.\<close>

datatype request = Get nat | Release nat

fun serve ::
  "(nat \<Rightarrow> 's \<Rightarrow> (nat \<times> 's) option) \<Rightarrow> (nat \<Rightarrow> 's \<Rightarrow> 's option) \<Rightarrow> request list \<Rightarrow> nat list \<Rightarrow> 's \<Rightarrow> (nat list \<times> 's) option" where
  "serve al fr [] held s = Some (held, s)"
| "serve al fr (Get n # rs) held s = do { (p, s1) \<leftarrow> al n s; serve al fr rs (if p = 0 then held else p # held) s1 }"
| "serve al fr (Release i # rs) held s =
     (if i < length held then do { s1 \<leftarrow> fr (held ! i) s; serve al fr rs (take i held @ drop (i + 1) held) s1 }
      else serve al fr rs held s)"

locale allocator =
  fixes ok :: "'s \<Rightarrow> bool"
    and blocks :: "'s \<Rightarrow> nat \<rightharpoonup> nat"
    and alloc :: "nat \<Rightarrow> 's \<Rightarrow> (nat \<times> 's) option"
    and free :: "nat \<Rightarrow> 's \<Rightarrow> 's option"
  assumes alloc_law: "ok s \<Longrightarrow> \<exists>p s'. alloc n s = Some (p, s') \<and> ok s' \<and>
      (if p = 0 then s' = s else blocks s p = None \<and> (\<exists>l. block_request n \<le> l \<and> blocks s' = (blocks s)(p \<mapsto> l)))"
    and free_law: "ok s \<Longrightarrow> blocks s p = Some l \<Longrightarrow> \<exists>s'. free p s = Some s' \<and> ok s' \<and> blocks s' = (blocks s)(p := None)"
    and apart_law: "ok s \<Longrightarrow> blocks s p = Some l \<Longrightarrow> blocks s q = Some k \<Longrightarrow> p \<noteq> q \<Longrightarrow> p + l \<le> q \<or> q + k \<le> p"
begin

text \<open>A client that only gives back what it holds is always served, and holds exactly the live blocks.\<close>

lemma served:
  assumes "ok s" and "distinct held" and "dom (blocks s) = set held"
  shows "\<exists>held' s'. serve alloc free rs held s = Some (held', s') \<and> ok s' \<and> distinct held' \<and> dom (blocks s') = set held'"
  using assms
proof (induction rs arbitrary: held s)
  case (Cons r rs)
  show ?case
  proof (cases r)
    case (Get n)
    obtain p s1 where p: "alloc n s = Some (p, s1)" "ok s1"
        "if p = 0 then s1 = s else blocks s p = None \<and> (\<exists>l. block_request n \<le> l \<and> blocks s1 = (blocks s)(p \<mapsto> l))"
      using alloc_law [OF Cons.prems(1)] by blast
    let ?held = "if p = 0 then held else p # held"
    have "distinct ?held \<and> dom (blocks s1) = set ?held"
    proof (cases "p = 0")
      case False
      then obtain l where l: "blocks s p = None" "blocks s1 = (blocks s)(p \<mapsto> l)" using p(3) by auto
      then have "p \<notin> set held" "dom (blocks s1) = insert p (set held)" using Cons.prems(3) by auto
      then show ?thesis using Cons.prems(2) False by simp
    qed (use p(3) Cons.prems(2,3) in simp)
    then show ?thesis using Cons.IH [of s1 ?held] p(1,2) Get by simp
  next
    case (Release i)
    show ?thesis
    proof (cases "i < length held")
      case True
      let ?held = "take i held @ drop (i + 1) held"
      have held: "held = take i held @ held ! i # drop (i + 1) held" using id_take_nth_drop [OF True] by simp
      then have "held ! i \<in> dom (blocks s)" using Cons.prems(3) True by simp
      then obtain l where "blocks s (held ! i) = Some l" by blast
      from free_law [OF Cons.prems(1) this] obtain s1 where s1: "free (held ! i) s = Some s1" "ok s1" "blocks s1 = (blocks s)(held ! i := None)"
        by blast
      have "distinct (take i held @ held ! i # drop (i + 1) held)" "set held = set (take i held @ held ! i # drop (i + 1) held)"
        using Cons.prems(2) held by simp_all
      then have "distinct ?held \<and> dom (blocks s1) = set ?held" using s1(3) Cons.prems(3) by auto
      then show ?thesis using Cons.IH [of s1 ?held] s1(1,2) Release True by simp
    next
      case False
      then show ?thesis using Cons Release by simp
    qed
  qed
qed simp

text \<open>Giving everything back, the newest first, leaves no live block.\<close>

lemma drained:
  assumes "ok s" and "distinct held" and "dom (blocks s) = set held"
  shows "\<exists>s'. serve alloc free (replicate (length held) (Release 0)) held s = Some ([], s') \<and> ok s' \<and> blocks s' = Map.empty"
  using assms
proof (induction held arbitrary: s)
  case (Cons p held)
  then obtain l where "blocks s p = Some l" by auto
  from free_law [OF Cons.prems(1) this] obtain s1 where s1: "free p s = Some s1" "ok s1" "blocks s1 = (blocks s)(p := None)"
    by blast
  have d: "distinct held" "dom (blocks s1) = set held" using Cons.prems(2,3) s1(3) by auto
  show ?case using Cons.IH [OF s1(2) d] s1(1) by simp
qed simp

end

interpretation one_heap: allocator heap_wf live rt_memheap_alloc rt_memheap_free
proof unfold_locales
  fix h n assume wf: "heap_wf h"
  show "\<exists>p h'. rt_memheap_alloc n h = Some (p, h') \<and> heap_wf h' \<and>
      (if p = 0 then h' = h else live h p = None \<and> (\<exists>l. block_request n \<le> l \<and> live h' = (live h)(p \<mapsto> l)))"
    using alloc_spec [OF wf refl, of n] wf by fastforce
next
  fix h p l assume "heap_wf h" "live h p = Some l"
  from free_spec [OF this] show "\<exists>h'. rt_memheap_free p h = Some h' \<and> heap_wf h' \<and> live h' = (live h)(p := None)" by blast
next
  fix h p l q k assume "heap_wf h" "live h p = Some l" "live h q = Some k" "p \<noteq> q"
  from live_apart [OF this] show "p + l \<le> q \<or> q + k \<le> p" by auto
qed

section \<open>Several heaps\<close>

text \<open>The addresses of a heap's headers and blocks; the heaps of a system do not share any.\<close>

definition footprint :: "memheap \<Rightarrow> nat set" where
  "footprint h = insert (free_list h) {start_addr h..<start_addr h + pool_size h}"

definition sys_wf :: "mem_sys \<Rightarrow> bool" where
  "sys_wf s \<longleftrightarrow> SYS_HEAP \<in> set (heap_objs s) \<and> (\<forall>i \<in> set (heap_objs s). \<exists>h. heaps s i = Some h \<and> heap_wf h) \<and>
     (\<forall>i \<in> set (heap_objs s). \<forall>j \<in> set (heap_objs s). i \<noteq> j \<longrightarrow> footprint (the (heaps s i)) \<inter> footprint (the (heaps s j)) = {})"

definition sys_live :: "mem_sys \<Rightarrow> nat \<rightharpoonup> nat" where
  "sys_live s p = do { i \<leftarrow> heap_of p s; h \<leftarrow> heaps s i; live h p }"

lemma live_has_header:
  assumes "heap_wf h" and "live h p = Some n"
  shows "items h (sub32 p HDR) \<noteq> None" and "p - HDR \<in> footprint h"
proof -
  note i = live_inside [OF assms]
  have "sub32 p HDR = p - HDR" using i(1-3) by (intro sub32_le) linarith+
  then show "items h (sub32 p HDR) \<noteq> None" using assms(2) by (auto simp: live_def split: option.splits)
  have "start_addr h \<le> p - HDR" "p - HDR < start_addr h + pool_size h" using i(1,2,5) by linarith+
  then show "p - HDR \<in> footprint h" by (simp add: footprint_def)
qed

lemma header_in_footprint:
  assumes "heap_wf h" and "items h a \<noteq> None"
  shows "a \<in> footprint h"
proof -
  obtain ss fs where ok: "heap_ok h ss fs" using assms(1) by (auto simp: heap_wf_def)
  note d = heap_baseD [OF heap_base_ok [OF ok]]
  have "a \<in> insert (free_list h) (set (addrs (start_addr h) ss))" using assms(2) d(3) by (metis domIff)
  then show ?thesis using d(8) by (auto simp: addrs_def footprint_def dest: lay_range intro: seg_end_ge)
qed

lemma find_unique:
  assumes "i \<in> set xs" and "P i" and "\<And>j. j \<in> set xs \<Longrightarrow> P j \<Longrightarrow> j = i"
  shows "find P xs = Some i"
proof (cases "find P xs")
  case None
  then show ?thesis using assms(1,2) by (auto simp: find_None_iff)
next
  case (Some j)
  then have "j \<in> set xs" "P j" by (auto simp: find_Some_iff)
  then show ?thesis using assms(3) Some by blast
qed

lemma sys_wfD:
  assumes "sys_wf s" and "i \<in> set (heap_objs s)"
  shows "\<exists>h. heaps s i = Some h \<and> heap_wf h"
    and "j \<in> set (heap_objs s) \<Longrightarrow> i \<noteq> j \<Longrightarrow> heaps s i = Some h \<Longrightarrow> heaps s j = Some g \<Longrightarrow> footprint h \<inter> footprint g = {}"
proof -
  show "\<exists>h. heaps s i = Some h \<and> heap_wf h" using assms unfolding sys_wf_def by blast
  assume "j \<in> set (heap_objs s)" "i \<noteq> j" "heaps s i = Some h" "heaps s j = Some g"
  then show "footprint h \<inter> footprint g = {}" using assms unfolding sys_wf_def by (metis option.sel)
qed

lemma sys_live_in:
  assumes "sys_wf s" and "i \<in> set (heap_objs s)" and "heaps s i = Some h" and "live h p = Some n"
  shows "heap_of p s = Some i" and "sys_live s p = Some n"
proof -
  have wf: "heap_wf h" using sys_wfD(1) [OF assms(1,2)] assms(3) by auto
  note l = live_has_header [OF wf assms(4)] and ins = live_inside [OF wf assms(4)]
  have e: "sub32 p HDR = p - HDR" using ins(1-3) by (intro sub32_le) linarith+
  have uniq: "j = i" if j: "j \<in> set (heap_objs s)" and hj: "case heaps s j of Some h \<Rightarrow> items h (sub32 p HDR) \<noteq> None | None \<Rightarrow> False" for j
  proof (rule ccontr)
    assume "j \<noteq> i"
    obtain g where g: "heaps s j = Some g" "heap_wf g" using sys_wfD(1) [OF assms(1) j] by blast
    then have "p - HDR \<in> footprint g" using header_in_footprint hj e by simp
    then show False using l(2) sys_wfD(2) [OF assms(1) j assms(2) \<open>j \<noteq> i\<close> g(1) assms(3)] by blast
  qed
  show h: "heap_of p s = Some i"
    unfolding heap_of_def
  proof (rule find_unique [OF assms(2)])
    show "case heaps s i of Some h \<Rightarrow> items h (sub32 p HDR) \<noteq> None | None \<Rightarrow> False" using assms(3) l(1) by simp
  qed (rule uniq)
  show "sys_live s p = Some n" using h assms(3,4) by (simp add: sys_live_def)
qed

lemma sys_liveD:
  assumes "sys_wf s" and "sys_live s p = Some n"
  shows "\<exists>i h. i \<in> set (heap_objs s) \<and> heaps s i = Some h \<and> heap_wf h \<and> live h p = Some n \<and> heap_of p s = Some i"
proof -
  obtain i h where i: "heap_of p s = Some i" "heaps s i = Some h" "live h p = Some n"
    using assms(2) by (auto simp: sys_live_def bind_eq_Some_conv)
  then have o: "i \<in> set (heap_objs s)" by (auto simp: heap_of_def find_Some_iff)
  then have "heap_wf h" using sys_wfD(1) [OF assms(1) o] i(2) by auto
  then show ?thesis using i o by blast
qed

text \<open>A heap changes in place.\<close>

lemma sys_update:
  assumes "sys_wf s" and "i \<in> set (heap_objs s)" and "heaps s i = Some h" and "heap_wf h'" and "same_place h h'"
    and "s' = s\<lparr>heaps := (heaps s)(i \<mapsto> h'), contents := b\<rparr>"
  shows "sys_wf s'" and "sys_live s' = (\<lambda>p. if live h p = live h' p then sys_live s p else live h' p)"
proof -
  have f: "footprint h' = footprint h" using assms(5) by (simp add: same_place_def footprint_def)
  have "footprint (the (heaps s' j)) = footprint (the (heaps s j))" for j using assms(3,6) f by simp
  then show wf: "sys_wf s'" using assms(1,4) unfolding sys_wf_def by (simp add: assms(6))
  have i': "i \<in> set (heap_objs s')" "heaps s' i = Some h'" using assms(2,6) by simp_all
  have other: "sys_live s' p = Some n \<longleftrightarrow> sys_live s p = Some n" if "live h p = None" "live h' p = None" for p n
  proof
    assume "sys_live s' p = Some n"
    from sys_liveD [OF wf this] obtain j g where "j \<in> set (heap_objs s)" "heaps s' j = Some g" "live g p = Some n" using assms(6) by auto
    then show "sys_live s p = Some n" using sys_live_in(2) [OF assms(1)] that assms(6) by (auto split: if_splits)
  next
    assume "sys_live s p = Some n"
    from sys_liveD [OF assms(1) this] obtain j g where j: "j \<in> set (heap_objs s)" "heaps s j = Some g" "live g p = Some n" by blast
    then have "heaps s' j = Some g" "j \<in> set (heap_objs s')" using that(1) assms(3,6) by auto
    then show "sys_live s' p = Some n" using sys_live_in(2) [OF wf] j(3) by blast
  qed
  show "sys_live s' = (\<lambda>p. if live h p = live h' p then sys_live s p else live h' p)"
  proof
    fix p
    show "sys_live s' p = (if live h p = live h' p then sys_live s p else live h' p)"
    proof (cases "live h' p")
      case (Some n)
      then have "sys_live s' p = Some n" by (rule sys_live_in(2) [OF wf i'])
      then show ?thesis using Some sys_live_in(2) [OF assms(1-3)] by auto
    next
      case None
      show ?thesis
      proof (cases "live h p")
        case None
        have "sys_live s' p = sys_live s p" using other [OF None \<open>live h' p = None\<close>] by (metis not_None_eq)
        then show ?thesis using None \<open>live h' p = None\<close> by simp
      next
        case (Some n)
        have "sys_live s' p = None"
        proof (rule ccontr)
          assume "sys_live s' p \<noteq> None"
          then obtain k where "sys_live s' p = Some k" by blast
          from sys_liveD [OF wf this] obtain j g where j: "j \<in> set (heap_objs s')" "heaps s' j = Some g" "live g p = Some k" by blast
          then have "j \<noteq> i" using i'(2) None by auto
          then have "heap_of p s = Some j" using sys_live_in(1) [OF assms(1), of j g p k] j assms(6) by simp
          then show False using sys_live_in(1) [OF assms(1-3) Some] \<open>j \<noteq> i\<close> by simp
        qed
        then show ?thesis using Some None by simp
      qed
    qed
  qed
qed

lemma sys_fresh:
  assumes "sys_wf s" and "i \<in> set (heap_objs s)" and "heaps s i = Some h" and "heap_wf h'" and "same_place h h'"
    and "live h p = None" and "live h' p = Some l"
  shows "sys_live s p = None"
proof (rule ccontr)
  let ?s = "s\<lparr>heaps := (heaps s)(i \<mapsto> h')\<rparr>"
  note u = sys_update [OF assms(1-5), of ?s "contents s", simplified]
  assume "sys_live s p \<noteq> None"
  then obtain k where "sys_live s p = Some k" by blast
  from sys_liveD [OF assms(1) this] obtain j g where j: "j \<in> set (heap_objs s)" "heaps s j = Some g" "live g p = Some k" by blast
  then have "j \<noteq> i" using assms(3,6) by auto
  then have "heap_of p ?s = Some j" using sys_live_in(1) [OF u(1), of j g p k] j by simp
  moreover have "heap_of p ?s = Some i" using sys_live_in(1) [OF u(1), of i h' p l] assms(2,7) by simp
  ultimately show False using \<open>j \<noteq> i\<close> by simp
qed

text \<open>\<open>granted s n r\<close>: what a request of \<open>n\<close> bytes may return.\<close>

definition granted :: "mem_sys \<Rightarrow> nat \<Rightarrow> (nat \<times> mem_sys) option \<Rightarrow> bool" where
  "granted s n r \<longleftrightarrow> r = Some (0, s) \<or>
     (\<exists>p s' l. r = Some (p, s') \<and> 0 < p \<and> sys_wf s' \<and> heap_objs s' = heap_objs s \<and> contents s' = contents s \<and>
        sys_live s p = None \<and> block_request n \<le> l \<and> l < block_request n + (HDR + MINIALLOC) \<and> sys_live s' = (sys_live s)(p \<mapsto> l))"

lemma alloc_in_spec:
  assumes "sys_wf s" and "i \<in> set (heap_objs s)"
  shows "granted s n (alloc_in i n s)"
proof -
  obtain h where h: "heaps s i = Some h" "heap_wf h" using sys_wfD(1) [OF assms] by blast
  from alloc_spec [OF h(2) refl] consider "rt_memheap_alloc n h = Some (0, h)"
    | p l h' where "rt_memheap_alloc n h = Some (p, h')" "heap_wf h'" "same_place h h'" "0 < p" "live h p = None"
      "block_request n \<le> l" "live h' = (live h)(p \<mapsto> l)" "l < block_request n + (HDR + MINIALLOC)" by blast
  then show ?thesis
  proof cases
    case 1
    then have "alloc_in i n s = Some (0, s)" using h(1) by (simp add: alloc_in_def fun_upd_idem)
    then show ?thesis by (simp add: granted_def)
  next
    case 2
    let ?s = "s\<lparr>heaps := (heaps s)(i \<mapsto> h')\<rparr>"
    note u = sys_update [OF assms h(1) 2(2,3), of ?s "contents s", simplified]
    have live: "sys_live ?s = (sys_live s)(p \<mapsto> l)" unfolding u(2) 2(7) using 2(5) by (auto simp: fun_eq_iff)
    have "live h' p = Some l" using 2(7) by simp
    then have "sys_live s p = None" using sys_fresh [OF assms h(1) 2(2,3,5)] by blast
    then show ?thesis using h(1) 2 u(1) live by (auto simp: granted_def alloc_in_def)
  qed
qed

lemma malloc_others_spec:
  assumes "sys_wf s" and "set is \<subseteq> set (heap_objs s)"
  shows "granted s n (malloc_others is n s)"
  using assms
proof (induction "is")
  case (Cons i "is")
  show ?case
  proof (cases "i = SYS_HEAP")
    case False
    from alloc_in_spec [OF Cons.prems(1), of i n] Cons.prems(2) consider "alloc_in i n s = Some (0, s)"
      | p s' where "alloc_in i n s = Some (p, s')" "0 < p" by (auto simp: granted_def)
    then show ?thesis
    proof cases
      case 1
      then show ?thesis using Cons False by simp
    next
      case 2
      then show ?thesis using alloc_in_spec [OF Cons.prems(1), of i n] Cons.prems(2) False by simp
    qed
  qed (use Cons in simp)
qed (simp add: granted_def)

lemma malloc_spec:
  assumes "sys_wf s"
  shows "granted s n (rt_malloc n s)"
proof -
  have "SYS_HEAP \<in> set (heap_objs s)" using assms unfolding sys_wf_def by blast
  note a = alloc_in_spec [OF assms this, of n]
  from a consider "alloc_in SYS_HEAP n s = Some (0, s)" | p s' where "alloc_in SYS_HEAP n s = Some (p, s')" "0 < p"
    by (auto simp: granted_def)
  then show ?thesis
  proof cases
    case 1
    then show ?thesis using malloc_others_spec [OF assms, of "heap_objs s" n] by (simp add: rt_malloc_def)
  next
    case 2
    then show ?thesis using a by (simp add: rt_malloc_def)
  qed
qed

lemma sys_free_spec:
  assumes "sys_wf s" and "sys_live s p = Some l"
  shows "\<exists>s'. rt_free p s = Some s' \<and> sys_wf s' \<and> heap_objs s' = heap_objs s \<and> contents s' = contents s \<and>
    sys_live s' = (sys_live s)(p := None)"
proof -
  obtain i h where i: "i \<in> set (heap_objs s)" "heaps s i = Some h" "heap_wf h" "live h p = Some l" "heap_of p s = Some i"
    using sys_liveD [OF assms] by blast
  obtain h' where h': "rt_memheap_free p h = Some h'" "heap_wf h'" "same_place h h'" "live h' = (live h)(p := None)"
    using free_spec [OF i(3,4)] by blast
  let ?s = "s\<lparr>heaps := (heaps s)(i \<mapsto> h')\<rparr>"
  note u = sys_update [OF assms(1) i(1,2) h'(2,3), of ?s "contents s", simplified]
  have "sys_live ?s = (sys_live s)(p := None)" unfolding u(2) h'(4) using i(4) by (auto simp: fun_eq_iff)
  moreover have "p \<noteq> 0" using live_inside(1) [OF i(3,4)] by simp
  ultimately show ?thesis using i(2,5) h'(1) u(1) by (simp add: rt_free_def)
qed

lemma sys_apart:
  assumes "sys_wf s" and "sys_live s p = Some l" and "sys_live s q = Some k" and "p \<noteq> q"
  shows "p + l \<le> q \<or> q + k \<le> p"
proof -
  obtain i h where i: "i \<in> set (heap_objs s)" "heaps s i = Some h" "heap_wf h" "live h p = Some l" using sys_liveD [OF assms(1,2)] by blast
  obtain j g where j: "j \<in> set (heap_objs s)" "heaps s j = Some g" "heap_wf g" "live g q = Some k" using sys_liveD [OF assms(1,3)] by blast
  show ?thesis
  proof (cases "i = j")
    case True
    then show ?thesis using live_apart [OF i(3,4), of q k] i(2) j(2,4) assms(4) by auto
  next
    case False
    show ?thesis
    proof (rule ccontr)
      assume "\<not> (p + l \<le> q \<or> q + k \<le> p)"
      then have "max p q < p + l" "max p q < q + k" using live_inside(5) [OF i(3,4)] live_inside(5) [OF j(3,4)] by auto
      then have "max p q \<in> footprint h \<inter> footprint g"
        using live_inside(1,2) [OF i(3,4)] live_inside(1,2) [OF j(3,4)] by (auto simp: footprint_def)
      then show False using sys_wfD(2) [OF assms(1) i(1) j(1) False i(2) j(2)] by blast
    qed
  qed
qed

interpretation system: allocator sys_wf sys_live rt_malloc rt_free
proof unfold_locales
  fix s n assume wf: "sys_wf s"
  show "\<exists>p s'. rt_malloc n s = Some (p, s') \<and> sys_wf s' \<and>
      (if p = 0 then s' = s else sys_live s p = None \<and> (\<exists>l. block_request n \<le> l \<and> sys_live s' = (sys_live s)(p \<mapsto> l)))"
    using malloc_spec [OF wf, of n] wf by (fastforce simp: granted_def)
next
  fix s p l assume "sys_wf s" "sys_live s p = Some l"
  from sys_free_spec [OF this] show "\<exists>s'. rt_free p s = Some s' \<and> sys_wf s' \<and> sys_live s' = (sys_live s)(p := None)" by blast
qed (rule sys_apart)

section \<open>Reallocation and cleared memory\<close>

text \<open>The bytes of a map's blocks stay.\<close>

definition keeps :: "(nat \<rightharpoonup> nat) \<Rightarrow> bytes \<Rightarrow> bytes \<Rightarrow> bool" where
  "keeps bl b b' \<longleftrightarrow> (\<forall>q k i. bl q = Some k \<longrightarrow> i < k \<longrightarrow> b' (q + i) = b (q + i))"

text \<open>A successful reallocation of the \<open>l\<close> bytes at \<open>p\<close> to \<open>n\<close> bytes at \<open>p'\<close>.\<close>

definition sys_moved :: "mem_sys \<Rightarrow> nat \<Rightarrow> nat \<Rightarrow> nat \<Rightarrow> nat \<Rightarrow> mem_sys \<Rightarrow> bool" where
  "sys_moved s p l n p' s' \<longleftrightarrow> 0 < p' \<and> sys_wf s' \<and> (p' \<noteq> p \<longrightarrow> sys_live s p' = None) \<and>
     (\<exists>l'. n \<le> l' \<and> sys_live s' = (sys_live s)(p := None, p' \<mapsto> l')) \<and>
     (\<forall>i. i < l \<longrightarrow> i < n \<longrightarrow> contents s' (p' + i) = contents s (p + i)) \<and>
     keeps ((sys_live s)(p := None)) (contents s) (contents s')"

lemma outside_keeps:
  assumes "sys_wf s'" and "sys_live s' = bl(p' \<mapsto> l')" and "bl p' = None" and "\<And>a. a < p' \<or> p' + l' \<le> a \<Longrightarrow> b' a = b a"
  shows "keeps bl b b'"
  unfolding keeps_def
proof (intro allI impI)
  fix q k i assume q: "bl q = Some k" "i < k"
  then have ne: "q \<noteq> p'" "sys_live s' q = Some k" "sys_live s' p' = Some l'" using assms(2,3) by auto
  have "q + i < p' \<or> p' + l' \<le> q + i" using sys_apart [OF assms(1) ne(2,3,1)] q(2) by auto
  then show "b' (q + i) = b (q + i)" by (rule assms(4))
qed

lemma live_item_size:
  assumes "heap_wf h" and "live h p = Some n"
  shows "item_size (sub32 p HDR) h = Some n"
proof -
  note i = live_inside [OF assms]
  have e: "sub32 p HDR = p - HDR" using i(1-3) by (intro sub32_le) linarith+
  obtain it where it: "items h (p - HDR) = Some it" "n = inext it - p" using assms(2) by (auto simp: live_def split: option.splits if_splits)
  have nx: "inext it = p + n" using it(2) i(5) by simp
  have "sub32 (p + n) (p - HDR) = n + HDR" using i(1-3) by (subst sub32_le) linarith+
  moreover have "sub32 (n + HDR) HDR = n" using i(1-3) by (subst sub32_le) linarith+
  ultimately show ?thesis using it(1) nx e by (simp add: item_size_def)
qed

text \<open>The way over another heap, when the block's own heap has no room.\<close>

lemma realloc_elsewhere:
  assumes "sys_wf s" and "sys_live s p = Some l" and "0 < n" and "n + 3 < 2 ^ 32"
    and "rt_malloc n s = Some (p', s2)" and "0 < p'"
  shows "\<exists>s3. rt_free p (s2\<lparr>contents := copy_bytes p' p (if n > l then l else n) (contents s2)\<rparr>) = Some s3 \<and>
    sys_moved s p l n p' s3 \<and> block_size p s2 = Some l"
proof -
  obtain l' where g: "sys_wf s2" "contents s2 = contents s" "sys_live s p' = None" "block_request n \<le> l'" "sys_live s2 = (sys_live s)(p' \<mapsto> l')"
    using malloc_spec [OF assms(1), of n] assms(5,6) by (auto simp: granted_def)
  have n: "n \<le> l'" using g(4) block_request_ge [OF assms(4)] by simp
  have ne: "p' \<noteq> p" "sys_live s2 p = Some l" using g(3,5) assms(2) by auto
  let ?n = "if n > l then l else n"
  let ?b = "copy_bytes p' p ?n (contents s2)"
  let ?s = "s2\<lparr>contents := ?b\<rparr>"
  have same: "sys_wf ?s = sys_wf s2" "sys_live ?s = sys_live s2" by (simp_all add: sys_wf_def sys_live_def heap_of_def fun_eq_iff)
  obtain s3 where s3: "rt_free p ?s = Some s3" "sys_wf s3" "contents s3 = ?b" "sys_live s3 = (sys_live s2)(p := None)"
    using sys_free_spec [of ?s p l] g(1) ne(2) same by auto
  have live: "sys_live s3 = (sys_live s)(p := None, p' \<mapsto> l')" using s3(4) g(5) ne(1) by (simp add: fun_upd_twist)
  have "?b a = contents s a" if "a < p' \<or> p' + l' \<le> a" for a
    using that n copy_bytes_other [of a p' ?n p "contents s2"] g(2) by auto
  from outside_keeps [OF s3(2) live _ this] have "keeps ((sys_live s)(p := None)) (contents s) ?b" using g(3) by simp
  then have "sys_moved s p l n p' s3"
    unfolding sys_moved_def using assms(6) s3(2,3) g(2,3) n live by (auto simp: copy_bytes_same)
  moreover obtain j h where "heaps s2 j = Some h" "heap_wf h" "live h p = Some l" "heap_of p s2 = Some j"
    using sys_liveD [OF g(1) ne(2)] by blast
  then have "block_size p s2 = Some l" by (simp add: block_size_def live_item_size)
  ultimately show ?thesis using s3(1) by blast
qed

text \<open>The way within the block's own heap.\<close>

lemma realloc_inside:
  assumes "sys_wf s" and "i \<in> set (heap_objs s)" and "heaps s i = Some h" and "live h p = Some l"
    and "moved h (contents s) p l (block_request n) p' h' b'" and "n \<le> block_request n"
  shows "sys_moved s p l n p' (s\<lparr>heaps := (heaps s)(i \<mapsto> h'), contents := b'\<rparr>)"
proof -
  obtain l' where m: "heap_wf h'" "same_place h h'" "0 < p'" "p' \<noteq> p \<longrightarrow> live h p' = None" "block_request n \<le> l'"
      "live h' = (live h)(p := None, p' \<mapsto> l')" "\<forall>i. i < l \<longrightarrow> i < block_request n \<longrightarrow> b' (p' + i) = contents s (p + i)"
      "\<And>a. a < p' \<or> p' + l' \<le> a \<Longrightarrow> b' a = contents s a"
    using assms(5) unfolding moved_def by blast
  let ?s = "s\<lparr>heaps := (heaps s)(i \<mapsto> h'), contents := b'\<rparr>"
  note u = sys_update [OF assms(1-3) m(1,2), of ?s b', simplified]
  have p: "sys_live s p = Some l" using sys_live_in(2) [OF assms(1-4)] .
  have p': "live h' p' = Some l'" using m(6) by simp
  have fresh: "sys_live s p' = None" if "p' \<noteq> p" using sys_fresh [OF assms(1-3) m(1,2) _ p'] m(4) that by simp
  have live: "sys_live ?s = (sys_live s)(p := None, p' \<mapsto> l')"
    unfolding u(2) m(6) using p assms(4) m(4) sys_live_in(2) [OF assms(1-3)] by (auto simp: fun_eq_iff)
  have "((sys_live s)(p := None)) p' = None" using fresh by auto
  then have "keeps ((sys_live s)(p := None)) (contents s) b'"
    by (rule outside_keeps [where b = "contents s" and b' = b', OF u(1) live _ m(8)])
  then show ?thesis
    unfolding sys_moved_def using m(3,5,7) u(1) live fresh assms(6) by (auto intro: order.trans)
qed

lemma sys_realloc_spec:
  assumes "sys_wf s" and "sys_live s p = Some l" and "0 < n" and "block_request n + MINIALLOC < 2 ^ 32" and "n + 3 < 2 ^ 32"
  shows "rt_realloc p n s = Some (0, s) \<or> (\<exists>p' s'. rt_realloc p n s = Some (p', s') \<and> sys_moved s p l n p' s')"
proof -
  obtain i h where i: "i \<in> set (heap_objs s)" "heaps s i = Some h" "heap_wf h" "live h p = Some l" "heap_of p s = Some i"
    using sys_liveD [OF assms(1,2)] by blast
  have p: "p \<noteq> 0" using live_inside(1) [OF i(3,4)] by simp
  from realloc_spec [OF i(3,4) assms(3) refl assms(4), of "contents s"] consider
      "rt_memheap_realloc p n h (contents s) = Some (0, h, contents s)"
    | p' h' b' where "rt_memheap_realloc p n h (contents s) = Some (p', h', b')" "moved h (contents s) p l (block_request n) p' h' b'"
    by blast
  then show ?thesis
  proof cases
    case 2
    have "p' \<noteq> 0" using 2(2) by (simp add: moved_def)
    then have "rt_realloc p n s = Some (p', s\<lparr>heaps := (heaps s)(i \<mapsto> h'), contents := b'\<rparr>)"
      using p assms(3) i(2,5) 2(1) by (simp add: rt_realloc_def)
    then show ?thesis using realloc_inside [OF assms(1) i(1,2,4) 2(2) block_request_ge [OF assms(5)]] by blast
  next
    case 1
    have s: "s\<lparr>heaps := (heaps s)(i \<mapsto> h), contents := contents s\<rparr> = s" using i(2) by (simp add: fun_upd_idem)
    then have e: "rt_realloc p n s = rt_malloc n s \<bind> (\<lambda>(new, s2). if new = 0 then Some (0, s2)
        else block_size p s2 \<bind> (\<lambda>oldsize. rt_free p (s2\<lparr>contents :=
          copy_bytes new p (if n > oldsize then oldsize else n) (contents s2)\<rparr>) \<bind> (\<lambda>s3. Some (new, s3))))"
      using p assms(3) i(2,5) 1 by (simp add: rt_realloc_def)
    from malloc_spec [OF assms(1), of n] consider "rt_malloc n s = Some (0, s)" | q s2 where "rt_malloc n s = Some (q, s2)" "0 < q"
      by (auto simp: granted_def)
    then show ?thesis
    proof cases
      case 1
      then show ?thesis using e by simp
    next
      case 2
      then show ?thesis using realloc_elsewhere [OF assms(1-3,5) 2] e by auto
    qed
  qed
qed

section \<open>The system\<close>

definition no_heaps :: mem_sys where
  "no_heaps = \<lparr>heaps = Map.empty, heap_objs = [], contents = (\<lambda>_. 0)\<rparr>"

text \<open>After \<open>rt_system_heap_init\<close>, and after another heap has been made of a region of its own.\<close>

lemma system_init:
  assumes "region_ok flist start (end_addr - start)" and "end_addr < 2 ^ 32"
  shows "sys_wf (rt_system_heap_init flist start end_addr no_heaps)" and "sys_live (rt_system_heap_init flist start end_addr no_heaps) = Map.empty"
proof -
  have e: "sub32 end_addr start = end_addr - start" using assms by (intro sub32_le) (auto simp: region_ok_def)
  let ?h = "rt_memheap_init flist start (end_addr - start)"
  have s: "rt_system_heap_init flist start end_addr no_heaps = \<lparr>heaps = [SYS_HEAP \<mapsto> ?h], heap_objs = [SYS_HEAP], contents = (\<lambda>_. 0)\<rparr>"
    by (simp add: rt_system_heap_init_def heap_init_def no_heaps_def e)
  have wf: "heap_wf ?h" using init_ok(1) [OF assms(1)] by (auto simp: heap_wf_def)
  then show "sys_wf (rt_system_heap_init flist start end_addr no_heaps)" unfolding s by (simp add: sys_wf_def)
  show "sys_live (rt_system_heap_init flist start end_addr no_heaps) = Map.empty"
    unfolding s using init_ok(2) [OF assms(1)] by (auto simp: sys_live_def heap_of_def fun_eq_iff bind_eq_None_conv split: if_splits)
qed

lemma another_heap:
  assumes "sys_wf s" and "region_ok flist start n" and "i \<notin> set (heap_objs s)"
    and "\<forall>j \<in> set (heap_objs s). footprint (the (heaps s j)) \<inter> insert flist {start..<start + align_down n} = {}"
  shows "sys_wf (heap_init i flist start n s)"
proof -
  let ?h = "rt_memheap_init flist start n"
  have "heap_wf ?h" using init_ok(1) [OF assms(2)] by (auto simp: heap_wf_def)
  moreover have "footprint ?h = insert flist {start..<start + align_down n}" by (simp add: footprint_def init_place)
  ultimately show ?thesis
    using assms unfolding sys_wf_def heap_init_def by (auto simp: Int_commute)
qed



text \<open>Property C23. Reallocation either leaves everything as it is, or the first bytes of the block, as many as both sizes have, are at the
  new place, which is at least as large as asked for, and no other block has changed.\<close>

theorem realloc_keeps_data:
  assumes "sys_wf s" and "sys_live s p = Some l" and "0 < n" and "block_request n + MINIALLOC < 2 ^ 32" and "n + 3 < 2 ^ 32"
  shows "rt_realloc p n s = Some (0, s) \<or>
    (\<exists>p' s' l'. rt_realloc p n s = Some (p', s') \<and> sys_wf s' \<and> p' \<noteq> 0 \<and> n \<le> l' \<and> sys_live s' = (sys_live s)(p := None, p' \<mapsto> l') \<and>
       (\<forall>i. i < l \<longrightarrow> i < n \<longrightarrow> contents s' (p' + i) = contents s (p + i)) \<and>
       (\<forall>q k i. q \<noteq> p \<longrightarrow> sys_live s q = Some k \<longrightarrow> i < k \<longrightarrow> contents s' (q + i) = contents s (q + i)))"
proof -
  have "\<exists>p' s' l'. rt_realloc p n s = Some (p', s') \<and> sys_wf s' \<and> p' \<noteq> 0 \<and> n \<le> l' \<and> sys_live s' = (sys_live s)(p := None, p' \<mapsto> l') \<and>
       (\<forall>i. i < l \<longrightarrow> i < n \<longrightarrow> contents s' (p' + i) = contents s (p + i)) \<and>
       (\<forall>q k i. q \<noteq> p \<longrightarrow> sys_live s q = Some k \<longrightarrow> i < k \<longrightarrow> contents s' (q + i) = contents s (q + i))"
    if "rt_realloc p n s = Some (p', s')" "sys_moved s p l n p' s'" for p' s'
    using that unfolding sys_moved_def keeps_def by (metis fun_upd_other less_numeral_extra(3))
  then show ?thesis using sys_realloc_spec [OF assms] by blast
qed

lemma first_malloc:
  assumes "region_ok flist start (end_addr - start)" and "end_addr < 2 ^ 32" and "block_request n < align_down (end_addr - start) - 2 * HDR"
  shows "\<exists>s' l. rt_malloc n (rt_system_heap_init flist start end_addr no_heaps) = Some (start + HDR, s') \<and> sys_wf s' \<and>
    sys_live s' = [start + HDR \<mapsto> l] \<and> block_request n \<le> l \<and> l < block_request n + (HDR + MINIALLOC)"
proof -
  let ?s = "rt_system_heap_init flist start end_addr no_heaps" and ?h = "rt_memheap_init flist start (end_addr - start)"
  note i = system_init [OF assms(1,2)]
  have e: "sub32 end_addr start = end_addr - start" using assms(1,2) by (intro sub32_le) (auto simp: region_ok_def)
  have h: "heaps ?s SYS_HEAP = Some ?h" by (simp add: rt_system_heap_init_def heap_init_def no_heaps_def e)
  obtain h' where "rt_memheap_alloc n ?h = Some (start + HDR, h')"
    using alloc_all_free [OF assms(1) heap_reachable.initial init_ok(2) [OF assms(1)] assms(3)] by blast
  then obtain s' where s': "rt_malloc n ?s = Some (start + HDR, s')" using h by (simp add: rt_malloc_def alloc_in_def)
  then show ?thesis using malloc_spec [OF i(1), of n] i(2) by (auto simp: granted_def)
qed

theorem realloc_keeps_data_witness:
  "\<exists>s p l. rt_malloc 10 (rt_system_heap_init 64 4096 5120 no_heaps) = Some (p, s) \<and> sys_live s p = Some l \<and>
    (rt_realloc p 500 s = Some (0, s) \<or> (\<exists>p' s' l'. rt_realloc p 500 s = Some (p', s') \<and> 500 \<le> l' \<and> sys_live s' p' = Some l'))"
proof -
  have b: "block_request 10 = 12" "block_request 500 = 500" by (simp_all add: block_request_def align_up_def add32_def)
  have r: "region_ok 64 4096 (5120 - 4096)" "(5120::nat) < 2 ^ 32" "block_request 10 < align_down (5120 - 4096) - 2 * HDR"
    by (simp_all add: region_ok_def b align_down_def)
  obtain s l where s: "rt_malloc 10 (rt_system_heap_init 64 4096 5120 no_heaps) = Some (4096 + HDR, s)" "sys_wf s" "sys_live s = [4096 + HDR \<mapsto> l]"
    using first_malloc [OF r] by blast
  have live: "sys_live s (4096 + HDR) = Some l" using s(3) by simp
  have n: "(0::nat) < 500" "block_request 500 + MINIALLOC < 2 ^ 32" "(500::nat) + 3 < 2 ^ 32" using b(2) by simp_all
  from realloc_keeps_data [OF s(2) live n] show ?thesis using s(1) live by (metis fun_upd_same)
qed

lemma alloc_by_request:
  assumes "block_request n = block_request m"
  shows "rt_memheap_alloc n h = rt_memheap_alloc m h" and "rt_malloc n s = rt_malloc m s"
proof -
  show a: "rt_memheap_alloc n h = rt_memheap_alloc m h" for h by (simp add: rt_memheap_alloc_def assms)
  have i: "alloc_in i n s = alloc_in i m s" for i s by (simp add: alloc_in_def a)
  have "malloc_others is n s = malloc_others is m s" for "is" s by (induction "is" arbitrary: s) (simp_all add: i cong: if_cong)
  then show "rt_malloc n s = rt_malloc m s" by (simp add: rt_malloc_def i cong: if_cong)
qed

lemma block_request_wraps:
  assumes "2 ^ 32 - 3 \<le> n" and "n < 2 ^ 32"
  shows "block_request n = MINIALLOC"
proof -
  have "add32 n 3 = n + 3 - 2 ^ 32" using assms by (intro add32_wrap) simp_all
  then have "align_up n = 0" using assms by (simp add: align_up_def)
  then show ?thesis by (simp add: block_request_def)
qed



end
