(* ===== verification/Spec2Isabelle.thy ===== *)
theory Spec2Isabelle
  imports Prelude CLib FileConfig Wol RingBuffer Kernel Timer Semaphore Fifo Mailbox Mutex Event MessageQueue Console DeviceConfig
    CommonParam MqttApp Pipe MqttPacket MqttClient BootCheck Ui SdCard SystemBoot MemHeap SysHeap
begin

text \<open>
  A device that boots a PC remotely: a microcontroller under RT-Thread, on a network by WLAN, takes
  commands from a cloud service over MQTT and sends the wake-on-LAN packet of the PC's hardware
  address, which the user has entered at a serial console and which is kept on an SD card; it pings
  the PC and reports to the cloud whether it runs; a small display shows time and settings. This
  development models the application (\<open>src/applications\<close>), the SD card's hot plug thread
  (\<open>src/board/port/filesystem.c\<close>), the MQTT client it talks to the cloud with
  (\<open>src/packages/pahomqtt-v1.1.0\<close>) and the parts of the kernel they stand on
  (\<open>src/rt-thread\<close>), single core, in the configuration of \<open>src/rtconfig.h\<close>.

  \<^bold>\<open>How the parts interact.\<close>  \<open>system_boot\<close> waits for the card, reads the configuration, joins the
  network, sets the clock, starts the MQTT client, and then creates a semaphore and two mailboxes and
  the threads around them. The client's thread waits on its socket and on a pipe: packets that come in
  are taken from the socket's bytes, acknowledged, and handed to the callback of the topic's handler;
  what the application publishes goes into the pipe and from there to the socket. The MQTT callback releases the semaphore, on which the wake-on-LAN thread
  waits, and posts page numbers, which the display thread receives; the key thread posts pages too.
  The monitoring thread posts the computer's status, which the reporting thread publishes. The
  console dialogue writes the file that the other threads read.

  \<^bold>\<open>Conventions.\<close>  A C function is a HOL function on explicit states. \<open>None\<close> is undefined behaviour or
  a failed assertion, so a theorem that states \<open>Some\<close> shows that the code stays inside its objects;
  \<open>rt_err_t\<close> codes are values. Objects of memory are lists of their elements, accessed by
  \<open>mem_load\<close>, \<open>mem_store\<close> and \<open>array_set\<close>; strings are lists of characters with an explicit NUL where
  the code has one. Integers are words where they wrap. A kernel call that may block is cut at
  \<open>rt_schedule\<close>: its first part returns \<open>Blocked\<close>, and a second function, \<open>..._resumed\<close>, says what the
  call does when its thread runs again. What the code takes from the outside (what a socket call
  returns, the ARP table after each probe, a pin, the allocation of an object, the content of a
  buffer before its first use) is an argument. Loops with a bound are structural or
  have a measure; loops that end only when the environment changes are \<open>partial_function (option)\<close>, so
  that not returning is \<open>None\<close>, and the theorems say when they return.

  \<^bold>\<open>Theories.\<close>
  \<^item> \<open>Prelude\<close>, \<open>CLib\<close>: status codes, memory, C strings, \<open>strtol\<close>, \<open>atoi\<close> and the formats
    of \<open>rt_sprintf\<close> the code uses.
  \<^item> \<open>Kernel\<close>: \<open>thread.c\<close>, \<open>scheduler.c\<close>, the waiting lists of \<open>ipc.c\<close> and the time slice of
    \<open>clock.c\<close>. The record \<open>kernel\<close> has the threads, all lists, the ready bitmap and the running thread;
    \<open>inv\<close> ties them together and every operation keeps it (\<open>kernel_reachable\<close>); \<open>rt_schedule\<close> leaves a
    best thread running (\<open>scheduler_runs_best\<close>).
  \<^item> \<open>Semaphore\<close>, \<open>Mutex\<close>, \<open>Event\<close>, \<open>Mailbox\<close>, \<open>MessageQueue\<close>: the objects of \<open>ipc.c\<close>, each with
    its invariant and its abstract meaning (a number of tokens, a recursive lock, a bounded queue).
    \<open>Fifo\<close> is the locale of bounded queues, interpreted on mailboxes and message queues.
  \<^item> \<open>RingBuffer\<close>: \<open>ringbuffer.c\<close>, a mirrored buffer as a bounded queue; its locale \<open>lossy_fifo\<close> is the
    contract the console relies on.
  \<^item> \<open>Timer\<close>: \<open>timer.c\<close>, the list of software timers in the order of their expiry.
  \<^item> \<open>MemHeap\<close>, \<open>SysHeap\<close>: \<open>memheap.c\<close>, the heap behind \<open>rt_malloc\<close>, down to the links of the block headers.
    \<open>heap_ok\<close> says which blocks a heap has: they tile the pool, both rings are closed, no two free blocks are neighbours.
    The locale \<open>allocator\<close> is the contract of an allocator, interpreted on one heap and on the system's heaps.
  \<^item> \<open>FileConfig\<close>: \<open>file_config.c\<close>; the locale \<open>config_store\<close> states what its clients rely on.
  \<^item> \<open>Console\<close>, \<open>DeviceConfig\<close>: \<open>device_config.c\<close>, the receive callback with its buffer and semaphore,
    and the line editor with the command handler.
  \<^item> \<open>CommonParam\<close>: the record \<open>app\<close> of the objects the threads share. \<open>MqttApp\<close>: \<open>mqtt.c\<close>.
    \<open>Wol\<close>: \<open>wol.c\<close>. \<open>BootCheck\<close>: \<open>boot_check.c\<close>. \<open>Ui\<close>: \<open>ui.c\<close>. \<open>SdCard\<close>: \<open>filesystem.c\<close>.
    \<open>SystemBoot\<close>: \<open>system_boot.c\<close>, as the sequence of its visible steps.
  \<^item> \<open>Pipe\<close>: \<open>pipe.c\<close> over the ring buffer; its locale \<open>byte_stream\<close> is the contract of a stream of bytes.
  \<^item> \<open>MqttPacket\<close>: the packets of \<open>MQTTPacket/src\<close>, each serializer with its deserializer.
  \<^item> \<open>MqttClient\<close>: \<open>paho_mqtt_pipe.c\<close>. The record \<open>mclient\<close> has the fields of the client, the pieces its
    socket will deliver and what it has sent; the structure \<open>MQTTMessage\<close>, which the code copies into the pipe,
    has the size and layout of the 32-bit ARM ABI. Callbacks are arguments. \<open>thread_step\<close> is the client's thread
    as a transition relation between the places it comes back to (\<open>At_start\<close>, \<open>In_loop\<close>, \<open>Reading\<close>, ...), interleaved
    with what the network and the publishing threads do.
  \<^item> This theory: the properties that span components, above all \<open>remote_boot\<close>.

  \<^bold>\<open>What the lemmas show.\<close>  For each component: that its operations keep its invariant, what each
  does on each branch, errors included, and how they implement their abstract meaning. Properties are
  the theorems under a text that begins with their number; a property with hypotheses is followed by a
  witness, an instance on concrete data. Where the code does not do what it means to, the theorem says
  what it does: the reader of the configuration file and the line editor have no bounds, the display
  and the status report overflow their buffers, the check of an address lets texts without digits
  pass, the forced writer of the ring buffer can lose all its data, a command can arrive before the
  objects it uses exist, a packet that fills the client's buffer is followed by a write behind it, a second
  message published before the first is sent is lost, the wait before a ping can become endless,
  an answer to a subscription with many codes overflows the caller's array, and requests for almost
  \<open>2 ^ 32\<close> bytes of memory are granted or destroy the heap.

  \<^bold>\<open>Bounds and fuel.\<close>  No definition takes fuel; a loop of the client reads at most what its
  socket has. The polling loops of the boot have the bounds of the
  code (100 turns, 10 attempts).

  \<^bold>\<open>Not modelled.\<close>  The network stack, the file system, the JSON parser, the drivers and
  the vendor libraries are the environment: what the code relies on is an argument or
  a hypothesis of the theorem that uses it. Of the MQTT client: TLS, the creation of its thread, the socket calls
  and \<open>select\<close> themselves (their results are arguments), the reader of \<open>MQTTPacket.c\<close>, which the client does not use,
  and the serializers of servers. Of the pipe: \<open>pipe()\<close> and \<open>mkfifo()\<close>, which only name and open one. Of the kernel: the object container, the memory pools of \<open>mempool.c\<close>,
  hooks, stack checks, signals, SMP. The setting up of display and pins is register and library
  access without state of its own.
\<close>

section \<open>The wake-on-LAN thread and its semaphore\<close>

text \<open>One turn of \<open>wol_thread\<close>: the wait, and the pass of \<open>wol_iteration\<close> when it did not block.\<close>

definition wol_turn ::
  "char list \<Rightarrow> u8 list \<Rightarrow> bool \<Rightarrow> netdev option \<Rightarrow> sdcard \<Rightarrow> config_info \<Rightarrow> app \<Rightarrow>
     ((config_info \<times> udp_packet list) option \<times> app) option" where
  "wol_turn junk data sock_ok nd fs config a =
     do { sem \<leftarrow> computer_on_sem a;
          (out, sem', k') \<leftarrow> rt_sem_take sem (-1) (sys a);
          let a' = a\<lparr>computer_on_sem := Some sem', sys := k'\<rparr>;
          case out of
            Blocked \<Rightarrow> Some (None, a')
          | Returned _ \<Rightarrow> do { r \<leftarrow> wol_iteration junk data sock_ok nd fs config; Some (Some r, a') } }"

section \<open>Addresses as the console and the thread read them\<close>

lemma hex_is_in_range: "is_hex c \<Longrightarrow> hex_range c"
  by (auto simp: is_hex_def hex_range_def digit_val_def Let_def split: if_splits)

lemma mac_text_accepted: "is_mac_text s \<Longrightarrow> mac_accepted s (length s)"
  by (simp add: is_mac_text_def mac_accepted_def hex_is_in_range)

lemma strtol_no_digit:
  assumes "hex_range c" and "\<not> is_hex c"
  shows "strtol 16 (c # r) = Some 0"
proof -
  have n: "char_code (CHR '' '') = 32" "char_code (CHR ''-'') = 45" "char_code (CHR ''+'') = 43"
    by (simp_all add: char_code_def)
  have c: "48 \<le> char_code c" "digit_val 16 c = None" using assms by (auto simp: hex_range_def is_hex_def)
  then have "\<not> is_space c" "c \<noteq> CHR ''-''" "c \<noteq> CHR ''+''" using n by (auto simp: is_space_def)
  moreover have "digit_val 16 (CHR ''0'') = Some 0" by (simp add: digit_val_def char_code_def)
  then have "c \<noteq> CHR ''0''" using c(2) by auto
  then have "skip_prefix 16 (c # r) = c # r" by (simp add: skip_prefix_def split: list.split)
  ultimately show ?thesis using c(2) by (simp add: strtol_def)
qed

lemma parse_octets_no_digits:
  assumes "\<forall>off \<in> set offs. off < length m \<and> hex_range (m ! off) \<and> \<not> is_hex (m ! off)"
  shows "parse_octets offs m = Some (replicate (length offs) 0)"
  using assms
proof (induction offs)
  case (Cons off offs)
  have "drop off m = m ! off # drop (off + 1) m" using Cons.prems by (simp add: Cons_nth_drop_Suc)
  then show ?case using Cons strtol_no_digit by simp
qed simp

section \<open>Properties that span components\<close>

text \<open>The MQTT client's callback for the subscribed topic; a negative length is not a length of anything.\<close>

definition cloud_callback ::
  "(string \<Rightarrow> 'j option) \<Rightarrow> ('j \<Rightarrow> string \<Rightarrow> 'j option) \<Rightarrow> ('j option \<Rightarrow> string option) \<Rightarrow> app callback" where
  "cloud_callback parse item print off len rb a =
     (if len < 0 then None else mqtt_sub_callback parse item print off (nat len) rb a)"

definition default_callback :: "app callback" where
  "default_callback off len rb a =
     (if len < 0 then None else do { rb' \<leftarrow> mqtt_sub_default_callback off (nat len) rb; Some (rb', a) })"

definition cloud_handler :: handler where
  "cloud_handler = \<lparr>topicFilter = Some MQTT_SUBTOPIC, has_callback = True, h_qos = 1\<rparr>"

lemma cloud_topic_matches: "matches cloud_handler \<lparr>cstring = None, lenstring = MQTT_SUBTOPIC\<rparr>"
  by (simp add: matches_def cloud_handler_def MQTTPacket_equals_def Let_def)

definition command_packet :: "nat \<Rightarrow> string \<Rightarrow> string" where
  "command_packet i msg = packet (header_byte PUBLISH 0 1 0) (publish_body 1 i MQTT_SUBTOPIC msg)"

text \<open>A command that comes in over the network, in one piece, is acknowledged and has the effect of the callback.\<close>

lemma command_received:
  assumes "inbox c = [Chunk (command_packet i msg)]" and "i < 65536" and "length (command_packet i msg) < length (readbuf c)"
    and "length msg < 200000000" and "handlers c = [cloud_handler]" and "4 \<le> length (buf c)" and "send_results c = True # ss"
    and "app_ok a" and "mails_of_ten a" and "parse (takeWhile (\<lambda>ch. ch \<noteq> NUL) msg) = Some j" and "item j ''params'' = Some ps"
  shows "\<exists>c' a'. MQTT_cycle (\<lambda>n. cloud_callback parse item print) default_callback now c a = Some (0, c', a') \<and>
    sent c' = sent c @ [packet (header_byte PUBACK 0 0 0) (int_bytes i)] \<and> inbox c' = [] \<and>
    app_ok a' \<and> status_queue a' = status_queue a \<and> turn_on_effect (print (item ps ''turn_on'')) a a' \<and>
    page_queue a' = page_effect (print (item ps ''page'')) (page_queue a)"
proof -
  let ?p = "packet (header_byte PUBLISH 0 1 0) (publish_body 1 i MQTT_SUBTOPIC msg)" and ?off = "payload_at 1 i MQTT_SUBTOPIC msg"
  let ?rb = "?p @ drop (length ?p) (readbuf c)"
  have p: "length ?p < length (readbuf c)" "inbox c = Chunk (?p @ []) # []" using assms(1,3) by (simp_all add: command_packet_def)
  have t: "length MQTT_SUBTOPIC = 39" by (simp add: MQTT_SUBTOPIC_def)
  have o: "?off + length msg = length ?p" by (simp add: payload_at_def packet_def publish_body_def t)
  have d: "drop ?off ?p = msg"
    unfolding payload_at_def by (simp add: packet_def publish_body_def)
  have m: "take (length msg) (drop ?off ?rb) = msg" using d o by simp
  have fits: "?off + length msg < length ?rb" using o p(1) by simp
  have parsed: "parse (payload_text ?off (length msg) ?rb) = Some j" using assms(10) m by (simp add: payload_text_def)
  obtain a' where a': "mqtt_sub_callback parse item print ?off (length msg) ?rb a = Some (?rb[?off + length msg := NUL], a')" "app_ok a'"
      "status_queue a' = status_queue a" "turn_on_effect (print (item ps ''turn_on'')) a a'"
      "page_queue a' = page_effect (print (item ps ''page'')) (page_queue a)"
    using command_ok [where parse = parse and item = item and print = print, OF assms(8,9) fits parsed assms(11)] by blast
  have cb: "cloud_callback parse item print ?off (int (length msg)) ?rb a = Some (?rb[?off + length msg := NUL], a')"
    using a'(1) by (simp add: cloud_callback_def)
  have n: "(0::nat) < 2" "(1::nat) < 3" "length MQTT_SUBTOPIC < 65536" "length (publish_body 1 i MQTT_SUBTOPIC msg) < 268435456"
    "length ?p \<le> length (readbuf c)" "has_callback cloud_handler"
    using assms(4) p(1) t by (simp_all add: publish_body_def cloud_handler_def)
  show ?thesis
    using message_delivered [where cb = "\<lambda>n. cloud_callback parse item print" and default_cb = default_callback and now = now,
        OF p(2) refl n(1,2,1) assms(2) n(3-5) assms(5) cloud_topic_matches n(6) cb assms(6,7)] a'(2-5)
    by (auto simp: pending_def)
qed


definition command_client :: mclient where
  "command_client = example_client\<lparr>handlers := [cloud_handler], inbox := [Chunk (command_packet 5 ''13'')]\<rparr>"


text \<open>The console's check of an address is weaker than it means to be: every well-written
  address passes, but so does every text of 17 characters that has, in place of the digits,
  characters between '0' and 'f' that are no digits, and the thread reads the address zero from it.\<close>

theorem mac_check_gap:
  assumes "length s = 17"
    and "list_all (\<lambda>off. hex_range (s ! off) \<and> \<not> is_hex (s ! off) \<and> hex_range (s ! (off + 1))) [0, 3, 6, 9, 12, 15]"
  shows "(is_mac_text t \<longrightarrow> mac_accepted t (length t)) \<and> \<not> is_mac_text s \<and> mac_accepted s (length s) \<and>
    parse_mac (map (\<lambda>c. if c = CHR ''.'' then NUL else c) (s @ NUL # r)) = Some [0, 0, 0, 0, 0, 0]"
proof (intro conjI impI)
  show "\<not> is_mac_text s" and "mac_accepted s (length s)"
    using assms by (simp_all add: is_mac_text_def mac_accepted_def)
  let ?m = "map (\<lambda>c. if c = CHR ''.'' then NUL else c) (s @ NUL # r)"
  have "?m ! off = s ! off" if "off \<in> set [0, 3, 6, 9, 12, 15]" for off
  proof -
    have "char_code (CHR ''.'') = 46" by (simp add: char_code_def)
    then have "s ! off \<noteq> CHR ''.''" using assms(2) that by (auto simp: hex_range_def)
    then show ?thesis using that assms(1) by (auto simp: nth_append)
  qed
  then have "parse_octets [0, 3, 6, 9, 12, 15] ?m = Some (replicate (length [0, 3, 6, 9, 12, 15 :: nat]) 0)"
    using assms by (intro parse_octets_no_digits) auto
  then show "parse_mac ?m = Some [0, 0, 0, 0, 0, 0]" by (simp add: parse_mac_def numeral_eq_Suc)
qed (rule mac_text_accepted)

theorem mac_check_gap_witness:
  "mac_accepted ''ZZ-ZZ-ZZ-ZZ-ZZ-ZZ'' 17 \<and> \<not> is_mac_text ''ZZ-ZZ-ZZ-ZZ-ZZ-ZZ''"
proof -
  have l: "length ''ZZ-ZZ-ZZ-ZZ-ZZ-ZZ'' = 17" by simp
  have "list_all (\<lambda>off. hex_range (''ZZ-ZZ-ZZ-ZZ-ZZ-ZZ'' ! off) \<and> \<not> is_hex (''ZZ-ZZ-ZZ-ZZ-ZZ-ZZ'' ! off) \<and>
      hex_range (''ZZ-ZZ-ZZ-ZZ-ZZ-ZZ'' ! (off + 1))) [0, 3, 6, 9, 12, 15]"
    by (simp add: hex_range_def is_hex_def digit_val_def char_code_def)
  from mac_check_gap [OF l this] show ?thesis unfolding l by blast
qed

end
